(* ===== verification/Prelude.thy ===== *)
theory Prelude
  imports Main "HOL-Library.Word"
begin

text \<open>
  Prelude of the development: the machine integers of the sources, the way the model writes
  an operation that can abort, and the generic lemmas the component theories share.

  \<^item> \<open>unsigned\<close>, \<open>uint64\<close>, \<open>InstSeqNum\<close> and \<open>Addr\<close> are words of the width the C++ type
    has on the platforms gem5 builds for, so that \<open>+\<close>, \<open>-\<close> and \<open>*\<close> wrap as in the code.
  \<^item> An \<open>assert\<close>, a \<open>panic\<close>, a \<open>fatal\<close> and undefined behaviour (an access outside a
    container, \<open>front()\<close> of an empty queue) are values of \<open>cpp_error\<close>; an operation that
    can reach one returns a \<open>result\<close>, \<open>Inl\<close> of the error or \<open>Inr\<close> of its value.
  \<^item> The collection \<open>result_simps\<close> holds the inversion rules for such operations.
\<close>

type_synonym unsigned = "32 word"
type_synonym uint64 = "64 word"
type_synonym size_t = "64 word"
type_synonym InstSeqNum = "64 word"
type_synonym Addr = "64 word"
type_synonym ThreadID = nat

datatype cpp_error = AssertFailed | UndefinedBehaviour | Panic | Fatal

type_synonym 'a result = "cpp_error + 'a"

text \<open>\<open>checked b e r\<close> is the rest \<open>r\<close> of an operation behind the check \<open>b\<close>.\<close>

definition checked :: "bool \<Rightarrow> cpp_error \<Rightarrow> 'a result \<Rightarrow> 'a result" where
  "checked b e r = (if b then r else Inl e)"

definition bindE :: "'a result \<Rightarrow> ('a \<Rightarrow> 'b result) \<Rightarrow> 'b result" where
  "bindE r f = (case r of Inl e \<Rightarrow> Inl e | Inr v \<Rightarrow> f v)"

text \<open>\<open>foldE\<close> is a loop over a list whose body can abort.\<close>

primrec foldE :: "('a \<Rightarrow> 's \<Rightarrow> 's result) \<Rightarrow> 'a list \<Rightarrow> 's \<Rightarrow> 's result" where
  "foldE f [] s = Inr s"
| "foldE f (x # xs) s = bindE (f x s) (foldE f xs)"

named_theorems result_simps \<open>inversion of operations that can abort\<close>

lemma checked_Inr [result_simps]: "checked b e r = Inr v \<longleftrightarrow> b \<and> r = Inr v"
  by (simp add: checked_def)

lemma checked_Inl [result_simps]:
  "checked b e r = Inl e' \<longleftrightarrow> (\<not> b \<and> e' = e) \<or> (b \<and> r = Inl e')"
  by (auto simp: checked_def)

lemma checked_True [simp]: "checked True e r = r"
  by (simp add: checked_def)

lemma checked_False [simp]: "checked False e r = Inl e"
  by (simp add: checked_def)

lemma bindE_simps [simp]: "bindE (Inr v) f = f v" "bindE (Inl e) f = Inl e"
  by (simp_all add: bindE_def)

lemma bindE_Inr [result_simps]: "bindE r f = Inr v \<longleftrightarrow> (\<exists>u. r = Inr u \<and> f u = Inr v)"
  by (cases r) auto

lemma bindE_Inl [result_simps]:
  "bindE r f = Inl e \<longleftrightarrow> r = Inl e \<or> (\<exists>u. r = Inr u \<and> f u = Inl e)"
  by (cases r) auto

text \<open>Partial and total correctness of a loop from an invariant of its body.\<close>

lemma foldE_inv:
  assumes "foldE f xs s = Inr s'" and "P s"
    and "\<And>x s s'. x \<in> set xs \<Longrightarrow> P s \<Longrightarrow> f x s = Inr s' \<Longrightarrow> P s'"
  shows "P s'"
  using assms by (induction xs arbitrary: s) (auto simp: result_simps)

lemma foldE_total:
  assumes "P s" and "\<And>x s. x \<in> set xs \<Longrightarrow> P s \<Longrightarrow> \<exists>s'. f x s = Inr s' \<and> P s'"
  shows "\<exists>s'. foldE f xs s = Inr s' \<and> P s'"
  using assms
proof (induction xs arbitrary: s)
  case (Cons x xs)
  then obtain u where "f x s = Inr u" and "P u" by (meson list.set_intros(1))
  with Cons.IH [of u] Cons.prems(2) show ?case by auto
qed simp

lemma foldE_append: "foldE f (xs @ ys) s = bindE (foldE f xs s) (foldE f ys)"
proof (induction xs arbitrary: s)
  case (Cons x xs)
  then show ?case by (cases "f x s") auto
qed simp

lemma if_else_same [simp]: "(if b then x else if b then y else z) = (if b then x else z)"
  by simp

text \<open>A loop rule: the invariant speaks of the elements already passed.\<close>

lemma foldE_prefix:
  assumes "I [] s"
    and "\<And>ys y zs s. xs = ys @ y # zs \<Longrightarrow> I ys s \<Longrightarrow> \<exists>s'. f y s = Inr s' \<and> I (ys @ [y]) s'"
  shows "\<exists>s'. foldE f xs s = Inr s' \<and> I xs s'"
  using assms(2)
proof (induction xs rule: rev_induct)
  case Nil
  with assms(1) show ?case by simp
next
  case (snoc x xs)
  obtain s1 where "foldE f xs s = Inr s1" "I xs s1" using snoc.IH snoc.prems by force
  with snoc.prems [of xs x "[]" s1] show ?case by (auto simp: foldE_append)
qed

lemma upt_split:
  assumes "[0..<n] = ys @ y # zs"
  shows "ys = [0..<y] \<and> y < n"
proof -
  have l: "length ys < n" using arg_cong [OF assms, of length] by simp
  have "y = length ys" using arg_cong [OF assms, of "\<lambda>l. l ! length ys"] l by (simp add: nth_append)
  moreover have "ys = take (length ys) [0..<n]" using assms by simp
  ultimately show ?thesis using l by (simp add: take_upt)
qed

text \<open>\<open>iterE f n\<close> runs an operation \<open>n\<close> times.\<close>

primrec iterE :: "('s \<Rightarrow> 's result) \<Rightarrow> nat \<Rightarrow> 's \<Rightarrow> 's result" where
  "iterE f 0 s = Inr s"
| "iterE f (Suc n) s = bindE (f s) (iterE f n)"

subsection \<open>Words\<close>

text \<open>
  A C++ \<open>int\<close> is a HOL \<open>int\<close>; where the code mixes it with \<open>unsigned\<close> the operands become
  \<open>unsigned\<close> (\<open>word_of_int\<close>) and the result is read back as \<open>int\<close> (\<open>sint\<close>).
\<close>

lemma sint_word_of_int_32:
  assumes "- (2 ^ 31) \<le> i" and "i < 2 ^ 31"
  shows "sint (word_of_int i :: 32 word) = i"
  using assms by (simp add: sint_sbintrunc' signed_take_bit_int_eq_self)

lemma word_of_int_plus_word: "word_of_int i + (w::'a::len word) = word_of_int (i + uint w)"
  by simp

text \<open>Increments and decrements that do not wrap.\<close>

lemma unat_Suc_word:
  fixes w :: "'a::len word"
  assumes "unat w < 2 ^ LENGTH('a) - 1"
  shows "unat (w + 1) = Suc (unat w)"
proof -
  from assms have "unat w + unat (1::'a word) < 2 ^ LENGTH('a)" by simp
  then have "unat (w + 1) = unat w + unat (1::'a word)" by (rule unat_add_lem [THEN iffD1])
  then show ?thesis by simp
qed

lemma unat_pred_word:
  fixes w :: "'a::len word"
  assumes "w \<noteq> 0"
  shows "unat (w - 1) = unat w - 1"
  using assms by (metis unat_minus_one)

lemma unat_add_eq:
  "unat x = m \<Longrightarrow> unat y = n \<Longrightarrow> m + n < 2 ^ LENGTH('a) \<Longrightarrow> unat (x + y :: 'a::len word) = m + n"
  by (simp add: unat_word_ariths)

lemma unat_of_nat_small: "n < 2 ^ LENGTH('a) \<Longrightarrow> unat (of_nat n :: 'a::len word) = n"
  by (simp add: unsigned_of_nat take_bit_nat_eq_self)

lemma unat_power_2: "k < LENGTH('a) \<Longrightarrow> unat (2 ^ k :: 'a::len word) = 2 ^ k"
  using unat_of_nat_small [of "2 ^ k", where 'a = 'a] power_strict_increasing [of k "LENGTH('a)" "2::nat"]
  by simp

lemma unat_drop_bit_div: "unat (drop_bit n (w::'a::len word)) = unat w div 2 ^ n"
  unfolding unat_drop_bit_eq by (rule drop_bit_eq_div)

lemma word_neq_0_bit: "(w::'a::len word) \<noteq> 0 \<longleftrightarrow> (\<exists>i. bit w i)"
  using bit_eqI [of w 0] by auto

lemma word_max_le [simp]: "(w::'a::len word) \<le> - 1"
  by (rule word_n1_ge)

text \<open>An \<open>unsigned\<close> operand compared with or added to a \<open>uint64_t\<close> is zero-extended.\<close>

lemma unat_ucast_32_64 [simp]: "unat (ucast (h::32 word) :: 64 word) = unat h"
proof -
  have "unat h < 2 ^ 64" using unsigned_less [of h, where 'a = nat] by simp
  then show ?thesis by (simp add: unsigned_ucast_eq take_bit_nat_eq_self)
qed

lemma ucast_le_iff: "(ucast (h::32 word) \<le> (n::64 word)) = (unat h \<le> unat n)"
  by (simp add: word_le_nat_alt)

text \<open>One wrap-around of a ring index.\<close>

lemma mod_ring:
  fixes n x :: int
  assumes "0 < n" and "- n \<le> x" and "x < 2 * n"
  shows "x mod n = (if x \<ge> n then x - n else if x < 0 then x + n else x)"
proof -
  have "x mod n = x - n" if "x \<ge> n"
  proof -
    have "(x - n) mod n = x - n" using that assms by (intro mod_pos_pos_trivial) simp_all
    then show ?thesis by (simp only: minus_mod_self2)
  qed
  moreover have "x mod n = x + n" if "x < 0"
  proof -
    have "(x + n) mod n = x + n" using that assms by (intro mod_pos_pos_trivial) simp_all
    then show ?thesis by (simp only: mod_add_self2)
  qed
  ultimately show ?thesis by (auto intro: mod_pos_pos_trivial)
qed

subsection \<open>Suffixes of lists\<close>

text \<open>
  The length of the longest suffix whose elements satisfy a predicate: how a run-length counter
  that is reset on every other element reads a history.
\<close>

definition suffix_run :: "('a \<Rightarrow> bool) \<Rightarrow> 'a list \<Rightarrow> nat" where
  "suffix_run P xs = length (takeWhile P (rev xs))"

lemma suffix_run_Nil [simp]: "suffix_run P [] = 0"
  by (simp add: suffix_run_def)

lemma suffix_run_snoc [simp]:
  "suffix_run P (xs @ [x]) = (if P x then Suc (suffix_run P xs) else 0)"
  by (simp add: suffix_run_def)

lemma suffix_run_le: "suffix_run P xs \<le> length xs"
  using length_takeWhile_le [of P "rev xs"] by (simp add: suffix_run_def)

lemma suffix_run_ge_iff:
  "k \<le> suffix_run P xs \<longleftrightarrow> k \<le> length xs \<and> (\<forall>j. length xs - k \<le> j \<and> j < length xs \<longrightarrow> P (xs ! j))"
proof (induction xs arbitrary: k rule: rev_induct)
  case (snoc x xs)
  show ?case
  proof (cases k)
    case (Suc k')
    have "(\<forall>j. length (xs @ [x]) - k \<le> j \<and> j < length (xs @ [x]) \<longrightarrow> P ((xs @ [x]) ! j)) \<longleftrightarrow>
      P x \<and> (\<forall>j. length xs - k' \<le> j \<and> j < length xs \<longrightarrow> P (xs ! j))"
      using Suc by (auto simp: nth_append less_Suc_eq)
    with snoc.IH [of k'] Suc show ?thesis by auto
  qed auto
qed auto

lemma suffix_run_take:
  assumes "n \<le> length xs" and "k \<le> suffix_run P (take n xs)"
  shows "k \<le> n" and "\<And>j. n - k \<le> j \<Longrightarrow> j < n \<Longrightarrow> P (xs ! j)"
proof -
  have len: "length (take n xs) = n" using assms(1) by simp
  have k: "k \<le> n \<and> (\<forall>j. n - k \<le> j \<and> j < n \<longrightarrow> P (take n xs ! j))"
    using suffix_run_ge_iff [THEN iffD1, OF assms(2)] unfolding len .
  show "k \<le> n" using k by blast
  show "P (xs ! j)" if "n - k \<le> j" "j < n" for j
  proof -
    have "P (take n xs ! j)" using k that by blast
    with that(2) show ?thesis by simp
  qed
qed

text \<open>An index masked with an \<open>unsigned\<close> is at most the mask.\<close>

lemma masked_index: "unat (and (w :: uint64) (ucast (m :: unsigned))) \<le> unat m"
proof -
  have "unat (and w (ucast m)) \<le> unat (ucast m :: uint64)" unfolding word_le_nat_alt [symmetric] by (rule word_and_le1)
  also have "\<dots> = unat m" by (simp add: unsigned_ucast_eq unsigned_take_bit_eq)
  finally show ?thesis .
qed

end
