(* ===== verification/Doubles.thy ===== *)
theory Doubles
  imports Prelude "HOL-Library.Log_Nat" Complex_Main
begin

text \<open>
  The \<open>double\<close> arithmetic the adaptive controller uses (\<open>src/cpu/o3/cpu.cc\<close>): conversions
  of unsigned counters and quotients of two such conversions, compared with parameters and
  literals. A finite \<open>double\<close> is the rational it denotes; \<open>fl\<close> is IEEE-754 binary64
  rounding to nearest, ties to even, with a 53-bit significand. Every value the controller
  rounds is zero or lies between \<open>2 powi (-65)\<close> and \<open>2 ^ 65\<close>, well inside the normal
  exponent range, so that neither overflow nor subnormal rounding occurs and \<open>fl\<close> needs no
  exponent bound. The facts the components use: \<open>fl\<close> keeps zero and sign, is exact on small
  integers, and is monotone.
\<close>

type_synonym double = rat

text \<open>Rounding a rational to an integer, ties to even.\<close>

definition rne :: "rat \<Rightarrow> int" where
  "rne x = (let f = \<lfloor>x\<rfloor>; d = x - of_int f in
     if d < 1 / 2 then f else if 1 / 2 < d then f + 1 else if even f then f else f + 1)"

text \<open>The binary exponent of a positive rational: the greatest \<open>e\<close> with \<open>2 powi e \<le> x\<close>.\<close>

definition ilog2 :: "rat \<Rightarrow> int" where
  "ilog2 x = (let (p, q) = quotient_of x; d = bitlen p - bitlen q in
     if 2 powi d \<le> x then d else d - 1)"

definition ulp :: "rat \<Rightarrow> rat" where
  "ulp x = 2 powi (ilog2 x - 52)"

definition fl :: "rat \<Rightarrow> double" where
  "fl x = (if x = 0 then 0
     else if 0 < x then of_int (rne (x / ulp x)) * ulp x
     else - (of_int (rne (- x / ulp (- x))) * ulp (- x)))"

text \<open>\<open>static_cast<double>\<close> of an unsigned value, and the quotient of two doubles.\<close>

definition double_of :: "'a::len word \<Rightarrow> double" where
  "double_of n = fl (of_nat (unat n))"

definition fdiv :: "double \<Rightarrow> double \<Rightarrow> double" where
  "fdiv a b = fl (a / b)"

subsection \<open>Rounding to an integer\<close>

lemma rne_of_int [simp]: "rne (of_int k) = k"
  by (simp add: rne_def Let_def)

lemma rne_of_nat [simp]: "rne (of_nat k) = int k"
  using rne_of_int [of "int k"] by simp

lemma rne_floor_cases: "rne x = \<lfloor>x\<rfloor> \<or> rne x = \<lfloor>x\<rfloor> + 1"
  by (simp add: rne_def Let_def)

lemma rne_mono:
  assumes "x \<le> y"
  shows "rne x \<le> rne y"
proof (cases "\<lfloor>x\<rfloor> = \<lfloor>y\<rfloor>")
  case True
  with assms show ?thesis by (simp add: rne_def Let_def)
next
  case False
  with assms have "\<lfloor>x\<rfloor> + 1 \<le> \<lfloor>y\<rfloor>" using floor_mono [OF assms] by linarith
  with rne_floor_cases [of x] rne_floor_cases [of y] show ?thesis by linarith
qed

lemma rne_ge: "of_int k \<le> x \<Longrightarrow> k \<le> rne x"
  using rne_mono [of "of_int k" x] by simp

lemma rne_le: "x \<le> of_int k \<Longrightarrow> rne x \<le> k"
  using rne_mono [of x "of_int k"] by simp

subsection \<open>The exponent\<close>

lemma powi_rat_of_nat: "(2::rat) powi (int a - int b) = 2 ^ a / 2 ^ b"
  by (simp add: power_int_diff)

lemma bitlen_pos_bounds:
  assumes "0 < p"
  shows "2 ^ (nat (bitlen p) - 1) \<le> p" and "p < 2 ^ nat (bitlen p)" and "0 < bitlen p"
proof -
  show "0 < bitlen p" using assms using bitlen_eq_zero_iff [of p] bitlen_nonneg [of p] by linarith
  then have "nat (bitlen p) - 1 = nat (bitlen p - 1)" by simp
  with bitlen_bounds [OF assms] show "2 ^ (nat (bitlen p) - 1) \<le> p" and "p < 2 ^ nat (bitlen p)"
    by simp_all
qed

lemma ilog2_bounds:
  assumes "0 < x"
  shows "2 powi ilog2 x \<le> x" and "x < 2 powi (ilog2 x + 1)"
proof -
  obtain p q where pq: "quotient_of x = (p, q)" by force
  have x: "x = of_int p / of_int q" by (rule quotient_of_div [OF pq])
  have q: "0 < q" by (rule quotient_of_denom_pos [OF pq])
  with assms x have p: "0 < p" by (simp add: zero_less_divide_iff)
  define a b where "a = nat (bitlen p)" and "b = nat (bitlen q)"
  have ab: "0 < a" "0 < b" "bitlen p = int a" "bitlen q = int b"
    using bitlen_pos_bounds(3) [OF p] bitlen_pos_bounds(3) [OF q] by (auto simp: a_def b_def)
  have pb: "(2::rat) ^ (a - 1) \<le> of_int p" "of_int p < (2::rat) ^ a"
    using bitlen_pos_bounds(1,2) [OF p] unfolding a_def [symmetric]
    by (metis of_int_le_iff of_int_numeral of_int_power) (metis bitlen_pos_bounds(2) p a_def of_int_less_iff of_int_numeral of_int_power)
  have qb: "(2::rat) ^ (b - 1) \<le> of_int q" "of_int q < (2::rat) ^ b"
    using bitlen_pos_bounds(1,2) [OF q] unfolding b_def [symmetric]
    by (metis of_int_le_iff of_int_numeral of_int_power) (metis bitlen_pos_bounds(2) q b_def of_int_less_iff of_int_numeral of_int_power)
  have up: "x < 2 powi (int a - int b + 1)"
  proof -
    have "x \<le> of_int p / 2 ^ (b - 1)" using x qb(1) p q by (simp add: frac_le)
    also have "\<dots> < 2 ^ a / 2 ^ (b - 1)" using pb(2) by (simp add: divide_strict_right_mono)
    also have "\<dots> = 2 powi (int a - int (b - 1))" by (rule powi_rat_of_nat [symmetric])
    finally show ?thesis using ab(2) by (simp add: of_nat_diff algebra_simps)
  qed
  have lo: "2 powi (int a - int b - 1) \<le> x"
  proof -
    have "(2::rat) ^ (a - 1) / 2 ^ b \<le> of_int p / of_int q"
      using pb(1) qb(2) p q by (intro frac_le) auto
    then have "2 powi (int (a - 1) - int b) \<le> x" by (simp only: powi_rat_of_nat x)
    then show ?thesis using ab(1) by (simp add: of_nat_diff algebra_simps)
  qed
  from up lo show "2 powi ilog2 x \<le> x" and "x < 2 powi (ilog2 x + 1)"
    by (auto simp: ilog2_def pq ab Let_def)
qed

lemma powi_less_iff: "(2::rat) powi a < 2 powi b \<longleftrightarrow> a < b"
  using power_int_strict_increasing [of a b "2::rat"] power_int_increasing [of b a "2::rat"]
  by (cases "a < b") auto

lemma powi_le_iff: "(2::rat) powi a \<le> 2 powi b \<longleftrightarrow> a \<le> b"
  using powi_less_iff [of b a] by (simp add: not_less [symmetric])

lemma ilog2_unique:
  assumes "2 powi e \<le> x" and "x < 2 powi (e + 1)"
  shows "ilog2 x = e"
proof -
  have "(0::rat) < 2 powi e" by simp
  with assms(1) have "0 < x" by linarith
  note b = ilog2_bounds [OF this]
  have "(2::rat) powi e < 2 powi (ilog2 x + 1)" using assms(1) b(2) by linarith
  moreover have "(2::rat) powi ilog2 x < 2 powi (e + 1)" using assms(2) b(1) by linarith
  ultimately show ?thesis by (simp add: powi_less_iff)
qed

lemma ilog2_mono:
  assumes "0 < x" and "x \<le> y"
  shows "ilog2 x \<le> ilog2 y"
proof -
  have "(2::rat) powi ilog2 x < 2 powi (ilog2 y + 1)"
    using ilog2_bounds(1) [OF assms(1)] ilog2_bounds(2) [of y] assms by linarith
  then show ?thesis by (simp add: powi_less_iff)
qed

subsection \<open>Rounding\<close>

lemma ulp_pos [simp]: "0 < ulp x"
  by (simp add: ulp_def)

lemma scaled_bounds:
  assumes "0 < x"
  shows "2 ^ 52 \<le> x / ulp x" and "x / ulp x < 2 ^ 53"
proof -
  have e: "(2::rat) powi ilog2 x = 2 ^ 52 * ulp x"
    by (simp add: ulp_def power_int_diff)
  have e': "(2::rat) powi (ilog2 x + 1) = 2 ^ 53 * ulp x"
    by (simp add: ulp_def power_int_diff power_int_add)
  show "2 ^ 52 \<le> x / ulp x"
    using ilog2_bounds(1) [OF assms] by (simp add: e pos_le_divide_eq)
  show "x / ulp x < 2 ^ 53"
    using ilog2_bounds(2) [OF assms] by (simp add: e' pos_divide_less_eq)
qed

text \<open>A rounded positive value stays within the binade of its argument, ends included.\<close>

lemma fl_binade:
  assumes "0 < x"
  shows "2 powi ilog2 x \<le> fl x" and "fl x \<le> 2 powi (ilog2 x + 1)"
proof -
  let ?r = "rne (x / ulp x)"
  have fx: "fl x = of_int ?r * ulp x" using assms by (simp add: fl_def)
  have "2 ^ 52 \<le> ?r" using scaled_bounds(1) [OF assms] rne_ge [of "2 ^ 52"] by simp
  moreover have "?r \<le> 2 ^ 53"
    using scaled_bounds(2) [OF assms] rne_le [of "x / ulp x" "2 ^ 53"] by simp
  ultimately have r: "(2::rat) ^ 52 \<le> of_int ?r" "of_int ?r \<le> (2::rat) ^ 53"
    by (metis of_int_le_iff of_int_numeral of_int_power)+
  show "2 powi ilog2 x \<le> fl x"
    using mult_right_mono [OF r(1), of "ulp x"] by (simp add: fx ulp_def power_int_diff less_imp_le)
  show "fl x \<le> 2 powi (ilog2 x + 1)"
    using mult_right_mono [OF r(2), of "ulp x"]
    by (simp add: fx ulp_def power_int_diff power_int_add less_imp_le)
qed

lemma fl_0 [simp]: "fl 0 = 0"
  by (simp add: fl_def)

lemma fl_pos: "0 < x \<Longrightarrow> 0 < fl x"
  using fl_binade(1) [of x] by (metis order_less_le_trans zero_less_power_int zero_less_numeral)

lemma fl_nonneg: "0 \<le> x \<Longrightarrow> 0 \<le> fl x"
  using fl_pos [of x] by (cases "x = 0") auto

lemma fl_mono_pos:
  assumes "0 < x" and "x \<le> y"
  shows "fl x \<le> fl y"
proof (cases "ilog2 x = ilog2 y")
  case True
  then have u: "ulp y = ulp x" by (simp add: ulp_def)
  have "rne (x / ulp x) \<le> rne (y / ulp x)"
    using assms(2) by (intro rne_mono divide_right_mono) (simp_all add: less_imp_le)
  then show ?thesis using assms by (simp add: fl_def u mult_right_mono less_imp_le)
next
  case False
  with ilog2_mono [OF assms] have "ilog2 x + 1 \<le> ilog2 y" by simp
  then have "(2::rat) powi (ilog2 x + 1) \<le> 2 powi ilog2 y" by (simp only: powi_le_iff)
  with fl_binade(2) [OF assms(1)] fl_binade(1) [of y] assms show ?thesis by linarith
qed

lemma fl_mono:
  assumes "0 \<le> x" and "x \<le> y"
  shows "fl x \<le> fl y"
  using assms fl_mono_pos [of x y] fl_nonneg [of y] by (cases "x = 0") auto

text \<open>A value with at most 53 significant bits is represented exactly.\<close>

lemma fl_dyadic:
  assumes "n < 2 ^ 53"
  shows "fl (of_nat n / 2 ^ j) = of_nat n / 2 ^ j"
proof (cases "n = 0")
  case False
  let ?x = "of_nat n / 2 ^ j :: rat"
  have x: "0 < ?x" using False by simp
  have "(of_nat n :: rat) < 2 ^ 53" using assms by (metis of_nat_less_iff of_nat_numeral of_nat_power)
  then have "?x < 2 powi (int 53 - int j)"
    unfolding powi_rat_of_nat by (rule divide_strict_right_mono) simp
  with ilog2_bounds(1) [OF x] have "(2::rat) powi ilog2 ?x < 2 powi (int 53 - int j)" by linarith
  then have le: "0 \<le> 52 - int j - ilog2 ?x" by (simp add: powi_less_iff)
  define k where "k = nat (52 - int j - ilog2 ?x)"
  have u: "ulp ?x * (2 ^ j * 2 ^ k) = 1"
  proof -
    have "(2::rat) ^ j * 2 ^ k = 2 powi (int j + int k)" by (simp add: power_int_add)
    then have "ulp ?x * (2 ^ j * 2 ^ k) = 2 powi (ilog2 ?x - 52 + (int j + int k))"
      unfolding ulp_def by (simp only: power_int_add [symmetric]) (simp add: power_int_add)
    also have "ilog2 ?x - 52 + (int j + int k) = 0" using le by (simp add: k_def)
    finally show ?thesis by simp
  qed
  then have u': "ulp ?x = 1 / (2 ^ j * 2 ^ k)" by (simp add: eq_divide_eq)
  have "?x / ulp ?x = of_nat (n * 2 ^ k)" unfolding u' by simp
  then have "rne (?x / ulp ?x) = int (n * 2 ^ k)" by (simp only: rne_of_nat)
  then have "fl ?x = of_nat (n * 2 ^ k) * ulp ?x" using x by (simp add: fl_def)
  also have "\<dots> = ?x" unfolding u' by simp
  finally show ?thesis .
qed simp

lemma fl_of_nat [simp]: "n < 2 ^ 53 \<Longrightarrow> fl (of_nat n) = of_nat n"
  using fl_dyadic [of n 0] by simp

lemma double_of_exact:
  assumes "unat n < 2 ^ 53"
  shows "double_of n = of_nat (unat n)"
  unfolding double_of_def by (rule fl_of_nat [OF assms])

lemma double_of_nonneg [simp]: "0 \<le> double_of n"
  unfolding double_of_def by (rule fl_nonneg) (rule of_nat_0_le_iff)

lemma double_of_pos: "n \<noteq> 0 \<Longrightarrow> 0 < double_of n"
  unfolding double_of_def by (rule fl_pos) (simp only: of_nat_0_less_iff unat_gt_0 simp_thms)

lemma double_of_mono: "m \<le> n \<Longrightarrow> double_of m \<le> double_of n"
  unfolding double_of_def by (rule fl_mono) (simp_all only: of_nat_0_le_iff of_nat_le_iff word_le_nat_alt)

lemma fdiv_nonneg: "0 \<le> a \<Longrightarrow> 0 \<le> b \<Longrightarrow> 0 \<le> fdiv a b"
  by (simp add: fdiv_def fl_nonneg)

lemma fdiv_le_1:
  assumes "0 \<le> a" and "a \<le> b"
  shows "fdiv a b \<le> 1"
proof -
  have "fl (a / b) \<le> fl 1" using assms by (intro fl_mono) (auto simp: divide_le_eq_1)
  moreover have "fl 1 = 1" using fl_of_nat [of 1] by simp
  ultimately show ?thesis by (simp add: fdiv_def)
qed

end
