(* ===== verification/AdaptiveLimits.thy ===== *)
theory AdaptiveLimits
  imports Doubles
begin

text \<open>
  The stall-adaptive controller of the O3 CPU, first part (\<open>src/cpu/o3/cpu.hh\<close>, lines
  115-132 and 513-613, and \<open>src/cpu/o3/cpu.cc\<close>, lines 513-750): its configuration, its
  state, and what the pipeline stages ask of it.

  \<^item> \<open>adaptive_config\<close> holds the members the constructor copies from the parameters and no
    operation writes. The four members that the code declares once per class (fetch width,
    in-flight cap, rename width, dispatch width) are one \<open>profile\<close> record per class.
  \<^item> \<open>adaptive_state\<close> holds the members the controller updates.
  \<^item> \<open>cycle_signals\<close> is what the controller reads of the ROB, the instruction queue, the
    load/store queue and the commit stage in one cycle.
  \<^item> \<open>adaptiveFetchWidth\<close>, \<open>adaptiveRenameWidth\<close>, \<open>adaptiveDispatchWidth\<close> and
    \<open>adaptiveShouldThrottleFetch\<close> are the hooks of fetch, rename and IEW.
\<close>

datatype AdaptiveClass =
    SerializedMemoryDominated
  | HighMLPMemoryDominated
  | ControlDominated
  | ResourceContentionDominated

datatype AdaptiveMode =
    Aggressive
  | Conservative
  | SerializedProfile
  | HighMLPProfile
  | ControlProfile
  | ResourceProfile

record AdaptiveWindowStats =
  cycles :: uint64
  fetchedInsts :: uint64
  committedInsts :: uint64
  squashedInsts :: uint64
  branchMispredictEvents :: uint64
  commitBlockedMemCycles :: uint64
  iqSaturationCycles :: uint64
  branchRecoveryCycles :: uint64
  inflightInstSamples :: uint64
  iqOccupancySamples :: uint64
  outstandingMissSamples :: uint64

text \<open>\<open>AdaptiveWindowStats{}\<close>: every member has the initialiser \<open>0\<close>.\<close>

definition empty_window :: AdaptiveWindowStats where
  "empty_window =
    \<lparr>cycles = 0, fetchedInsts = 0, committedInsts = 0, squashedInsts = 0,
     branchMispredictEvents = 0, commitBlockedMemCycles = 0, iqSaturationCycles = 0,
     branchRecoveryCycles = 0, inflightInstSamples = 0, iqOccupancySamples = 0,
     outstandingMissSamples = 0\<rparr>"

record profile =
  FetchWidth :: unsigned
  InflightCap :: unsigned
  RenameWidth :: unsigned
  DispatchWidth :: unsigned

record adaptive_config =
  adaptiveEnable :: bool
  numThreads :: nat
  adaptiveSwitchHysteresis :: unsigned
  adaptiveMinModeWindows :: unsigned
  adaptiveAggressiveFetch :: unsigned
  adaptiveConservative :: profile
  adaptiveConservativeIQCap :: unsigned
  adaptiveConservativeLSQCap :: unsigned
  adaptiveUseClassProfiles :: bool
  adaptiveSerialized :: profile
  adaptiveHighMLP :: profile
  adaptiveControl :: profile
  adaptiveResource :: profile
  adaptiveResourceTight :: profile
  adaptiveResourceTightMaxInflightProxy :: double
  adaptiveResourceTightMinSquashRatio :: double
  adaptiveMemBlockRatioThres :: double
  adaptiveOutstandingMissThres :: double
  adaptiveHighMLPMaxInflightProxy :: double
  adaptiveBranchRecoveryRatioThres :: double
  adaptiveSquashRatioThres :: double
  adaptiveIQSaturationRatioThres :: double
  adaptiveCommitActivityRatioThres :: double
  adaptiveSerializedTightSquashThres :: double
  adaptiveSerializedTightFetch :: unsigned
  adaptiveSerializedTightInflightCap :: unsigned
  adaptiveSquashProportionalFW :: unsigned
  adaptiveAggressiveFetchLimit :: unsigned
  adaptiveWindowAutoSize :: bool
  adaptiveWindowMin :: unsigned
  adaptiveWindowMax :: unsigned
  adaptiveResourceCongestionCommitThres :: double
  adaptiveResourceCongestionInflightCap :: unsigned
  adaptiveResourceCongestionIQCap :: unsigned
  adaptiveResourceCongestionLSQCap :: unsigned

text \<open>The member \<open>adaptiveWindowCheckInterval\<close> has the initialiser 8 and is never assigned.\<close>

definition adaptiveWindowCheckInterval :: unsigned where
  "adaptiveWindowCheckInterval = 8"

text \<open>
  One row of \<open>adaptive_window_log.csv\<close>, in the order of its columns.
\<close>

record log_row =
  row_window_id :: uint64
  row_cycles :: uint64
  row_class :: string
  row_target_mode :: string
  row_applied_mode :: string
  row_resource_profile_level :: string
  row_switched :: bool
  row_counters :: "uint64 list"
  row_ratios :: "double list"

record adaptive_state =
  adaptiveWindowCycles :: unsigned
  adaptiveWindowId :: uint64
  adaptiveWindowsInMode :: uint64
  adaptivePendingClassCount :: uint64
  adaptiveCurrentClass :: AdaptiveClass
  adaptivePendingClass :: AdaptiveClass
  adaptiveCurrentMode :: AdaptiveMode
  adaptiveCurrentResourceTight :: bool
  adaptiveCurrentSerializedTight :: bool
  adaptiveCurrentSquashRatio :: double
  adaptiveWindowStats :: AdaptiveWindowStats
  adaptiveWindowCheckCount :: unsigned
  adaptiveClassChangeCount :: unsigned
  adaptivePrevWindowClass :: AdaptiveClass
  adaptiveDecoupledOutstandingMisses :: double
  adaptiveDecoupledMemBlockRatio :: double
  adaptiveCurrentResourceCongested :: bool
  adaptiveWindowLog :: "log_row list"

text \<open>The state the constructor leaves; the argument is \<open>params.adaptiveWindowCycles\<close>.\<close>

definition adaptive_init :: "unsigned \<Rightarrow> adaptive_state" where
  "adaptive_init window_cycles =
    \<lparr>adaptiveWindowCycles = window_cycles,
     adaptiveWindowId = 0, adaptiveWindowsInMode = 0, adaptivePendingClassCount = 0,
     adaptiveCurrentClass = ResourceContentionDominated,
     adaptivePendingClass = ResourceContentionDominated,
     adaptiveCurrentMode = Aggressive,
     adaptiveCurrentResourceTight = False,
     adaptiveCurrentSerializedTight = False,
     adaptiveCurrentSquashRatio = 0,
     adaptiveWindowStats = empty_window,
     adaptiveWindowCheckCount = 0, adaptiveClassChangeCount = 0,
     adaptivePrevWindowClass = ResourceContentionDominated,
     adaptiveDecoupledOutstandingMisses = 0, adaptiveDecoupledMemBlockRatio = 0,
     adaptiveCurrentResourceCongested = False,
     adaptiveWindowLog = []\<rparr>"

text \<open>
  The signals of one cycle for thread 0: the ROB, IQ and LSQ occupancies,
  \<open>instQueue.isFull(0)\<close>, \<open>commit.isSquashing(0)\<close>, \<open>rob.isHeadReady(0)\<close>, and the three
  disjuncts of \<open>mem_backpressured\<close>.
\<close>

record cycle_signals =
  rob_occupancy :: unsigned
  iq_occupancy :: unsigned
  lsq_occupancy :: unsigned
  iq_full :: bool
  commit_squashing :: bool
  rob_head_ready :: bool
  lsq_stalled :: bool
  lsq_stores_to_wb :: bool
  lsq_cache_blocked :: bool

subsection \<open>Limits\<close>

text \<open>\<open>std::numeric_limits<unsigned>::max()\<close>\<close>

definition unsigned_max :: unsigned where
  "unsigned_max = - 1"

definition adaptiveFetchWidthFromParam :: "adaptive_config \<Rightarrow> unsigned \<Rightarrow> unsigned" where
  "adaptiveFetchWidthFromParam c param =
    (if param = 0 then adaptiveAggressiveFetch c
     else max 1 (min (adaptiveAggressiveFetch c) param))"

definition adaptiveInflightCapFromParam :: "unsigned \<Rightarrow> unsigned" where
  "adaptiveInflightCapFromParam param = (if param = 0 then unsigned_max else param)"

definition adaptiveEffectiveInflightCap :: "adaptive_config \<Rightarrow> adaptive_state \<Rightarrow> unsigned" where
  "adaptiveEffectiveInflightCap c s =
    (case adaptiveCurrentMode s of
       SerializedProfile \<Rightarrow> adaptiveInflightCapFromParam (InflightCap (adaptiveSerialized c))
     | HighMLPProfile \<Rightarrow> adaptiveInflightCapFromParam (InflightCap (adaptiveHighMLP c))
     | ControlProfile \<Rightarrow> adaptiveInflightCapFromParam (InflightCap (adaptiveControl c))
     | ResourceProfile \<Rightarrow>
         if adaptiveCurrentResourceTight s
         then adaptiveInflightCapFromParam (InflightCap (adaptiveResourceTight c))
         else adaptiveInflightCapFromParam (InflightCap (adaptiveResource c))
     | Conservative \<Rightarrow>
         if adaptiveCurrentSerializedTight s
         then adaptiveInflightCapFromParam (adaptiveSerializedTightInflightCap c)
         else adaptiveInflightCapFromParam (InflightCap (adaptiveConservative c))
     | Aggressive \<Rightarrow>
         if adaptiveCurrentResourceCongested s
         then adaptiveInflightCapFromParam (adaptiveResourceCongestionInflightCap c)
         else unsigned_max)"

definition adaptiveEffectiveRenameWidthLimit ::
    "adaptive_config \<Rightarrow> adaptive_state \<Rightarrow> unsigned" where
  "adaptiveEffectiveRenameWidthLimit c s =
    (case adaptiveCurrentMode s of
       SerializedProfile \<Rightarrow> RenameWidth (adaptiveSerialized c)
     | HighMLPProfile \<Rightarrow> RenameWidth (adaptiveHighMLP c)
     | ControlProfile \<Rightarrow> RenameWidth (adaptiveControl c)
     | ResourceProfile \<Rightarrow>
         if adaptiveCurrentResourceTight s then RenameWidth (adaptiveResourceTight c)
         else RenameWidth (adaptiveResource c)
     | Conservative \<Rightarrow> RenameWidth (adaptiveConservative c)
     | Aggressive \<Rightarrow> 0)"

definition adaptiveEffectiveDispatchWidthLimit ::
    "adaptive_config \<Rightarrow> adaptive_state \<Rightarrow> unsigned" where
  "adaptiveEffectiveDispatchWidthLimit c s =
    (case adaptiveCurrentMode s of
       SerializedProfile \<Rightarrow> DispatchWidth (adaptiveSerialized c)
     | HighMLPProfile \<Rightarrow> DispatchWidth (adaptiveHighMLP c)
     | ControlProfile \<Rightarrow> DispatchWidth (adaptiveControl c)
     | ResourceProfile \<Rightarrow>
         if adaptiveCurrentResourceTight s then DispatchWidth (adaptiveResourceTight c)
         else DispatchWidth (adaptiveResource c)
     | Conservative \<Rightarrow> DispatchWidth (adaptiveConservative c)
     | Aggressive \<Rightarrow> 0)"

text \<open>
  The ladder of the squash-proportional fetch width; a literal such as \<open>0.15\<close> is the double
  nearest to it.
\<close>

definition squash_proportional_fw :: "double \<Rightarrow> unsigned" where
  "squash_proportional_fw sq =
    (if sq < fl (15 / 100) then 7
     else if sq < fl (25 / 100) then 6
     else if sq < fl (35 / 100) then 5
     else if sq < fl (45 / 100) then 4
     else 3)"

definition adaptiveFetchWidth :: "adaptive_config \<Rightarrow> adaptive_state \<Rightarrow> unsigned" where
  "adaptiveFetchWidth c s =
    (if \<not> adaptiveEnable c then adaptiveAggressiveFetch c
     else case adaptiveCurrentMode s of
       SerializedProfile \<Rightarrow> adaptiveFetchWidthFromParam c (FetchWidth (adaptiveSerialized c))
     | HighMLPProfile \<Rightarrow> adaptiveFetchWidthFromParam c (FetchWidth (adaptiveHighMLP c))
     | ControlProfile \<Rightarrow> adaptiveFetchWidthFromParam c (FetchWidth (adaptiveControl c))
     | ResourceProfile \<Rightarrow>
         if adaptiveCurrentResourceTight s
         then adaptiveFetchWidthFromParam c (FetchWidth (adaptiveResourceTight c))
         else adaptiveFetchWidthFromParam c (FetchWidth (adaptiveResource c))
     | Conservative \<Rightarrow>
         if 0 < adaptiveSquashProportionalFW c
         then squash_proportional_fw (adaptiveCurrentSquashRatio s)
         else if adaptiveCurrentSerializedTight s
         then adaptiveFetchWidthFromParam c (adaptiveSerializedTightFetch c)
         else adaptiveFetchWidthFromParam c (FetchWidth (adaptiveConservative c))
     | Aggressive \<Rightarrow>
         if 0 < adaptiveAggressiveFetchLimit c
            \<and> adaptiveAggressiveFetchLimit c < adaptiveAggressiveFetch c
         then adaptiveAggressiveFetchLimit c
         else adaptiveAggressiveFetch c)"

definition adaptiveRenameWidth ::
    "adaptive_config \<Rightarrow> adaptive_state \<Rightarrow> unsigned \<Rightarrow> unsigned" where
  "adaptiveRenameWidth c s base_width =
    (if \<not> adaptiveEnable c then base_width
     else let lim = adaptiveEffectiveRenameWidthLimit c s in
       if lim = 0 then base_width else max 1 (min base_width lim))"

definition adaptiveDispatchWidth ::
    "adaptive_config \<Rightarrow> adaptive_state \<Rightarrow> unsigned \<Rightarrow> unsigned" where
  "adaptiveDispatchWidth c s base_width =
    (if \<not> adaptiveEnable c then base_width
     else let lim = adaptiveEffectiveDispatchWidthLimit c s in
       if lim = 0 then base_width else max 1 (min base_width lim))"

definition adaptiveShouldThrottleFetch ::
    "adaptive_config \<Rightarrow> adaptive_state \<Rightarrow> cycle_signals \<Rightarrow> bool" where
  "adaptiveShouldThrottleFetch c s sig =
    (if \<not> adaptiveEnable c then False
     else if numThreads c = 0 then False
     else if adaptiveEffectiveInflightCap c s \<le> rob_occupancy sig then True
     else let (iq_cap, lsq_cap) =
         (if adaptiveCurrentMode s = Conservative
          then (adaptiveConservativeIQCap c, adaptiveConservativeLSQCap c)
          else if adaptiveCurrentResourceCongested s
          then (adaptiveResourceCongestionIQCap c, adaptiveResourceCongestionLSQCap c)
          else (0, 0))
       in if 0 < iq_cap \<and> iq_cap \<le> iq_occupancy sig then True
          else if 0 < lsq_cap \<and> lsq_cap \<le> lsq_occupancy sig then True
          else False)"

text \<open>The counting hooks of fetch and commit.\<close>

definition adaptiveNoteFetchedInst ::
    "adaptive_config \<Rightarrow> uint64 \<Rightarrow> adaptive_state \<Rightarrow> adaptive_state" where
  "adaptiveNoteFetchedInst c count s =
    (if adaptiveEnable c
     then s\<lparr>adaptiveWindowStats := (adaptiveWindowStats s)
              \<lparr>fetchedInsts := fetchedInsts (adaptiveWindowStats s) + count\<rparr>\<rparr>
     else s)"

definition adaptiveNoteCommittedInst ::
    "adaptive_config \<Rightarrow> uint64 \<Rightarrow> adaptive_state \<Rightarrow> adaptive_state" where
  "adaptiveNoteCommittedInst c count s =
    (if adaptiveEnable c
     then s\<lparr>adaptiveWindowStats := (adaptiveWindowStats s)
              \<lparr>committedInsts := committedInsts (adaptiveWindowStats s) + count\<rparr>\<rparr>
     else s)"

definition adaptiveNoteSquashedInst ::
    "adaptive_config \<Rightarrow> uint64 \<Rightarrow> adaptive_state \<Rightarrow> adaptive_state" where
  "adaptiveNoteSquashedInst c count s =
    (if adaptiveEnable c
     then s\<lparr>adaptiveWindowStats := (adaptiveWindowStats s)
              \<lparr>squashedInsts := squashedInsts (adaptiveWindowStats s) + count\<rparr>\<rparr>
     else s)"

definition adaptiveNoteBranchMispredict ::
    "adaptive_config \<Rightarrow> uint64 \<Rightarrow> adaptive_state \<Rightarrow> adaptive_state" where
  "adaptiveNoteBranchMispredict c count s =
    (if adaptiveEnable c
     then s\<lparr>adaptiveWindowStats := (adaptiveWindowStats s)
              \<lparr>branchMispredictEvents := branchMispredictEvents (adaptiveWindowStats s) + count\<rparr>\<rparr>
     else s)"

end
