(* ===== verification/AdaptiveWindow.thy ===== *)
theory AdaptiveWindow
  imports AdaptiveLimits
begin

text \<open>
  The stall-adaptive controller, second part (\<open>src/cpu/o3/cpu.cc\<close>, lines 80-88, 451-510 and
  753-1146): sampling one cycle, classifying a window, switching modes and closing a window.
  \<open>adaptiveAdvanceWindow\<close> is the composition of the phases of the C++ function, each its own
  definition in the order of the code: \<open>adaptiveDecoupleSignals\<close>, \<open>adaptiveClassifyWindow\<close>
  with \<open>adaptiveMapClassToMode\<close>, \<open>adaptiveMaybeSwitch\<close>, \<open>adaptiveSetSubLevels\<close>,
  \<open>adaptiveEmitWindowLog\<close>, \<open>adaptiveAutoSizeWindow\<close>, and the reset of the counters.
  \<open>adaptive_tick\<close> is what one \<open>CPU::tick\<close> does to the controller: the stages' counting
  hooks, then the sampling and the window step.
\<close>

definition safeRatio :: "uint64 \<Rightarrow> uint64 \<Rightarrow> double" where
  "safeRatio numerator denominator =
    (if denominator = 0 then 0 else fdiv (double_of numerator) (double_of denominator))"

text \<open>\<open>static_cast<double>(x) / cycles\<close> with \<open>cycles\<close> the double of \<open>std::max(window.cycles, 1)\<close>.\<close>

definition per_cycle :: "uint64 \<Rightarrow> AdaptiveWindowStats \<Rightarrow> double" where
  "per_cycle x w = fdiv (double_of x) (double_of (max (cycles w) 1))"

definition squash_ratio :: "AdaptiveWindowStats \<Rightarrow> double" where
  "squash_ratio w = safeRatio (squashedInsts w) (max (fetchedInsts w) 1)"

definition commit_activity_ratio :: "AdaptiveWindowStats \<Rightarrow> double" where
  "commit_activity_ratio w = safeRatio (committedInsts w) (max (fetchedInsts w) 1)"

definition mem_block_ratio_raw :: "AdaptiveWindowStats \<Rightarrow> double" where
  "mem_block_ratio_raw w = safeRatio (commitBlockedMemCycles w) (cycles w)"

definition avg_outstanding_misses_raw :: "AdaptiveWindowStats \<Rightarrow> double" where
  "avg_outstanding_misses_raw w = per_cycle (outstandingMissSamples w) w"

definition adaptiveRecordCycleSignals ::
    "adaptive_config \<Rightarrow> cycle_signals \<Rightarrow> adaptive_state \<Rightarrow> adaptive_state" where
  "adaptiveRecordCycleSignals c sig s =
    (if numThreads c = 0 then s
     else let w = adaptiveWindowStats s;
       head_not_ready = (0 < rob_occupancy sig \<and> \<not> rob_head_ready sig);
       mem_backpressured =
         (lsq_stalled sig \<or> lsq_stores_to_wb sig \<or> lsq_cache_blocked sig)
     in s\<lparr>adaptiveWindowStats := w
       \<lparr>cycles := cycles w + 1,
        inflightInstSamples := inflightInstSamples w + ucast (rob_occupancy sig),
        iqOccupancySamples := iqOccupancySamples w + ucast (iq_occupancy sig),
        outstandingMissSamples := outstandingMissSamples w + ucast (lsq_occupancy sig),
        iqSaturationCycles := (if iq_full sig then iqSaturationCycles w + 1
          else iqSaturationCycles w),
        branchRecoveryCycles := (if commit_squashing sig then branchRecoveryCycles w + 1
          else branchRecoveryCycles w),
        commitBlockedMemCycles := (if head_not_ready \<and> mem_backpressured
          then commitBlockedMemCycles w + 1 else commitBlockedMemCycles w)\<rparr>\<rparr>)"

definition adaptiveClassifyWindow ::
    "adaptive_config \<Rightarrow> adaptive_state \<Rightarrow> AdaptiveWindowStats \<Rightarrow> AdaptiveClass" where
  "adaptiveClassifyWindow c s w =
    (let branch_recovery_ratio = safeRatio (branchRecoveryCycles w) (cycles w);
         iq_saturation_ratio = safeRatio (iqSaturationCycles w) (cycles w);
         avg_inflight_proxy = per_cycle (inflightInstSamples w) w;
         in_aggressive = (adaptiveCurrentMode s = Aggressive);
         mem_block_ratio = (if in_aggressive then mem_block_ratio_raw w
           else adaptiveDecoupledMemBlockRatio s);
         avg_outstanding_misses_proxy = (if in_aggressive then avg_outstanding_misses_raw w
           else adaptiveDecoupledOutstandingMisses s)
     in if adaptiveMemBlockRatioThres c \<le> mem_block_ratio then
          if adaptiveOutstandingMissThres c \<le> avg_outstanding_misses_proxy then
            if adaptiveHighMLPMaxInflightProxy c \<le> 0
               \<or> avg_inflight_proxy \<le> adaptiveHighMLPMaxInflightProxy c
            then HighMLPMemoryDominated
            else ResourceContentionDominated
          else SerializedMemoryDominated
        else if adaptiveBranchRecoveryRatioThres c \<le> branch_recovery_ratio
                \<and> adaptiveSquashRatioThres c \<le> squash_ratio w
        then ControlDominated
        else if adaptiveIQSaturationRatioThres c \<le> iq_saturation_ratio
                \<and> adaptiveCommitActivityRatioThres c \<le> commit_activity_ratio w
        then ResourceContentionDominated
        else ResourceContentionDominated)"

fun adaptiveMapClassToProfile :: "AdaptiveClass \<Rightarrow> AdaptiveMode" where
  "adaptiveMapClassToProfile SerializedMemoryDominated = SerializedProfile"
| "adaptiveMapClassToProfile HighMLPMemoryDominated = HighMLPProfile"
| "adaptiveMapClassToProfile ControlDominated = ControlProfile"
| "adaptiveMapClassToProfile ResourceContentionDominated = ResourceProfile"

definition adaptiveMapClassToMode :: "adaptive_config \<Rightarrow> AdaptiveClass \<Rightarrow> AdaptiveMode" where
  "adaptiveMapClassToMode c cls =
    (if adaptiveUseClassProfiles c then adaptiveMapClassToProfile cls
     else case cls of
       SerializedMemoryDominated \<Rightarrow> Conservative
     | ControlDominated \<Rightarrow> Conservative
     | HighMLPMemoryDominated \<Rightarrow> Aggressive
     | ResourceContentionDominated \<Rightarrow> Aggressive)"

definition adaptiveShouldUseTightResourceProfile ::
    "adaptive_config \<Rightarrow> AdaptiveWindowStats \<Rightarrow> AdaptiveClass \<Rightarrow> bool" where
  "adaptiveShouldUseTightResourceProfile c w cls =
    (if cls \<noteq> ResourceContentionDominated then False
     else let avg_inflight_proxy = per_cycle (inflightInstSamples w) w;
       inflight_arm_enabled = (0 < adaptiveResourceTightMaxInflightProxy c);
       squash_arm_enabled = (0 < adaptiveResourceTightMinSquashRatio c);
       low_inflight_resource = (inflight_arm_enabled
         \<and> avg_inflight_proxy \<le> adaptiveResourceTightMaxInflightProxy c);
       squashy_resource = (squash_arm_enabled
         \<and> adaptiveResourceTightMinSquashRatio c \<le> squash_ratio w)
     in low_inflight_resource \<or> squashy_resource)"

definition adaptiveResourceProfileLevel :: "adaptive_state \<Rightarrow> string" where
  "adaptiveResourceProfileLevel s =
    (if adaptiveCurrentMode s = Aggressive \<and> adaptiveCurrentResourceCongested s
     then ''res-congested''
     else if adaptiveCurrentMode s = ResourceProfile
     then (if adaptiveCurrentResourceTight s then ''tight'' else ''base'')
     else if adaptiveCurrentMode s = Conservative
     then (if adaptiveCurrentSerializedTight s then ''ser-tight'' else ''na'')
     else ''na'')"

fun adaptiveClassName :: "AdaptiveClass \<Rightarrow> string" where
  "adaptiveClassName SerializedMemoryDominated = ''Serialized-memory dominated''"
| "adaptiveClassName HighMLPMemoryDominated = ''High-MLP memory dominated''"
| "adaptiveClassName ControlDominated = ''Control dominated''"
| "adaptiveClassName ResourceContentionDominated = ''Resource-contention / compute dominated''"

fun adaptiveModeName :: "AdaptiveMode \<Rightarrow> string" where
  "adaptiveModeName SerializedProfile = ''serialized-profile''"
| "adaptiveModeName HighMLPProfile = ''high-mlp-profile''"
| "adaptiveModeName ControlProfile = ''control-profile''"
| "adaptiveModeName ResourceProfile = ''resource-profile''"
| "adaptiveModeName Conservative = ''conservative''"
| "adaptiveModeName Aggressive = ''aggressive''"

definition adaptiveMaybeSwitch ::
    "adaptive_config \<Rightarrow> AdaptiveClass \<Rightarrow> AdaptiveMode \<Rightarrow> adaptive_state \<Rightarrow> adaptive_state" where
  "adaptiveMaybeSwitch c new_class target_mode s =
    (let s1 = (if new_class \<noteq> adaptivePendingClass s
           then s\<lparr>adaptivePendingClass := new_class, adaptivePendingClassCount := 1\<rparr>
           else s\<lparr>adaptivePendingClassCount := adaptivePendingClassCount s + 1\<rparr>);
         s2 = s1\<lparr>adaptiveCurrentClass := new_class\<rparr>
     in if target_mode = adaptiveCurrentMode s2
        then s2\<lparr>adaptiveWindowsInMode := adaptiveWindowsInMode s2 + 1\<rparr>
        else let
          hysteresis_ok = (ucast (adaptiveSwitchHysteresis c) \<le> adaptivePendingClassCount s2);
          hold_ok = (ucast (adaptiveMinModeWindows c) \<le> adaptiveWindowsInMode s2)
        in if hysteresis_ok \<and> hold_ok
           then s2\<lparr>adaptiveCurrentMode := target_mode, adaptiveWindowsInMode := 0\<rparr>
           else s2\<lparr>adaptiveWindowsInMode := adaptiveWindowsInMode s2 + 1\<rparr>)"

definition adaptiveEmitWindowLog ::
    "AdaptiveWindowStats \<Rightarrow> AdaptiveClass \<Rightarrow> AdaptiveMode \<Rightarrow> bool \<Rightarrow> adaptive_state \<Rightarrow>
     adaptive_state" where
  "adaptiveEmitWindowLog w cls target_mode switched s =
    s\<lparr>adaptiveWindowLog := adaptiveWindowLog s @
      [\<lparr>row_window_id = adaptiveWindowId s,
        row_cycles = cycles w,
        row_class = adaptiveClassName cls,
        row_target_mode = adaptiveModeName target_mode,
        row_applied_mode = adaptiveModeName (adaptiveCurrentMode s),
        row_resource_profile_level = adaptiveResourceProfileLevel s,
        row_switched = switched,
        row_counters = [fetchedInsts w, committedInsts w, squashedInsts w,
          branchMispredictEvents w, commitBlockedMemCycles w],
        row_ratios = [per_cycle (outstandingMissSamples w) w,
          per_cycle (iqOccupancySamples w) w,
          safeRatio (iqSaturationCycles w) (cycles w),
          safeRatio (branchRecoveryCycles w) (cycles w),
          squash_ratio w, commit_activity_ratio w,
          per_cycle (inflightInstSamples w) w]\<rparr>]\<rparr>"

subsection \<open>Closing a window\<close>

definition adaptiveDecoupleSignals ::
    "AdaptiveWindowStats \<Rightarrow> adaptive_state \<Rightarrow> adaptive_state" where
  "adaptiveDecoupleSignals w s =
    (if adaptiveCurrentMode s = Aggressive \<or> adaptiveWindowId s \<le> 1
     then s\<lparr>adaptiveDecoupledMemBlockRatio := mem_block_ratio_raw w,
            adaptiveDecoupledOutstandingMisses := avg_outstanding_misses_raw w\<rparr>
     else s)"

definition adaptiveSetSubLevels ::
    "adaptive_config \<Rightarrow> AdaptiveWindowStats \<Rightarrow> AdaptiveClass \<Rightarrow> adaptive_state \<Rightarrow>
     adaptive_state" where
  "adaptiveSetSubLevels c w cls s =
    (let throttled_class = (cls = SerializedMemoryDominated \<or> cls = ControlDominated);
         ipc_proxy = fdiv (double_of (committedInsts w)) (double_of (max (cycles w) 1))
     in s\<lparr>adaptiveCurrentResourceTight := adaptiveShouldUseTightResourceProfile c w cls,
          adaptiveCurrentSerializedTight :=
            (throttled_class \<and> 0 < adaptiveSerializedTightSquashThres c
             \<and> adaptiveSerializedTightSquashThres c \<le> squash_ratio w),
          adaptiveCurrentSquashRatio := (if throttled_class then squash_ratio w else 0),
          adaptiveCurrentResourceCongested :=
            (cls = ResourceContentionDominated
             \<and> 0 < adaptiveResourceCongestionCommitThres c
             \<and> commit_activity_ratio w < adaptiveResourceCongestionCommitThres c
             \<and> 2 < ipc_proxy)\<rparr>)"

definition adaptiveAutoSizeWindow ::
    "adaptive_config \<Rightarrow> AdaptiveClass \<Rightarrow> adaptive_state \<Rightarrow> adaptive_state" where
  "adaptiveAutoSizeWindow c cls s =
    (if \<not> adaptiveWindowAutoSize c then s
     else let s1 = s\<lparr>adaptiveClassChangeCount :=
                (if cls \<noteq> adaptivePrevWindowClass s then adaptiveClassChangeCount s + 1
                 else adaptiveClassChangeCount s),
              adaptivePrevWindowClass := cls,
              adaptiveWindowCheckCount := adaptiveWindowCheckCount s + 1\<rparr>
       in if adaptiveWindowCheckInterval \<le> adaptiveWindowCheckCount s1 then
            let change_rate = fdiv (double_of (adaptiveClassChangeCount s1))
                                   (double_of (adaptiveWindowCheckInterval));
                size = adaptiveWindowCycles s1;
                size' = (if fl (3 / 10) < change_rate \<and> adaptiveWindowMin c < size
                    then max (adaptiveWindowMin c) (size div 2)
                    else if change_rate < fl (1 / 10) \<and> size < adaptiveWindowMax c
                    then min (adaptiveWindowMax c) (size * 2)
                    else size)
            in s1\<lparr>adaptiveWindowCycles := size', adaptiveWindowCheckCount := 0,
                  adaptiveClassChangeCount := 0\<rparr>
          else s1)"

definition adaptiveAdvanceWindow :: "adaptive_config \<Rightarrow> adaptive_state \<Rightarrow> adaptive_state" where
  "adaptiveAdvanceWindow c s =
    (if cycles (adaptiveWindowStats s) < ucast (adaptiveWindowCycles s) then s
     else let s1 = s\<lparr>adaptiveWindowId := adaptiveWindowId s + 1\<rparr>;
              w = adaptiveWindowStats s1;
              s2 = adaptiveDecoupleSignals w s1;
              cls = adaptiveClassifyWindow c s2 w;
              target_mode = adaptiveMapClassToMode c cls;
              prev_mode = adaptiveCurrentMode s2;
              s3 = adaptiveMaybeSwitch c cls target_mode s2;
              s4 = adaptiveSetSubLevels c w cls s3;
              s5 = adaptiveEmitWindowLog w cls target_mode
                     (prev_mode \<noteq> adaptiveCurrentMode s4) s4;
              s6 = adaptiveAutoSizeWindow c cls s5
     in s6\<lparr>adaptiveWindowStats := empty_window\<rparr>)"

subsection \<open>One CPU cycle\<close>

datatype note_event =
    NoteFetched uint64
  | NoteCommitted uint64
  | NoteSquashed uint64
  | NoteMispredict uint64

fun adaptive_note :: "adaptive_config \<Rightarrow> note_event \<Rightarrow> adaptive_state \<Rightarrow> adaptive_state" where
  "adaptive_note c (NoteFetched n) s = adaptiveNoteFetchedInst c n s"
| "adaptive_note c (NoteCommitted n) s = adaptiveNoteCommittedInst c n s"
| "adaptive_note c (NoteSquashed n) s = adaptiveNoteSquashedInst c n s"
| "adaptive_note c (NoteMispredict n) s = adaptiveNoteBranchMispredict c n s"

text \<open>
  One \<open>CPU::tick\<close> as the controller sees it: the stages run and call the hooks, then, if the
  controller is enabled, the cycle is sampled and the window may close.
\<close>

definition adaptive_tick ::
    "adaptive_config \<Rightarrow> note_event list \<times> cycle_signals \<Rightarrow> adaptive_state \<Rightarrow> adaptive_state" where
  "adaptive_tick c inp s =
    (let s1 = fold (adaptive_note c) (fst inp) s in
     if adaptiveEnable c
     then adaptiveAdvanceWindow c (adaptiveRecordCycleSignals c (snd inp) s1)
     else s1)"

definition adaptive_run ::
    "adaptive_config \<Rightarrow> (note_event list \<times> cycle_signals) list \<Rightarrow> adaptive_state \<Rightarrow>
     adaptive_state" where
  "adaptive_run c inps s = fold (adaptive_tick c) inps s"

end
