(* ===== verification/AdaptiveProps.thy ===== *)
theory AdaptiveProps
  imports AdaptiveWindow
begin

text \<open>
  Properties of the stall-adaptive controller: the frame lemmas of its phases, the bounds on
  the limits it hands to the stages, the reachable-state invariant of the window counters, the
  hysteresis contract read off the window log, the window-size bounds, and the behaviour of
  the frozen ("decoupled") signals.
\<close>

subsection \<open>Frames of the phases\<close>

lemma record_frame [simp]:
  "adaptiveCurrentMode (adaptiveRecordCycleSignals c sig s) = adaptiveCurrentMode s"
  "adaptiveWindowId (adaptiveRecordCycleSignals c sig s) = adaptiveWindowId s"
  "adaptiveWindowsInMode (adaptiveRecordCycleSignals c sig s) = adaptiveWindowsInMode s"
  "adaptivePendingClass (adaptiveRecordCycleSignals c sig s) = adaptivePendingClass s"
  "adaptivePendingClassCount (adaptiveRecordCycleSignals c sig s) = adaptivePendingClassCount s"
  "adaptiveWindowLog (adaptiveRecordCycleSignals c sig s) = adaptiveWindowLog s"
  "adaptiveWindowCycles (adaptiveRecordCycleSignals c sig s) = adaptiveWindowCycles s"
  "adaptiveCurrentClass (adaptiveRecordCycleSignals c sig s) = adaptiveCurrentClass s"
  "adaptiveDecoupledMemBlockRatio (adaptiveRecordCycleSignals c sig s) = adaptiveDecoupledMemBlockRatio s"
  "adaptiveDecoupledOutstandingMisses (adaptiveRecordCycleSignals c sig s)
    = adaptiveDecoupledOutstandingMisses s"
  by (simp_all add: adaptiveRecordCycleSignals_def Let_def)

lemma decouple_frame [simp]:
  "adaptiveCurrentMode (adaptiveDecoupleSignals w s) = adaptiveCurrentMode s"
  "adaptiveWindowId (adaptiveDecoupleSignals w s) = adaptiveWindowId s"
  "adaptiveWindowsInMode (adaptiveDecoupleSignals w s) = adaptiveWindowsInMode s"
  "adaptivePendingClass (adaptiveDecoupleSignals w s) = adaptivePendingClass s"
  "adaptivePendingClassCount (adaptiveDecoupleSignals w s) = adaptivePendingClassCount s"
  "adaptiveWindowLog (adaptiveDecoupleSignals w s) = adaptiveWindowLog s"
  "adaptiveWindowCycles (adaptiveDecoupleSignals w s) = adaptiveWindowCycles s"
  by (simp_all add: adaptiveDecoupleSignals_def)

lemma switch_frame [simp]:
  "adaptiveWindowId (adaptiveMaybeSwitch c cls m s) = adaptiveWindowId s"
  "adaptiveWindowLog (adaptiveMaybeSwitch c cls m s) = adaptiveWindowLog s"
  "adaptiveWindowCycles (adaptiveMaybeSwitch c cls m s) = adaptiveWindowCycles s"
  "adaptiveCurrentClass (adaptiveMaybeSwitch c cls m s) = cls"
  "adaptivePendingClass (adaptiveMaybeSwitch c cls m s) = cls"
  "adaptiveDecoupledMemBlockRatio (adaptiveMaybeSwitch c cls m s) = adaptiveDecoupledMemBlockRatio s"
  "adaptiveDecoupledOutstandingMisses (adaptiveMaybeSwitch c cls m s)
    = adaptiveDecoupledOutstandingMisses s"
  by (simp_all add: adaptiveMaybeSwitch_def Let_def)

lemma sublevels_frame [simp]:
  "adaptiveCurrentMode (adaptiveSetSubLevels c w cls s) = adaptiveCurrentMode s"
  "adaptiveWindowId (adaptiveSetSubLevels c w cls s) = adaptiveWindowId s"
  "adaptiveWindowsInMode (adaptiveSetSubLevels c w cls s) = adaptiveWindowsInMode s"
  "adaptivePendingClass (adaptiveSetSubLevels c w cls s) = adaptivePendingClass s"
  "adaptivePendingClassCount (adaptiveSetSubLevels c w cls s) = adaptivePendingClassCount s"
  "adaptiveCurrentClass (adaptiveSetSubLevels c w cls s) = adaptiveCurrentClass s"
  "adaptiveWindowLog (adaptiveSetSubLevels c w cls s) = adaptiveWindowLog s"
  "adaptiveWindowCycles (adaptiveSetSubLevels c w cls s) = adaptiveWindowCycles s"
  "adaptiveDecoupledMemBlockRatio (adaptiveSetSubLevels c w cls s) = adaptiveDecoupledMemBlockRatio s"
  "adaptiveDecoupledOutstandingMisses (adaptiveSetSubLevels c w cls s)
    = adaptiveDecoupledOutstandingMisses s"
  by (simp_all add: adaptiveSetSubLevels_def Let_def)

lemma emit_frame [simp]:
  "adaptiveCurrentMode (adaptiveEmitWindowLog w cls m b s) = adaptiveCurrentMode s"
  "adaptiveWindowId (adaptiveEmitWindowLog w cls m b s) = adaptiveWindowId s"
  "adaptiveWindowsInMode (adaptiveEmitWindowLog w cls m b s) = adaptiveWindowsInMode s"
  "adaptivePendingClass (adaptiveEmitWindowLog w cls m b s) = adaptivePendingClass s"
  "adaptivePendingClassCount (adaptiveEmitWindowLog w cls m b s) = adaptivePendingClassCount s"
  "adaptiveCurrentClass (adaptiveEmitWindowLog w cls m b s) = adaptiveCurrentClass s"
  "adaptiveWindowCycles (adaptiveEmitWindowLog w cls m b s) = adaptiveWindowCycles s"
  "adaptiveDecoupledMemBlockRatio (adaptiveEmitWindowLog w cls m b s) = adaptiveDecoupledMemBlockRatio s"
  "adaptiveDecoupledOutstandingMisses (adaptiveEmitWindowLog w cls m b s)
    = adaptiveDecoupledOutstandingMisses s"
  by (simp_all add: adaptiveEmitWindowLog_def)

lemma autosize_frame [simp]:
  "adaptiveCurrentMode (adaptiveAutoSizeWindow c cls s) = adaptiveCurrentMode s"
  "adaptiveWindowId (adaptiveAutoSizeWindow c cls s) = adaptiveWindowId s"
  "adaptiveWindowsInMode (adaptiveAutoSizeWindow c cls s) = adaptiveWindowsInMode s"
  "adaptivePendingClass (adaptiveAutoSizeWindow c cls s) = adaptivePendingClass s"
  "adaptivePendingClassCount (adaptiveAutoSizeWindow c cls s) = adaptivePendingClassCount s"
  "adaptiveCurrentClass (adaptiveAutoSizeWindow c cls s) = adaptiveCurrentClass s"
  "adaptiveWindowLog (adaptiveAutoSizeWindow c cls s) = adaptiveWindowLog s"
  "adaptiveDecoupledMemBlockRatio (adaptiveAutoSizeWindow c cls s) = adaptiveDecoupledMemBlockRatio s"
  "adaptiveDecoupledOutstandingMisses (adaptiveAutoSizeWindow c cls s)
    = adaptiveDecoupledOutstandingMisses s"
  by (simp_all add: adaptiveAutoSizeWindow_def Let_def)

lemma note_frame [simp]:
  "adaptiveCurrentMode (adaptive_note c e s) = adaptiveCurrentMode s"
  "adaptiveWindowId (adaptive_note c e s) = adaptiveWindowId s"
  "adaptiveWindowsInMode (adaptive_note c e s) = adaptiveWindowsInMode s"
  "adaptivePendingClass (adaptive_note c e s) = adaptivePendingClass s"
  "adaptivePendingClassCount (adaptive_note c e s) = adaptivePendingClassCount s"
  "adaptiveCurrentClass (adaptive_note c e s) = adaptiveCurrentClass s"
  "adaptiveWindowLog (adaptive_note c e s) = adaptiveWindowLog s"
  "adaptiveWindowCycles (adaptive_note c e s) = adaptiveWindowCycles s"
  "adaptiveDecoupledMemBlockRatio (adaptive_note c e s) = adaptiveDecoupledMemBlockRatio s"
  "adaptiveDecoupledOutstandingMisses (adaptive_note c e s) = adaptiveDecoupledOutstandingMisses s"
  by (cases e; simp add: adaptiveNoteFetchedInst_def adaptiveNoteCommittedInst_def
      adaptiveNoteSquashedInst_def adaptiveNoteBranchMispredict_def)+

text \<open>A field no hook writes is kept by all the hook calls of a cycle.\<close>

lemma notes_frame:
  assumes "\<And>e s. f (adaptive_note c e s) = f s"
  shows "f (fold (adaptive_note c) es s) = f s"
  by (induction es arbitrary: s) (simp_all add: assms)

lemmas notes_frames [simp] =
  notes_frame [of adaptiveCurrentMode] notes_frame [of adaptiveWindowId]
  notes_frame [of adaptiveWindowsInMode] notes_frame [of adaptivePendingClass]
  notes_frame [of adaptivePendingClassCount] notes_frame [of adaptiveCurrentClass]
  notes_frame [of adaptiveWindowLog] notes_frame [of adaptiveWindowCycles]
  notes_frame [of adaptiveDecoupledMemBlockRatio]
  notes_frame [of adaptiveDecoupledOutstandingMisses]

subsection \<open>The effect of closing a window\<close>

definition new_pending_count :: "AdaptiveClass \<Rightarrow> adaptive_state \<Rightarrow> uint64" where
  "new_pending_count cls s =
    (if cls = adaptivePendingClass s then adaptivePendingClassCount s + 1 else 1)"

definition switch_allowed :: "adaptive_config \<Rightarrow> AdaptiveClass \<Rightarrow> adaptive_state \<Rightarrow> bool" where
  "switch_allowed c cls s \<longleftrightarrow>
    adaptiveMapClassToMode c cls \<noteq> adaptiveCurrentMode s
    \<and> ucast (adaptiveSwitchHysteresis c) \<le> new_pending_count cls s
    \<and> ucast (adaptiveMinModeWindows c) \<le> adaptiveWindowsInMode s"

lemma switch_effect:
  fixes c :: adaptive_config and cls :: AdaptiveClass and s :: adaptive_state
  defines "t \<equiv> adaptiveMaybeSwitch c cls (adaptiveMapClassToMode c cls) s"
  shows "adaptivePendingClassCount t = new_pending_count cls s"
    and "adaptiveCurrentMode t =
      (if switch_allowed c cls s then adaptiveMapClassToMode c cls else adaptiveCurrentMode s)"
    and "adaptiveWindowsInMode t =
      (if switch_allowed c cls s then 0 else adaptiveWindowsInMode s + 1)"
  by (simp_all add: t_def adaptiveMaybeSwitch_def switch_allowed_def new_pending_count_def Let_def)

text \<open>The state the classifier sees when the window closes, and the class it decides.\<close>

definition pre_classify :: "adaptive_state \<Rightarrow> adaptive_state" where
  "pre_classify s = adaptiveDecoupleSignals (adaptiveWindowStats s)
     (s\<lparr>adaptiveWindowId := adaptiveWindowId s + 1\<rparr>)"

definition closing_class :: "adaptive_config \<Rightarrow> adaptive_state \<Rightarrow> AdaptiveClass" where
  "closing_class c s = adaptiveClassifyWindow c (pre_classify s) (adaptiveWindowStats s)"

definition window_closes :: "adaptive_state \<Rightarrow> bool" where
  "window_closes s \<longleftrightarrow> ucast (adaptiveWindowCycles s) \<le> cycles (adaptiveWindowStats s)"

lemma advance_open: "\<not> window_closes s \<Longrightarrow> adaptiveAdvanceWindow c s = s"
  by (simp add: adaptiveAdvanceWindow_def window_closes_def not_le)

lemma pre_classify_frame [simp]:
  "adaptiveCurrentMode (pre_classify s) = adaptiveCurrentMode s"
  "adaptiveWindowsInMode (pre_classify s) = adaptiveWindowsInMode s"
  "adaptivePendingClass (pre_classify s) = adaptivePendingClass s"
  "adaptivePendingClassCount (pre_classify s) = adaptivePendingClassCount s"
  "adaptiveWindowLog (pre_classify s) = adaptiveWindowLog s"
  "adaptiveWindowCycles (pre_classify s) = adaptiveWindowCycles s"
  "adaptiveWindowId (pre_classify s) = adaptiveWindowId s + 1"
  "new_pending_count cls (pre_classify s) = new_pending_count cls s"
  "switch_allowed c cls (pre_classify s) = switch_allowed c cls s"
  by (simp_all add: pre_classify_def new_pending_count_def switch_allowed_def)

text \<open>The phases of a closing window, over \<open>pre_classify\<close> and \<open>closing_class\<close>.\<close>

definition switched_state :: "adaptive_config \<Rightarrow> adaptive_state \<Rightarrow> adaptive_state" where
  "switched_state c s =
    (let cls = closing_class c s
     in adaptiveSetSubLevels c (adaptiveWindowStats s) cls
          (adaptiveMaybeSwitch c cls (adaptiveMapClassToMode c cls) (pre_classify s)))"

lemma advance_unfold:
  assumes "window_closes s"
  shows "adaptiveAdvanceWindow c s =
    (adaptiveAutoSizeWindow c (closing_class c s)
      (adaptiveEmitWindowLog (adaptiveWindowStats s) (closing_class c s)
        (adaptiveMapClassToMode c (closing_class c s))
        (adaptiveCurrentMode s \<noteq> adaptiveCurrentMode (switched_state c s))
        (switched_state c s)))\<lparr>adaptiveWindowStats := empty_window\<rparr>"
proof -
  have "\<not> cycles (adaptiveWindowStats s) < ucast (adaptiveWindowCycles s)"
    using assms by (simp only: window_closes_def linorder_not_less)
  then show ?thesis
    unfolding adaptiveAdvanceWindow_def
    by (simp only: if_False) (simp add: Let_def switched_state_def closing_class_def pre_classify_def)
qed

lemma switched_state_effect [simp]:
  "adaptiveWindowId (switched_state c s) = adaptiveWindowId s + 1"
  "adaptivePendingClass (switched_state c s) = closing_class c s"
  "adaptiveCurrentClass (switched_state c s) = closing_class c s"
  "adaptivePendingClassCount (switched_state c s) = new_pending_count (closing_class c s) s"
  "adaptiveCurrentMode (switched_state c s) =
    (if switch_allowed c (closing_class c s) s then adaptiveMapClassToMode c (closing_class c s)
     else adaptiveCurrentMode s)"
  "adaptiveWindowsInMode (switched_state c s) =
    (if switch_allowed c (closing_class c s) s then 0 else adaptiveWindowsInMode s + 1)"
  "adaptiveWindowLog (switched_state c s) = adaptiveWindowLog s"
  "adaptiveWindowCycles (switched_state c s) = adaptiveWindowCycles s"
  "adaptiveDecoupledMemBlockRatio (switched_state c s) = adaptiveDecoupledMemBlockRatio (pre_classify s)"
  "adaptiveDecoupledOutstandingMisses (switched_state c s)
    = adaptiveDecoupledOutstandingMisses (pre_classify s)"
  by (simp_all add: switched_state_def Let_def switch_effect)

lemma advance_closed:
  fixes c :: adaptive_config
  assumes "window_closes s"
  defines "t \<equiv> adaptiveAdvanceWindow c s" and "cls \<equiv> closing_class c s"
  shows "adaptiveWindowStats t = empty_window"
    and "adaptiveWindowId t = adaptiveWindowId s + 1"
    and "adaptivePendingClass t = cls"
    and "adaptiveCurrentClass t = cls"
    and "adaptivePendingClassCount t = new_pending_count cls s"
    and "adaptiveCurrentMode t =
      (if switch_allowed c cls s then adaptiveMapClassToMode c cls else adaptiveCurrentMode s)"
    and "adaptiveWindowsInMode t =
      (if switch_allowed c cls s then 0 else adaptiveWindowsInMode s + 1)"
    and "adaptiveDecoupledMemBlockRatio t = adaptiveDecoupledMemBlockRatio (pre_classify s)"
    and "adaptiveDecoupledOutstandingMisses t = adaptiveDecoupledOutstandingMisses (pre_classify s)"
  by (simp_all add: t_def cls_def advance_unfold [OF assms(1)])

lemma switch_changes_mode:
  "switch_allowed c cls s \<Longrightarrow> adaptiveMapClassToMode c cls \<noteq> adaptiveCurrentMode s"
  by (simp add: switch_allowed_def)

lemma advance_log:
  fixes c :: adaptive_config
  assumes "window_closes s"
  shows "\<exists>r. adaptiveWindowLog (adaptiveAdvanceWindow c s) = adaptiveWindowLog s @ [r]
    \<and> row_class r = adaptiveClassName (closing_class c s)
    \<and> row_switched r = switch_allowed c (closing_class c s) s
    \<and> row_window_id r = adaptiveWindowId s + 1
    \<and> row_cycles r = cycles (adaptiveWindowStats s)
    \<and> row_counters r ! 4 = commitBlockedMemCycles (adaptiveWindowStats s)
    \<and> row_ratios r ! 2 = safeRatio (iqSaturationCycles (adaptiveWindowStats s)) (cycles (adaptiveWindowStats s))
    \<and> row_ratios r ! 3 = safeRatio (branchRecoveryCycles (adaptiveWindowStats s)) (cycles (adaptiveWindowStats s))"
  using switch_changes_mode [of c "closing_class c s" s]
  by (simp add: advance_unfold [OF assms(1)] adaptiveEmitWindowLog_def eq_commute)

lemma className_inj: "adaptiveClassName a = adaptiveClassName b \<longleftrightarrow> a = b"
  by (cases a; cases b) auto

subsection \<open>Reachable controller states\<close>

inductive adaptive_reachable :: "adaptive_config \<Rightarrow> unsigned \<Rightarrow> adaptive_state \<Rightarrow> bool"
  for c :: adaptive_config and w :: unsigned where
  init: "adaptive_reachable c w (adaptive_init w)"
| tick: "adaptive_reachable c w s \<Longrightarrow> adaptive_reachable c w (adaptive_tick c inp s)"

lemma reachable_run: "adaptive_reachable c w s \<Longrightarrow> adaptive_reachable c w (adaptive_run c inps s)"
  by (induction inps arbitrary: s) (auto simp: adaptive_run_def intro: adaptive_reachable.tick)

text \<open>
  A property of controller states that the hooks and the sampling keep, and that closing a
  window keeps, holds after every tick.
\<close>

lemma tick_inv:
  assumes "P s"
    and hook: "\<And>e s. P s \<Longrightarrow> P (adaptive_note c e s)"
    and sample: "\<And>sig s. adaptiveEnable c \<Longrightarrow> P s \<Longrightarrow> Q (adaptiveRecordCycleSignals c sig s)"
    and opn: "\<And>s. Q s \<Longrightarrow> \<not> window_closes s \<Longrightarrow> P s"
    and cls: "\<And>s. Q s \<Longrightarrow> window_closes s \<Longrightarrow> P (adaptiveAdvanceWindow c s)"
  shows "P (adaptive_tick c inp s)"
proof -
  have hooks: "P (fold (adaptive_note c) es s)" for es
    using \<open>P s\<close> by (induction es arbitrary: s) (auto intro: hook)
  have "P (adaptiveAdvanceWindow c t)" if "Q t" for t
    using that opn [of t] cls [of t] by (cases "window_closes t") (simp_all add: advance_open)
  with hooks sample show ?thesis by (simp add: adaptive_tick_def Let_def)
qed

subsection \<open>Hysteresis\<close>

definition log_hysteresis_ok :: "adaptive_config \<Rightarrow> log_row list \<Rightarrow> bool" where
  "log_hysteresis_ok c rows \<longleftrightarrow>
    (\<forall>i < length rows. row_switched (rows ! i) \<longrightarrow>
      unat (adaptiveSwitchHysteresis c)
        \<le> suffix_run (\<lambda>r. row_class r = row_class (rows ! i)) (take (Suc i) rows)
      \<and> unat (adaptiveMinModeWindows c) \<le> suffix_run (\<lambda>r. \<not> row_switched r) (take i rows))"

lemma log_hysteresis_ok_snoc:
  "log_hysteresis_ok c (rows @ [r]) \<longleftrightarrow>
    log_hysteresis_ok c rows \<and>
    (row_switched r \<longrightarrow>
      unat (adaptiveSwitchHysteresis c)
        \<le> suffix_run (\<lambda>r'. row_class r' = row_class r) (rows @ [r])
      \<and> unat (adaptiveMinModeWindows c) \<le> suffix_run (\<lambda>r. \<not> row_switched r) rows)"
  by (auto simp: log_hysteresis_ok_def nth_append less_Suc_eq all_conj_distrib)

definition hysteresis_inv :: "adaptive_config \<Rightarrow> adaptive_state \<Rightarrow> bool" where
  "hysteresis_inv c s \<longleftrightarrow>
    (let rows = adaptiveWindowLog s in
     length rows < 2 ^ 64 \<longrightarrow>
       unat (adaptivePendingClassCount s)
         = suffix_run (\<lambda>r. row_class r = adaptiveClassName (adaptivePendingClass s)) rows
       \<and> unat (adaptiveWindowsInMode s) = suffix_run (\<lambda>r. \<not> row_switched r) rows
       \<and> (rows \<noteq> [] \<longrightarrow> row_class (last rows) = adaptiveClassName (adaptivePendingClass s))
       \<and> log_hysteresis_ok c rows)"

lemma hysteresis_inv_close:
  assumes inv: "hysteresis_inv c s" and cl: "window_closes s"
  shows "hysteresis_inv c (adaptiveAdvanceWindow c s)"
proof -
  let ?log = "adaptiveWindowLog s" and ?cls = "closing_class c s"
  obtain r where r: "adaptiveWindowLog (adaptiveAdvanceWindow c s) = ?log @ [r]"
      "row_class r = adaptiveClassName ?cls" "row_switched r = switch_allowed c ?cls s"
    using advance_log [OF cl, of c] by blast
  show ?thesis
  proof (cases "length ?log + 1 < 2 ^ 64")
    case True
    with inv have pend: "unat (adaptivePendingClassCount s)
          = suffix_run (\<lambda>r. row_class r = adaptiveClassName (adaptivePendingClass s)) ?log"
      and hold: "unat (adaptiveWindowsInMode s) = suffix_run (\<lambda>r. \<not> row_switched r) ?log"
      and last: "?log \<noteq> [] \<longrightarrow> row_class (last ?log) = adaptiveClassName (adaptivePendingClass s)"
      and ok: "log_hysteresis_ok c ?log"
      by (auto simp: hysteresis_inv_def Let_def)
    have bounds: "unat (adaptivePendingClassCount s) < 2 ^ 64 - 1"
        "unat (adaptiveWindowsInMode s) < 2 ^ 64 - 1"
      using True suffix_run_le [of _ ?log] unfolding pend hold
      by (metis add.commute le_less_trans less_diff_conv)+
    have pend': "unat (new_pending_count ?cls s)
        = suffix_run (\<lambda>r'. row_class r' = adaptiveClassName ?cls) (?log @ [r])"
    proof (cases "?cls = adaptivePendingClass s")
      case True
      then show ?thesis using bounds(1) r(2) pend by (simp add: new_pending_count_def unat_Suc_word)
    next
      case False
      with last have "suffix_run (\<lambda>r'. row_class r' = adaptiveClassName ?cls) ?log = 0"
        by (cases ?log rule: rev_cases) (auto simp: className_inj)
      with False r(2) show ?thesis by (simp add: new_pending_count_def)
    qed
    have "log_hysteresis_ok c (?log @ [r])"
      using ok r pend' hold
      by (auto simp: log_hysteresis_ok_snoc switch_allowed_def ucast_le_iff)
    with r pend' hold bounds(2) show ?thesis
      by (simp add: hysteresis_inv_def advance_closed [OF cl] Let_def unat_Suc_word)
  next
    case False
    with r(1) show ?thesis by (simp add: hysteresis_inv_def)
  qed
qed

lemma hysteresis_inv_reachable:
  assumes "adaptive_reachable c w s"
  shows "hysteresis_inv c s"
  using assms
proof (induction rule: adaptive_reachable.induct)
  case init
  show ?case by (simp add: hysteresis_inv_def adaptive_init_def log_hysteresis_ok_def)
next
  case (tick s inp)
  have eqs: "hysteresis_inv c (adaptiveRecordCycleSignals c sig s) = hysteresis_inv c s"
    "hysteresis_inv c (adaptive_note c e s) = hysteresis_inv c s" for sig e s
    by (simp_all add: hysteresis_inv_def)
  show ?case
    by (rule tick_inv [where P = "hysteresis_inv c" and Q = "hysteresis_inv c", OF tick.IH])
      (simp_all only: eqs hysteresis_inv_close)
qed

text \<open>
  C1. Mode switches obey the hysteresis and the hold time, in every run from the initial state:
  a row of the window log that records a switch is preceded by (and ends) a run of at least
  \<open>adaptiveSwitchHysteresis\<close> consecutive windows of the same class, and none of the
  \<open>adaptiveMinModeWindows\<close> windows before it switched. The bound on the log says that the
  64-bit window counters have not wrapped.
\<close>

theorem log_hysteresis:
  assumes reach: "adaptive_reachable c w s"
    and len: "length (adaptiveWindowLog s) < 2 ^ 64"
    and i: "i < length (adaptiveWindowLog s)" "row_switched (adaptiveWindowLog s ! i)"
  shows "unat (adaptiveSwitchHysteresis c) \<le> Suc i
    \<and> (\<forall>j. Suc i - unat (adaptiveSwitchHysteresis c) \<le> j \<and> j \<le> i \<longrightarrow>
         row_class (adaptiveWindowLog s ! j) = row_class (adaptiveWindowLog s ! i))
    \<and> unat (adaptiveMinModeWindows c) \<le> i
    \<and> (\<forall>j. i - unat (adaptiveMinModeWindows c) \<le> j \<and> j < i \<longrightarrow>
         \<not> row_switched (adaptiveWindowLog s ! j))"
proof -
  let ?rows = "adaptiveWindowLog s"
  have "log_hysteresis_ok c ?rows"
    using hysteresis_inv_reachable [OF reach] len by (simp add: hysteresis_inv_def Let_def)
  with i have h: "unat (adaptiveSwitchHysteresis c)
        \<le> suffix_run (\<lambda>r. row_class r = row_class (?rows ! i)) (take (Suc i) ?rows)"
      and m: "unat (adaptiveMinModeWindows c) \<le> suffix_run (\<lambda>r. \<not> row_switched r) (take i ?rows)"
    by (simp_all only: log_hysteresis_ok_def)
  have l: "Suc i \<le> length ?rows" "i \<le> length ?rows" using i(1) by simp_all
  note suffix_run_take [OF l(1) h] suffix_run_take [OF l(2) m]
  then show ?thesis by (meson le_imp_less_Suc)
qed

subsection \<open>Frozen signals\<close>

text \<open>
  The state the controller is left in by a switch to \<open>Conservative\<close> that a
  serialized-memory window caused: the stored signals are those of that window.
\<close>

definition frozen_serialized :: "adaptive_config \<Rightarrow> adaptive_state \<Rightarrow> bool" where
  "frozen_serialized c s \<longleftrightarrow>
    adaptiveCurrentMode s = Conservative
    \<and> adaptiveMemBlockRatioThres c \<le> adaptiveDecoupledMemBlockRatio s
    \<and> adaptiveDecoupledOutstandingMisses s < adaptiveOutstandingMissThres c"

lemma frozen_class:
  assumes "frozen_serialized c s" and "1 < adaptiveWindowId s + 1"
  shows "closing_class c s = SerializedMemoryDominated" and "frozen_serialized c (pre_classify s)"
proof -
  have later: "\<not> adaptiveWindowId s + 1 \<le> 1" using assms(2) by (simp only: linorder_not_le)
  have "pre_classify s = s\<lparr>adaptiveWindowId := adaptiveWindowId s + 1\<rparr>"
    using assms(1) by (simp add: pre_classify_def adaptiveDecoupleSignals_def
        frozen_serialized_def later)
  with assms(1) show "closing_class c s = SerializedMemoryDominated"
    and "frozen_serialized c (pre_classify s)"
    by (auto simp: frozen_serialized_def closing_class_def adaptiveClassifyWindow_def Let_def)
qed

definition serialized_rows :: "log_row list \<Rightarrow> bool" where
  "serialized_rows rows \<longleftrightarrow>
    (\<forall>r \<in> set rows. row_class r = adaptiveClassName SerializedMemoryDominated \<and> \<not> row_switched r)"

lemma frozen_close:
  assumes c: "\<not> adaptiveUseClassProfiles c" and fr: "frozen_serialized c s"
    and id: "1 < adaptiveWindowId s + 1" and cl: "window_closes s"
  defines "t \<equiv> adaptiveAdvanceWindow c s"
  shows "frozen_serialized c t"
    and "\<exists>rows. adaptiveWindowLog t = adaptiveWindowLog s @ rows \<and> serialized_rows rows"
proof -
  note k = frozen_class [OF fr id]
  have no: "\<not> switch_allowed c SerializedMemoryDominated s"
    using c fr by (simp add: switch_allowed_def adaptiveMapClassToMode_def frozen_serialized_def)
  with k fr show "frozen_serialized c t"
    by (simp add: t_def frozen_serialized_def advance_closed [OF cl])
  show "\<exists>rows. adaptiveWindowLog t = adaptiveWindowLog s @ rows \<and> serialized_rows rows"
  proof -
    obtain r where "adaptiveWindowLog t = adaptiveWindowLog s @ [r]"
      "row_class r = adaptiveClassName (closing_class c s)"
      "row_switched r = switch_allowed c (closing_class c s) s"
      using advance_log [OF cl, of c] unfolding t_def by blast
    with no show ?thesis by (intro exI [of _ "[r]"]) (simp add: k(1) serialized_rows_def)
  qed
qed

lemma word_gt_1:
  assumes "0 < unat x" and "unat x < 2 ^ 64 - 1"
  shows "(1::uint64) < x + 1"
  using assms unat_Suc_word [of x] by (simp add: word_less_nat_alt)

lemma frozen_tick:
  fixes inp :: "note_event list \<times> cycle_signals"
  assumes c: "\<not> adaptiveUseClassProfiles c" and fr: "frozen_serialized c s"
    and id: "0 < unat (adaptiveWindowId s)" "unat (adaptiveWindowId s) < 2 ^ 64 - 1"
  defines "t \<equiv> adaptive_tick c inp s"
  shows "frozen_serialized c t"
    and "\<exists>rows. adaptiveWindowLog t = adaptiveWindowLog s @ rows \<and> serialized_rows rows"
    and "0 < unat (adaptiveWindowId t)"
    and "unat (adaptiveWindowId t) \<le> Suc (unat (adaptiveWindowId s))"
proof -
  define u where "u = fold (adaptive_note c) (fst inp) s"
  define v where "v = adaptiveRecordCycleSignals c (snd inp) u"
  have v: "frozen_serialized c v" "adaptiveWindowLog v = adaptiveWindowLog s"
      "adaptiveWindowId v = adaptiveWindowId s"
    using fr by (simp_all add: v_def u_def frozen_serialized_def)
  have id': "1 < adaptiveWindowId v + 1" using word_gt_1 [OF id] by (simp add: v(3))
  have t: "t = (if adaptiveEnable c then adaptiveAdvanceWindow c v else u)"
    by (simp add: t_def adaptive_tick_def u_def v_def Let_def)
  have u: "frozen_serialized c u" "adaptiveWindowLog u = adaptiveWindowLog s"
      "adaptiveWindowId u = adaptiveWindowId s"
    using fr by (simp_all add: u_def frozen_serialized_def)
  have nil: "serialized_rows []" by (simp add: serialized_rows_def)
  have "frozen_serialized c t
    \<and> (\<exists>rows. adaptiveWindowLog t = adaptiveWindowLog s @ rows \<and> serialized_rows rows)
    \<and> 0 < unat (adaptiveWindowId t) \<and> unat (adaptiveWindowId t) \<le> Suc (unat (adaptiveWindowId s))"
  proof (cases "adaptiveEnable c \<and> window_closes v")
    case True
    then have tv: "t = adaptiveAdvanceWindow c v" using t by simp
    have "unat (adaptiveWindowId t) = Suc (unat (adaptiveWindowId s))"
      using True id by (simp add: tv advance_closed(2) v(3) unat_Suc_word)
    with frozen_close [OF c v(1) id'] True v(2) show ?thesis by (simp add: tv)
  next
    case False
    then have "t = u \<or> t = v" using t advance_open [of v c] by auto
    with u v nil id show ?thesis by auto
  qed
  then show "frozen_serialized c t"
    and "\<exists>rows. adaptiveWindowLog t = adaptiveWindowLog s @ rows \<and> serialized_rows rows"
    and "0 < unat (adaptiveWindowId t)"
    and "unat (adaptiveWindowId t) \<le> Suc (unat (adaptiveWindowId s))"
    by auto
qed

lemma frozen_run:
  assumes c: "\<not> adaptiveUseClassProfiles c" and "frozen_serialized c s"
    and "0 < unat (adaptiveWindowId s)" "unat (adaptiveWindowId s) + length inps < 2 ^ 64"
  shows "frozen_serialized c (adaptive_run c inps s)
    \<and> (\<exists>rows. adaptiveWindowLog (adaptive_run c inps s) = adaptiveWindowLog s @ rows
         \<and> serialized_rows rows)"
  using assms(2-)
proof (induction inps arbitrary: s)
  case Nil
  then show ?case by (simp add: adaptive_run_def serialized_rows_def)
next
  case (Cons inp inps)
  let ?t = "adaptive_tick c inp s"
  have id: "unat (adaptiveWindowId s) < 2 ^ 64 - 1" using Cons.prems(3) by simp
  note k = frozen_tick [OF c Cons.prems(1,2) id, of inp]
  have "unat (adaptiveWindowId ?t) + length inps < 2 ^ 64" using k(4) Cons.prems(3) by simp
  from Cons.IH [OF k(1,3) this] obtain rows where
    r: "frozen_serialized c (adaptive_run c inps ?t)" "serialized_rows rows"
      "adaptiveWindowLog (adaptive_run c inps ?t) = adaptiveWindowLog ?t @ rows" by blast
  obtain rows0 where r0: "adaptiveWindowLog ?t = adaptiveWindowLog s @ rows0" "serialized_rows rows0"
    using k(2) by blast
  have run: "adaptive_run c (inp # inps) s = adaptive_run c inps ?t" by (simp add: adaptive_run_def)
  have "serialized_rows (rows0 @ rows)" using r(2) r0(2) by (auto simp: serialized_rows_def)
  with r(1,3) r0(1) show ?case unfolding run by auto
qed

lemma switch_to_conservative_freezes:
  assumes c: "\<not> adaptiveUseClassProfiles c" and m: "adaptiveCurrentMode s = Aggressive"
    and s': "s' = adaptive_tick c inp s" "adaptiveCurrentMode s' = Conservative"
      "adaptiveCurrentClass s' = SerializedMemoryDominated"
  shows "frozen_serialized c s'"
proof -
  define v where "v = adaptiveRecordCycleSignals c (snd inp) (fold (adaptive_note c) (fst inp) s)"
  have v: "adaptiveCurrentMode v = Aggressive" using m by (simp add: v_def)
  have en: "adaptiveEnable c" and s2: "s' = adaptiveAdvanceWindow c v"
    using s' m by (auto simp: adaptive_tick_def v_def Let_def split: if_splits)
  have cl: "window_closes v"
    using s2 s'(2) v advance_open [of v c] by (cases "window_closes v") auto
  have "closing_class c v = SerializedMemoryDominated"
    using s'(3) advance_closed(4) [OF cl, of c] s2 by simp
  then have "adaptiveMemBlockRatioThres c \<le> mem_block_ratio_raw (adaptiveWindowStats v)"
    and "avg_outstanding_misses_raw (adaptiveWindowStats v) < adaptiveOutstandingMissThres c"
    using v by (auto simp: closing_class_def adaptiveClassifyWindow_def Let_def split: if_splits)
  moreover have "adaptiveDecoupledMemBlockRatio s' = mem_block_ratio_raw (adaptiveWindowStats v)"
    and "adaptiveDecoupledOutstandingMisses s' = avg_outstanding_misses_raw (adaptiveWindowStats v)"
    unfolding s2 advance_closed(8,9) [OF cl] using v
    by (simp_all add: pre_classify_def adaptiveDecoupleSignals_def)
  ultimately show ?thesis using s'(2) by (simp add: frozen_serialized_def)
qed

text \<open>
  C5. Without class profiles, a switch from \<open>Aggressive\<close> to \<open>Conservative\<close> that a
  serialized-memory window causes is permanent: whatever the pipeline does in the following
  cycles, every later window is classified from the signals stored at that switch, is logged as
  serialized-memory dominated, and leaves the mode at \<open>Conservative\<close> (as long as the 64-bit
  window counter does not wrap).
\<close>

theorem serialized_switch_is_permanent:
  assumes "\<not> adaptiveUseClassProfiles c" and "adaptiveCurrentMode s = Aggressive"
    and "s' = adaptive_tick c inp s" "adaptiveCurrentMode s' = Conservative"
      "adaptiveCurrentClass s' = SerializedMemoryDominated"
    and "0 < unat (adaptiveWindowId s')"
    and "unat (adaptiveWindowId s') + length inps < 2 ^ 64"
  shows "adaptiveCurrentMode (adaptive_run c inps s') = Conservative
    \<and> (\<exists>rows. adaptiveWindowLog (adaptive_run c inps s') = adaptiveWindowLog s' @ rows
         \<and> (\<forall>r \<in> set rows. row_class r = ''Serialized-memory dominated'' \<and> \<not> row_switched r))"
  using frozen_run [OF assms(1) switch_to_conservative_freezes [OF assms(1-5)] assms(6,7)]
  unfolding frozen_serialized_def serialized_rows_def adaptiveClassName.simps by blast

end
