(* ===== verification/AdaptiveBounds.thy ===== *)
theory AdaptiveBounds
  imports AdaptiveProps
begin

text \<open>
  Further properties of the stall-adaptive controller: the limits it hands to the stages, the
  length of its windows, the counters and the ratios of a window, the bounds of the automatic
  window size, and the inertness of a disabled controller. The last part holds the concrete
  runs that show the hypotheses of the controller theorems can be met.
\<close>

subsection \<open>Limits\<close>

lemma word_ge_1_iff: "(1::'a::len word) \<le> w \<longleftrightarrow> w \<noteq> 0"
  by (metis word_le_0_iff word_not_simps(1) linorder_not_le word_less_1)

lemma fetch_from_param_bounds:
  assumes "1 \<le> adaptiveAggressiveFetch c"
  shows "1 \<le> adaptiveFetchWidthFromParam c p"
    and "adaptiveFetchWidthFromParam c p \<le> adaptiveAggressiveFetch c"
  using assms by (auto simp: adaptiveFetchWidthFromParam_def max_def min_def)

lemma squash_proportional_bounds:
  "3 \<le> squash_proportional_fw sq" "squash_proportional_fw sq \<le> 7"
  by (auto simp: squash_proportional_fw_def)

text \<open>
  C19. The fetch width the controller grants is at least 1 and at most the baseline width
  \<open>params.fetchWidth\<close>, in every state, unless the squash-proportional ladder decides it; the
  ladder ignores the baseline width and gives a width between 3 and 7.
\<close>

theorem fetch_width_bounds:
  assumes "1 \<le> adaptiveAggressiveFetch c"
  shows "if adaptiveEnable c \<and> adaptiveCurrentMode s = Conservative
            \<and> 0 < adaptiveSquashProportionalFW c
         then 3 \<le> adaptiveFetchWidth c s \<and> adaptiveFetchWidth c s \<le> 7
         else 1 \<le> adaptiveFetchWidth c s \<and> adaptiveFetchWidth c s \<le> adaptiveAggressiveFetch c"
  using assms fetch_from_param_bounds [OF assms] squash_proportional_bounds
  by (auto simp: adaptiveFetchWidth_def word_ge_1_iff split: AdaptiveMode.split)

lemma clamp_bounds:
  assumes "1 \<le> (b::unsigned)"
  shows "1 \<le> (if l = 0 then b else max 1 (min b l))"
    and "(if l = 0 then b else max 1 (min b l)) \<le> b"
  using assms by (auto simp: max_def min_def)

text \<open>
  The rename and dispatch widths the controller grants lie between 1 and the width the
  stage asks for, in every state, and are exactly the stage's width in \<open>Aggressive\<close> mode.
\<close>

theorem rename_dispatch_width_bounds:
  assumes "1 \<le> base"
  shows "1 \<le> adaptiveRenameWidth c s base \<and> adaptiveRenameWidth c s base \<le> base
    \<and> 1 \<le> adaptiveDispatchWidth c s base \<and> adaptiveDispatchWidth c s base \<le> base
    \<and> (adaptiveCurrentMode s = Aggressive \<longrightarrow>
         adaptiveRenameWidth c s base = base \<and> adaptiveDispatchWidth c s base = base)"
  using assms clamp_bounds [OF assms]
  by (auto simp: adaptiveRenameWidth_def adaptiveDispatchWidth_def Let_def
      adaptiveEffectiveRenameWidthLimit_def adaptiveEffectiveDispatchWidthLimit_def)

text \<open>The caps a mode imposes on the ROB, IQ and LSQ occupancy; \<open>0\<close> is no cap.\<close>

fun mode_caps :: "adaptive_config \<Rightarrow> adaptive_state \<Rightarrow> AdaptiveMode \<Rightarrow> unsigned \<times> unsigned \<times> unsigned"
  where
  "mode_caps c s Conservative =
    (if adaptiveCurrentSerializedTight s then adaptiveSerializedTightInflightCap c
     else InflightCap (adaptiveConservative c),
     adaptiveConservativeIQCap c, adaptiveConservativeLSQCap c)"
| "mode_caps c s m =
    ((case m of
        SerializedProfile \<Rightarrow> InflightCap (adaptiveSerialized c)
      | HighMLPProfile \<Rightarrow> InflightCap (adaptiveHighMLP c)
      | ControlProfile \<Rightarrow> InflightCap (adaptiveControl c)
      | ResourceProfile \<Rightarrow> if adaptiveCurrentResourceTight s
          then InflightCap (adaptiveResourceTight c) else InflightCap (adaptiveResource c)
      | _ \<Rightarrow> if adaptiveCurrentResourceCongested s
          then adaptiveResourceCongestionInflightCap c else 0),
     if adaptiveCurrentResourceCongested s then adaptiveResourceCongestionIQCap c else 0,
     if adaptiveCurrentResourceCongested s then adaptiveResourceCongestionLSQCap c else 0)"

definition reaches_cap :: "unsigned \<Rightarrow> unsigned \<Rightarrow> bool" where
  "reaches_cap cap occ \<longleftrightarrow> (if cap = 0 then False else cap \<le> occ)"

lemma inflight_cap_reached:
  "occ \<noteq> unsigned_max \<Longrightarrow> (adaptiveInflightCapFromParam p \<le> occ) = reaches_cap p occ"
  using word_order.extremum_uniqueI [of occ]
  by (auto simp: adaptiveInflightCapFromParam_def reaches_cap_def unsigned_max_def)


subsection \<open>A disabled controller\<close>

text \<open>
  C21. With \<open>enableStallAdaptive\<close> off the controller is inert: no cycle changes its state, fetch
  is never throttled, and every stage gets its baseline width.
\<close>

theorem disabled_controller_is_inert:
  assumes "\<not> adaptiveEnable c"
  shows "adaptive_tick c inp s = s \<and> \<not> adaptiveShouldThrottleFetch c s sig
    \<and> adaptiveFetchWidth c s = adaptiveAggressiveFetch c
    \<and> adaptiveRenameWidth c s base = base \<and> adaptiveDispatchWidth c s base = base"
proof -
  have "adaptive_note c e s = s" for e s
    using assms by (cases e) (simp_all add: adaptiveNoteFetchedInst_def
        adaptiveNoteCommittedInst_def adaptiveNoteSquashedInst_def adaptiveNoteBranchMispredict_def)
  then have "fold (adaptive_note c) es s = s" for es by (induction es) simp_all
  with assms show ?thesis
    by (simp add: adaptive_tick_def adaptiveShouldThrottleFetch_def adaptiveFetchWidth_def
        adaptiveRenameWidth_def adaptiveDispatchWidth_def)
qed

subsection \<open>Windows\<close>

lemma note_cycles [simp]:
  "cycles (adaptiveWindowStats (adaptive_note c e s)) = cycles (adaptiveWindowStats s)"
  "commitBlockedMemCycles (adaptiveWindowStats (adaptive_note c e s))
    = commitBlockedMemCycles (adaptiveWindowStats s)"
  "iqSaturationCycles (adaptiveWindowStats (adaptive_note c e s))
    = iqSaturationCycles (adaptiveWindowStats s)"
  "branchRecoveryCycles (adaptiveWindowStats (adaptive_note c e s))
    = branchRecoveryCycles (adaptiveWindowStats s)"
  by (cases e; simp add: adaptiveNoteFetchedInst_def adaptiveNoteCommittedInst_def
      adaptiveNoteSquashedInst_def adaptiveNoteBranchMispredict_def)+

lemma record_cycles:
  "numThreads c \<noteq> 0 \<Longrightarrow> cycles (adaptiveWindowStats (adaptiveRecordCycleSignals c sig s))
    = cycles (adaptiveWindowStats s) + 1"
  by (simp add: adaptiveRecordCycleSignals_def Let_def)

lemma autosize_off: "\<not> adaptiveWindowAutoSize c \<Longrightarrow> adaptiveAutoSizeWindow c cls s = s"
  by (simp add: adaptiveAutoSizeWindow_def)

lemma unat_unsigned_less: "unat (w::unsigned) < 2 ^ 32"
  using unsigned_less [of w, where 'a = nat] by simp

lemma tick_window:
  fixes inp :: "note_event list \<times> cycle_signals"
  assumes c: "adaptiveEnable c" "numThreads c \<noteq> 0" "\<not> adaptiveWindowAutoSize c"
    and open_w: "unat (cycles (adaptiveWindowStats s)) < unat (adaptiveWindowCycles s)"
  defines "t \<equiv> adaptive_tick c inp s" and "n \<equiv> Suc (unat (cycles (adaptiveWindowStats s)))"
  shows "adaptiveWindowCycles t = adaptiveWindowCycles s
    \<and> (if n < unat (adaptiveWindowCycles s)
       then unat (cycles (adaptiveWindowStats t)) = n \<and> adaptiveWindowLog t = adaptiveWindowLog s
       else unat (cycles (adaptiveWindowStats t)) = 0
         \<and> length (adaptiveWindowLog t) = Suc (length (adaptiveWindowLog s)))"
proof -
  define v where "v = adaptiveRecordCycleSignals c (snd inp) (fold (adaptive_note c) (fst inp) s)"
  have "cycles (adaptiveWindowStats v) = cycles (adaptiveWindowStats s) + 1"
    using c(2) notes_frame [of "\<lambda>s. cycles (adaptiveWindowStats s)" c "fst inp" s]
    by (simp add: v_def record_cycles)
  moreover have "unat (cycles (adaptiveWindowStats s)) < 2 ^ 64 - 1"
    using open_w unat_unsigned_less [of "adaptiveWindowCycles s"] by simp
  ultimately have vn: "unat (cycles (adaptiveWindowStats v)) = n"
    by (simp add: n_def unat_Suc_word)
  have v: "adaptiveWindowCycles v = adaptiveWindowCycles s" "adaptiveWindowLog v = adaptiveWindowLog s"
    by (simp_all add: v_def)
  have t: "t = adaptiveAdvanceWindow c v" using c by (simp add: t_def adaptive_tick_def v_def Let_def)
  have cl: "window_closes v \<longleftrightarrow> \<not> n < unat (adaptiveWindowCycles s)"
    by (simp add: window_closes_def ucast_le_iff vn v not_less)
  show ?thesis
  proof (cases "window_closes v")
    case True
    obtain r where "adaptiveWindowLog t = adaptiveWindowLog v @ [r]"
      using advance_log [OF True, of c] t by blast
    moreover have "adaptiveWindowCycles t = adaptiveWindowCycles s"
      using c(3) v by (simp add: t advance_unfold [OF True] autosize_off)
    ultimately show ?thesis
      using True cl v by (simp add: t advance_closed(1) [OF True] empty_window_def)
  next
    case False
    then show ?thesis using cl vn v by (simp add: t advance_open)
  qed
qed

text \<open>
  C22. With a fixed window size \<open>W \<ge> 1\<close>, the controller closes a window exactly every \<open>W\<close>
  cycles: after \<open>n\<close> cycles from the initial state the log has \<open>n div W\<close> rows and the open
  window has counted \<open>n mod W\<close> cycles.
\<close>

theorem windows_of_fixed_length:
  assumes c: "adaptiveEnable c" "numThreads c \<noteq> 0" "\<not> adaptiveWindowAutoSize c"
    and w: "0 < unat w"
  shows "length (adaptiveWindowLog (adaptive_run c inps (adaptive_init w))) = length inps div unat w
    \<and> unat (cycles (adaptiveWindowStats (adaptive_run c inps (adaptive_init w))))
        = length inps mod unat w
    \<and> adaptiveWindowCycles (adaptive_run c inps (adaptive_init w)) = w"
proof (induction inps rule: rev_induct)
  case Nil
  show ?case using w by (simp add: adaptive_run_def adaptive_init_def empty_window_def)
next
  case (snoc inp inps)
  let ?s = "adaptive_run c inps (adaptive_init w)"
  have run: "adaptive_run c (inps @ [inp]) (adaptive_init w) = adaptive_tick c inp ?s"
    by (simp add: adaptive_run_def)
  have "unat (cycles (adaptiveWindowStats ?s)) < unat (adaptiveWindowCycles ?s)"
    using snoc w by simp
  from tick_window [OF c this, of inp] snoc mod_less_divisor [OF w, of "length inps"] show ?case
    unfolding run by (auto simp: div_Suc mod_Suc split: if_splits)
qed

subsection \<open>Counters and ratios of a window\<close>

definition counters_ok :: "AdaptiveWindowStats \<Rightarrow> bool" where
  "counters_ok w \<longleftrightarrow>
    iqSaturationCycles w \<le> cycles w \<and> branchRecoveryCycles w \<le> cycles w
    \<and> commitBlockedMemCycles w \<le> cycles w"

definition row_ok :: "log_row \<Rightarrow> bool" where
  "row_ok r \<longleftrightarrow>
    0 \<le> row_ratios r ! 2 \<and> row_ratios r ! 2 \<le> 1
    \<and> 0 \<le> row_ratios r ! 3 \<and> row_ratios r ! 3 \<le> 1
    \<and> row_counters r ! 4 \<le> row_cycles r"

definition counters_inv :: "nat \<Rightarrow> adaptive_state \<Rightarrow> bool" where
  "counters_inv b s \<longleftrightarrow>
    counters_ok (adaptiveWindowStats s) \<and> unat (cycles (adaptiveWindowStats s)) < b
    \<and> list_all row_ok (adaptiveWindowLog s)"

lemma word_inc_le:
  fixes a b :: uint64
  assumes "a \<le> b" and "unat b < 2 ^ 64 - 1"
  shows "a \<le> b + 1" and "a + 1 \<le> b + 1"
proof -
  have "unat a < 2 ^ 64 - 1" using assms by (simp add: word_le_nat_alt)
  with assms show "a \<le> b + 1" and "a + 1 \<le> b + 1"
    by (simp_all add: word_le_nat_alt unat_Suc_word)
qed

lemma safeRatio_nonneg: "0 \<le> safeRatio a b"
  by (simp add: safeRatio_def fdiv_nonneg)

lemma safeRatio_le_1: "a \<le> b \<Longrightarrow> safeRatio a b \<le> 1"
  by (simp add: safeRatio_def fdiv_le_1 double_of_mono)

lemma record_counters_ok:
  assumes "counters_ok (adaptiveWindowStats s)"
    and "unat (cycles (adaptiveWindowStats s)) < 2 ^ 64 - 1"
  shows "counters_ok (adaptiveWindowStats (adaptiveRecordCycleSignals c sig s))"
  using assms
  by (auto simp: counters_ok_def adaptiveRecordCycleSignals_def Let_def intro: word_inc_le)

lemma counters_inv_record:
  assumes "counters_inv (2 ^ 32) s"
  shows "counters_inv (2 ^ 32 + 1) (adaptiveRecordCycleSignals c sig s)"
proof -
  have b: "unat (cycles (adaptiveWindowStats s)) < 2 ^ 64 - 1"
    using assms by (simp add: counters_inv_def)
  have "unat (cycles (adaptiveWindowStats (adaptiveRecordCycleSignals c sig s)))
      \<le> Suc (unat (cycles (adaptiveWindowStats s)))"
    using b by (cases "numThreads c = 0")
      (simp_all add: record_cycles unat_Suc_word, simp add: adaptiveRecordCycleSignals_def)
  with assms record_counters_ok [OF _ b, of c sig] show ?thesis
    by (simp add: counters_inv_def)
qed

lemma counters_inv_close:
  assumes inv: "counters_inv (2 ^ 32 + 1) s" and cl: "window_closes s"
  shows "counters_inv (2 ^ 32) (adaptiveAdvanceWindow c s)"
proof -
  let ?w = "adaptiveWindowStats s"
  obtain r where r: "adaptiveWindowLog (adaptiveAdvanceWindow c s) = adaptiveWindowLog s @ [r]"
    "row_cycles r = cycles ?w" "row_counters r ! 4 = commitBlockedMemCycles ?w"
    "row_ratios r ! 2 = safeRatio (iqSaturationCycles ?w) (cycles ?w)"
    "row_ratios r ! 3 = safeRatio (branchRecoveryCycles ?w) (cycles ?w)"
    using advance_log [OF cl, of c] by blast
  have "row_ok r"
    using inv r by (simp add: row_ok_def counters_inv_def counters_ok_def safeRatio_nonneg safeRatio_le_1)
  with inv r(1) show ?thesis
    by (simp add: counters_inv_def advance_closed(1) [OF cl] empty_window_def counters_ok_def)
qed

lemma counters_inv_reachable:
  assumes "adaptive_reachable c w s"
  shows "counters_inv (2 ^ 32) s"
  using assms
proof (induction rule: adaptive_reachable.induct)
  case init
  show ?case by (simp add: counters_inv_def counters_ok_def adaptive_init_def empty_window_def)
next
  case (tick s inp)
  have hook: "counters_inv (2 ^ 32) (adaptive_note c e s) = counters_inv (2 ^ 32) s" for e s
    by (simp add: counters_inv_def counters_ok_def)
  have opn: "counters_inv (2 ^ 32) s" if "counters_inv (2 ^ 32 + 1) s" "\<not> window_closes s" for s
    using that unat_unsigned_less [of "adaptiveWindowCycles s"]
    by (simp add: counters_inv_def window_closes_def ucast_le_iff)
  show ?case
    by (rule tick_inv [where P = "counters_inv (2 ^ 32)" and Q = "counters_inv (2 ^ 32 + 1)",
          OF tick.IH])
      (blast intro: hook [THEN iffD2] opn counters_inv_record counters_inv_close)+
qed

text \<open>
  In every reachable state the cycle counters of the open window and of every logged window
  are consistent: saturated, recovering and memory-blocked cycles never exceed the cycles of the
  window, so that the logged saturation and recovery ratios lie in \<open>[0, 1]\<close>, whatever the
  thresholds and the window sizes.
\<close>

theorem window_ratios_in_unit_interval:
  assumes "adaptive_reachable c w s"
  shows "counters_ok (adaptiveWindowStats s) \<and> (\<forall>r \<in> set (adaptiveWindowLog s). row_ok r)"
  using counters_inv_reachable [OF assms] by (simp add: counters_inv_def list_all_iff)

subsection \<open>Automatic window size\<close>

definition window_size_ok :: "adaptive_config \<Rightarrow> adaptive_state \<Rightarrow> bool" where
  "window_size_ok c s \<longleftrightarrow>
    adaptiveWindowMin c \<le> adaptiveWindowCycles s \<and> adaptiveWindowCycles s \<le> adaptiveWindowMax c"

lemma word_double_ge:
  fixes x m :: unsigned
  assumes "x < m" and "unat m \<le> 2 ^ 31"
  shows "x \<le> x * 2"
proof -
  have "unat x * 2 < 2 ^ 32" using assms by (simp add: word_less_nat_alt)
  then have "unat (x * 2) = unat x * 2" by (simp add: unat_word_ariths)
  then show ?thesis by (simp add: word_le_nat_alt)
qed

lemma word_half_le: "(x::unsigned) div 2 \<le> x"
  by (simp add: word_le_nat_alt unat_div)

lemma autosize_keeps_bounds:
  assumes "window_size_ok c s" and "unat (adaptiveWindowMax c) \<le> 2 ^ 31"
  shows "window_size_ok c (adaptiveAutoSizeWindow c cls s)"
proof -
  let ?x = "adaptiveWindowCycles s"
  have lo: "adaptiveWindowMin c \<le> max (adaptiveWindowMin c) (?x div 2)"
    "max (adaptiveWindowMin c) (?x div 2) \<le> adaptiveWindowMax c"
    using assms word_half_le [of ?x] by (auto simp: window_size_ok_def)
  have hi: "?x < adaptiveWindowMax c \<Longrightarrow> adaptiveWindowMin c \<le> min (adaptiveWindowMax c) (?x * 2)"
    using assms word_double_ge [of ?x "adaptiveWindowMax c"]
    by (auto simp: window_size_ok_def intro: order_trans)
  from assms lo hi show ?thesis
    by (simp add: adaptiveAutoSizeWindow_def window_size_ok_def Let_def)
qed


subsection \<open>The documented decision table\<close>

text \<open>
  The rules of \<open>docs/adaptive_mechanism_v1.md\<close> ("Derived metrics and rules"), in their order,
  over the raw signals of the window.
\<close>

definition documented_class :: "adaptive_config \<Rightarrow> AdaptiveWindowStats \<Rightarrow> AdaptiveClass" where
  "documented_class c w =
    (if adaptiveMemBlockRatioThres c \<le> mem_block_ratio_raw w then
       (if adaptiveOutstandingMissThres c \<le> avg_outstanding_misses_raw w
        then HighMLPMemoryDominated else SerializedMemoryDominated)
     else if adaptiveBranchRecoveryRatioThres c \<le> safeRatio (branchRecoveryCycles w) (cycles w)
             \<and> adaptiveSquashRatioThres c \<le> squash_ratio w
     then ControlDominated
     else ResourceContentionDominated)"


end
