(* ===== verification/AdaptiveWitnesses.thy ===== *)
theory AdaptiveWitnesses
  imports AdaptiveBounds
begin

text \<open>
  Concrete runs of the stall-adaptive controller, which show that the hypotheses of its theorems
  can be met: a configuration close to the defaults of \<open>BaseO3CPU.py\<close> (with thresholds that are
  powers of two), a cycle whose ROB head waits on memory, and two windows of one such cycle each,
  the second of which switches the mode.
\<close>

definition example_config :: adaptive_config where
  "example_config =
    \<lparr>adaptiveEnable = True, numThreads = 1, adaptiveSwitchHysteresis = 2,
     adaptiveMinModeWindows = 1, adaptiveAggressiveFetch = 8,
     adaptiveConservative = \<lparr>FetchWidth = 6, InflightCap = 128, RenameWidth = 0, DispatchWidth = 0\<rparr>,
     adaptiveConservativeIQCap = 0, adaptiveConservativeLSQCap = 0,
     adaptiveUseClassProfiles = False,
     adaptiveSerialized = \<lparr>FetchWidth = 2, InflightCap = 64, RenameWidth = 4, DispatchWidth = 4\<rparr>,
     adaptiveHighMLP = \<lparr>FetchWidth = 0, InflightCap = 0, RenameWidth = 0, DispatchWidth = 0\<rparr>,
     adaptiveControl = \<lparr>FetchWidth = 2, InflightCap = 96, RenameWidth = 4, DispatchWidth = 4\<rparr>,
     adaptiveResource = \<lparr>FetchWidth = 0, InflightCap = 96, RenameWidth = 5, DispatchWidth = 5\<rparr>,
     adaptiveResourceTight = \<lparr>FetchWidth = 2, InflightCap = 72, RenameWidth = 4, DispatchWidth = 4\<rparr>,
     adaptiveResourceTightMaxInflightProxy = 24, adaptiveResourceTightMinSquashRatio = 1 / 8,
     adaptiveMemBlockRatioThres = 1 / 8, adaptiveOutstandingMissThres = 8,
     adaptiveHighMLPMaxInflightProxy = 32, adaptiveBranchRecoveryRatioThres = 1 / 8,
     adaptiveSquashRatioThres = 1 / 4, adaptiveIQSaturationRatioThres = 1 / 8,
     adaptiveCommitActivityRatioThres = 1 / 4, adaptiveSerializedTightSquashThres = 1 / 4,
     adaptiveSerializedTightFetch = 4, adaptiveSerializedTightInflightCap = 128,
     adaptiveSquashProportionalFW = 0, adaptiveAggressiveFetchLimit = 0,
     adaptiveWindowAutoSize = False, adaptiveWindowMin = 1, adaptiveWindowMax = 16,
     adaptiveResourceCongestionCommitThres = 15 / 16, adaptiveResourceCongestionInflightCap = 56,
     adaptiveResourceCongestionIQCap = 26, adaptiveResourceCongestionLSQCap = 28\<rparr>"

definition stalled_cycle :: "note_event list \<times> cycle_signals" where
  "stalled_cycle = ([NoteFetched 2, NoteSquashed 1],
    \<lparr>rob_occupancy = 1, iq_occupancy = 0, lsq_occupancy = 1, iq_full = False,
     commit_squashing = False, rob_head_ready = False, lsq_stalled = True,
     lsq_stores_to_wb = False, lsq_cache_blocked = False\<rparr>)"

lemma fdiv_1 [simp]: "fdiv (double_of 1) (double_of (1::uint64)) = 1"
  using fl_of_nat [of 1] by (simp add: fdiv_def double_of_def)

lemma example_config_values [simp]:
  "adaptiveEnable example_config" "numThreads example_config = 1"
  "\<not> adaptiveWindowAutoSize example_config" "\<not> adaptiveUseClassProfiles example_config"
  "adaptiveMemBlockRatioThres example_config = 1 / 8"
  "adaptiveOutstandingMissThres example_config = 8"
  "adaptiveSwitchHysteresis example_config = 2" "adaptiveMinModeWindows example_config = 1"
  "adaptiveAggressiveFetch example_config = 8"
  "adaptiveWindowMin example_config = 1" "adaptiveWindowMax example_config = 16"
  by (simp_all add: example_config_def)

abbreviation "one_stall \<equiv> adaptive_tick example_config stalled_cycle (adaptive_init 1)"
abbreviation "two_stalls \<equiv> adaptive_tick example_config stalled_cycle one_stall"

text \<open>A stalled cycle closes a window of size 1 and classifies it as serialized.\<close>

definition sampled :: "adaptive_state \<Rightarrow> adaptive_state" where
  "sampled s = adaptiveRecordCycleSignals example_config (snd stalled_cycle)
     (fold (adaptive_note example_config) (fst stalled_cycle) s)"

lemma stalled_tick:
  assumes "adaptiveWindowCycles s = 1" "adaptiveWindowStats s = empty_window"
    "adaptiveCurrentMode s = Aggressive"
  shows "adaptive_tick example_config stalled_cycle s = adaptiveAdvanceWindow example_config (sampled s)"
    and "window_closes (sampled s)"
    and "closing_class example_config (sampled s) = SerializedMemoryDominated"
proof -
  have w: "cycles (adaptiveWindowStats (sampled s)) = 1"
    "commitBlockedMemCycles (adaptiveWindowStats (sampled s)) = 1"
    "outstandingMissSamples (adaptiveWindowStats (sampled s)) = 1"
    by (simp_all add: sampled_def adaptiveRecordCycleSignals_def Let_def stalled_cycle_def
        adaptiveNoteFetchedInst_def adaptiveNoteSquashedInst_def assms(2) empty_window_def)
  have m: "adaptiveCurrentMode (sampled s) = Aggressive" "adaptiveWindowCycles (sampled s) = 1"
    using assms(1,3) by (simp_all add: sampled_def)
  show "adaptive_tick example_config stalled_cycle s = adaptiveAdvanceWindow example_config (sampled s)"
    by (simp add: adaptive_tick_def sampled_def Let_def)
  show "window_closes (sampled s)" by (simp add: window_closes_def w m)
  show "closing_class example_config (sampled s) = SerializedMemoryDominated"
    by (simp add: closing_class_def adaptiveClassifyWindow_def Let_def w m
        mem_block_ratio_raw_def avg_outstanding_misses_raw_def safeRatio_def per_cycle_def)
qed

lemma sampled_frame [simp]:
  "adaptivePendingClass (sampled s) = adaptivePendingClass s"
  "adaptivePendingClassCount (sampled s) = adaptivePendingClassCount s"
  "adaptiveWindowsInMode (sampled s) = adaptiveWindowsInMode s"
  "adaptiveCurrentMode (sampled s) = adaptiveCurrentMode s"
  "adaptiveWindowId (sampled s) = adaptiveWindowId s"
  "adaptiveWindowLog (sampled s) = adaptiveWindowLog s"
  "adaptiveWindowCycles (sampled s) = adaptiveWindowCycles s"
  by (simp_all add: sampled_def)

lemma stalled_tick_effect:
  assumes "adaptiveWindowCycles s = 1" "adaptiveWindowStats s = empty_window"
    "adaptiveCurrentMode s = Aggressive"
  defines "t \<equiv> adaptive_tick example_config stalled_cycle s"
    and "ok \<equiv> switch_allowed example_config SerializedMemoryDominated s"
  shows "adaptiveWindowStats t = empty_window" "adaptiveWindowCycles t = 1"
    "adaptiveWindowId t = adaptiveWindowId s + 1"
    "adaptivePendingClass t = SerializedMemoryDominated"
    "adaptiveCurrentClass t = SerializedMemoryDominated"
    "adaptivePendingClassCount t = new_pending_count SerializedMemoryDominated s"
    "adaptiveCurrentMode t = (if ok then Conservative else Aggressive)"
    "adaptiveWindowsInMode t = (if ok then 0 else adaptiveWindowsInMode s + 1)"
    "map row_switched (adaptiveWindowLog t) = map row_switched (adaptiveWindowLog s) @ [ok]"
proof -
  note st = stalled_tick [OF assms(1-3)]
  have ok: "switch_allowed example_config SerializedMemoryDominated (sampled s) = ok"
    and np: "new_pending_count SerializedMemoryDominated (sampled s)
      = new_pending_count SerializedMemoryDominated s"
    by (simp_all add: ok_def switch_allowed_def new_pending_count_def)
  have t: "t = adaptiveAdvanceWindow example_config (sampled s)" by (simp only: t_def st(1))
  note cl = advance_closed [OF st(2), of example_config, unfolded st(3) ok np, folded t]
  have target: "adaptiveMapClassToMode example_config SerializedMemoryDominated = Conservative"
    by (simp add: adaptiveMapClassToMode_def)
  obtain r where r: "adaptiveWindowLog t = adaptiveWindowLog s @ [r]" "row_switched r = ok"
    using advance_log [OF st(2), of example_config] unfolding st(3) ok sampled_frame
      t [symmetric] by blast
  show "map row_switched (adaptiveWindowLog t) = map row_switched (adaptiveWindowLog s) @ [ok]"
    by (simp add: r)
  show "adaptiveWindowCycles t = 1"
    using assms(1) by (simp add: t_def st(1) advance_unfold [OF st(2)] autosize_off)
  show "adaptiveWindowStats t = empty_window" "adaptivePendingClass t = SerializedMemoryDominated"
    "adaptiveCurrentClass t = SerializedMemoryDominated"
    "adaptivePendingClassCount t = new_pending_count SerializedMemoryDominated s"
    by (simp_all only: cl)
  show "adaptiveWindowId t = adaptiveWindowId s + 1"
    "adaptiveWindowsInMode t = (if ok then 0 else adaptiveWindowsInMode s + 1)"
    "adaptiveCurrentMode t = (if ok then Conservative else Aggressive)"
    by (simp_all only: cl sampled_frame target assms(3))
qed

lemma initial_values:
  "adaptiveWindowCycles (adaptive_init 1) = 1" "adaptiveWindowStats (adaptive_init 1) = empty_window"
  "adaptiveCurrentMode (adaptive_init 1) = Aggressive"
  "adaptivePendingClass (adaptive_init 1) = ResourceContentionDominated"
  "adaptiveWindowsInMode (adaptive_init 1) = 0" "adaptiveWindowId (adaptive_init 1) = 0"
  "adaptiveWindowLog (adaptive_init 1) = []"
  by (simp_all add: adaptive_init_def)

lemmas first_stall = stalled_tick_effect [OF initial_values(1-3)]

lemma no_first_switch: "\<not> switch_allowed example_config SerializedMemoryDominated (adaptive_init 1)"
  by (simp add: switch_allowed_def new_pending_count_def initial_values word_le_nat_alt)

lemma one_stall_values:
  "adaptiveCurrentMode one_stall = Aggressive" "adaptiveWindowId one_stall = 1"
  "adaptivePendingClassCount one_stall = 1" "adaptiveWindowsInMode one_stall = 1"
  "map row_switched (adaptiveWindowLog one_stall) = [False]"
  by (simp_all add: first_stall no_first_switch initial_values new_pending_count_def)

lemmas second_stall = stalled_tick_effect [OF first_stall(2,1) one_stall_values(1)]

lemma second_switch: "switch_allowed example_config SerializedMemoryDominated one_stall"
  by (simp add: switch_allowed_def new_pending_count_def one_stall_values first_stall(4)
      adaptiveMapClassToMode_def word_le_nat_alt)

lemma two_stalls_values:
  "map row_switched (adaptiveWindowLog two_stalls) = [False, True]"
  "adaptiveCurrentMode two_stalls = Conservative"
  "adaptiveCurrentClass two_stalls = SerializedMemoryDominated"
  "adaptiveWindowId two_stalls = 2"
  by (simp_all add: second_stall second_switch one_stall_values)

lemma two_stalls_reachable: "adaptive_reachable example_config 1 two_stalls"
  by (intro adaptive_reachable.intros)

lemma two_stalls_log:
  "length (adaptiveWindowLog two_stalls) = 2" "row_switched (adaptiveWindowLog two_stalls ! 1)"
proof -
  show len: "length (adaptiveWindowLog two_stalls) = 2"
    using arg_cong [OF two_stalls_values(1), of length] by simp
  have "map row_switched (adaptiveWindowLog two_stalls) ! 1" by (simp add: two_stalls_values(1))
  with len show "row_switched (adaptiveWindowLog two_stalls ! 1)" by simp
qed

theorem log_hysteresis_witness:
  "adaptive_reachable example_config 1 two_stalls \<and> row_switched (adaptiveWindowLog two_stalls ! 1)
    \<and> row_class (adaptiveWindowLog two_stalls ! 0) = row_class (adaptiveWindowLog two_stalls ! 1)"
proof -
  have "1 < length (adaptiveWindowLog two_stalls)" "length (adaptiveWindowLog two_stalls) < 2 ^ 64"
    by (simp_all add: two_stalls_log)
  note ok = log_hysteresis [OF two_stalls_reachable this(2,1) two_stalls_log(2)]
  have "row_class (adaptiveWindowLog two_stalls ! 0) = row_class (adaptiveWindowLog two_stalls ! 1)"
    by (rule ok [THEN conjunct2, THEN conjunct1, rule_format]) simp
  with two_stalls_reachable two_stalls_log(2) show ?thesis by blast
qed

theorem serialized_switch_witness:
  "adaptiveCurrentMode two_stalls = Conservative
    \<and> adaptiveCurrentMode (adaptive_run example_config [stalled_cycle, ([], snd stalled_cycle)] two_stalls)
      = Conservative"
proof -
  have "adaptiveCurrentMode
      (adaptive_run example_config [stalled_cycle, ([], snd stalled_cycle)] two_stalls) = Conservative"
    using serialized_switch_is_permanent [OF _ one_stall_values(1) refl two_stalls_values(2,3),
        of "[stalled_cycle, ([], snd stalled_cycle)]"]
    by (simp add: two_stalls_values(4))
  with two_stalls_values(2) show ?thesis by blast
qed

theorem fetch_width_witness:
  "1 \<le> adaptiveAggressiveFetch example_config
    \<and> adaptiveFetchWidth example_config (adaptive_init 5000) \<le> 8"
  using fetch_width_bounds [of example_config "adaptive_init 5000"]
  by (simp add: adaptive_init_def)

theorem rename_dispatch_width_witness:
  "(1::unsigned) \<le> 8 \<and> adaptiveRenameWidth example_config (adaptive_init 5000) 8 \<le> 8
    \<and> 1 \<le> adaptiveDispatchWidth example_config (adaptive_init 5000) 8"
  using rename_dispatch_width_bounds [of 8 example_config "adaptive_init 5000"] by simp


theorem disabled_controller_witness:
  "adaptive_tick (example_config\<lparr>adaptiveEnable := False\<rparr>) stalled_cycle (adaptive_init 5000)
    = adaptive_init 5000"
  using disabled_controller_is_inert [of "example_config\<lparr>adaptiveEnable := False\<rparr>"] by simp

theorem windows_witness:
  "length (adaptiveWindowLog (adaptive_run example_config (replicate 7 stalled_cycle) (adaptive_init 3)))
    = 2"
  using windows_of_fixed_length [of example_config 3 "replicate 7 stalled_cycle"] by simp

theorem window_ratios_witness:
  "adaptive_reachable example_config 1 two_stalls
    \<and> list_all row_ok (adaptiveWindowLog two_stalls)"
  using window_ratios_in_unit_interval [OF two_stalls_reachable] two_stalls_reachable
  by (simp add: list_all_iff)



end
