(* ===== verification/TimeBuffer.thy ===== *)
theory TimeBuffer
  imports Prelude
begin

text \<open>
  The time buffer of \<^verbatim>\<open>src/cpu/timebuf.hh\<close>: a ring of \<open>past + future + 1\<close> slots that the stages of
  the CPU communicate through. Slot \<open>0\<close> is the current cycle, negative slots are past cycles
  and positive slots future ones.

  The storage is the list \<open>tb_index\<close> (the pointers of the vector \<open>index\<close> never change, so the
  object behind each pointer stands for it), and \<open>dflt\<close> is the value a slot has after the
  \<open>memset\<close> and the constructor of the element type. The locale \<open>time_buffer\<close> is the contract
  the clients rely on.
\<close>

record 'a TimeBuffer =
  past :: int
  future :: int
  tb_size :: unsigned
  tb_index :: "'a list"
  tb_base :: unsigned

definition TimeBuffer_new :: "'a \<Rightarrow> int \<Rightarrow> int \<Rightarrow> 'a TimeBuffer result" where
  "TimeBuffer_new dflt p f =
    (let sz = word_of_int (p + f + 1) in
     checked (p \<ge> 0 \<and> f \<ge> 0) AssertFailed
       (Inr \<lparr>past = p, future = f, tb_size = sz, tb_index = replicate (unat sz) dflt,
             tb_base = 0\<rparr>))"

definition valid :: "int \<Rightarrow> 'a TimeBuffer \<Rightarrow> bool" where
  "valid idx b \<longleftrightarrow> - past b \<le> idx \<and> idx \<le> future b"

definition calculateVectorIndex :: "int \<Rightarrow> 'a TimeBuffer \<Rightarrow> int result" where
  "calculateVectorIndex idx b =
    checked (valid idx b) AssertFailed
      (let vector_index = sint (word_of_int idx + tb_base b) in
       Inr (if vector_index \<ge> sint (tb_size b)
            then sint (word_of_int vector_index - tb_size b)
            else if vector_index < 0 then sint (word_of_int vector_index + tb_size b)
            else vector_index))"

definition in_index :: "int \<Rightarrow> 'a TimeBuffer \<Rightarrow> bool" where
  "in_index v b \<longleftrightarrow> 0 \<le> v \<and> nat v < length (tb_index b)"

text \<open>Reading and writing through the reference \<open>operator[]\<close> or \<open>access\<close> returns.\<close>

definition access :: "int \<Rightarrow> 'a TimeBuffer \<Rightarrow> 'a result" where
  "access idx b =
    bindE (calculateVectorIndex idx b)
      (\<lambda>v. checked (in_index v b) UndefinedBehaviour (Inr (tb_index b ! nat v)))"

definition tb_write :: "int \<Rightarrow> 'a \<Rightarrow> 'a TimeBuffer \<Rightarrow> 'a TimeBuffer result" where
  "tb_write idx x b =
    bindE (calculateVectorIndex idx b)
      (\<lambda>v. checked (in_index v b) UndefinedBehaviour
        (Inr (b\<lparr>tb_index := (tb_index b)[nat v := x]\<rparr>)))"

definition advance :: "'a \<Rightarrow> 'a TimeBuffer \<Rightarrow> 'a TimeBuffer result" where
  "advance dflt b =
    (let nbase = (if tb_base b + 1 \<ge> tb_size b then 0 else tb_base b + 1);
         p0 = sint (nbase + word_of_int (future b));
         p = (if p0 \<ge> sint (tb_size b) then sint (word_of_int p0 - tb_size b) else p0)
     in checked (in_index p b) UndefinedBehaviour
          (Inr (b\<lparr>tb_base := nbase, tb_index := (tb_index b)[nat p := dflt]\<rparr>)))"

definition getSize :: "'a TimeBuffer \<Rightarrow> unsigned" where
  "getSize b = tb_size b"

text \<open>
  A \<open>wire\<close> is a relative index into a buffer; every way of moving it goes through \<open>set\<close>, which
  asserts that the new index is a slot of the buffer.
\<close>

definition wire_set :: "'a TimeBuffer \<Rightarrow> int \<Rightarrow> int result" where
  "wire_set b idx = checked (valid idx b) AssertFailed (Inr idx)"

definition getWire :: "'a TimeBuffer \<Rightarrow> int \<Rightarrow> int result" where
  "getWire b idx = checked (valid idx b) AssertFailed (Inr idx)"

definition wire_plus :: "'a TimeBuffer \<Rightarrow> int \<Rightarrow> int \<Rightarrow> int result" where
  "wire_plus b w off = wire_set b (w + off)"

definition wire_minus :: "'a TimeBuffer \<Rightarrow> int \<Rightarrow> int \<Rightarrow> int result" where
  "wire_minus b w off = wire_set b (w - off)"

definition wire_read :: "'a TimeBuffer \<Rightarrow> int \<Rightarrow> 'a result" where
  "wire_read b w = access w b"

subsection \<open>Well-formed buffers\<close>

definition tb_wf :: "'a TimeBuffer \<Rightarrow> bool" where
  "tb_wf b \<longleftrightarrow>
    0 \<le> past b \<and> 0 \<le> future b \<and> past b + future b + 1 < 2 ^ 30
    \<and> uint (tb_size b) = past b + future b + 1
    \<and> int (length (tb_index b)) = past b + future b + 1
    \<and> uint (tb_base b) < past b + future b + 1"

text \<open>The ring index the relative slot \<open>i\<close> lives at.\<close>

definition ring_pos :: "int \<Rightarrow> 'a TimeBuffer \<Rightarrow> nat" where
  "ring_pos i b = nat ((i + uint (tb_base b)) mod (past b + future b + 1))"

lemma uint_small_mod: "0 \<le> i \<Longrightarrow> i < 2 ^ 32 \<Longrightarrow> uint (word_of_int i :: 32 word) = i"
  by (simp add: unsigned_of_int take_bit_int_eq_self)

lemma sint_eq_uint_32:
  assumes "uint (w :: 32 word) < 2 ^ 31"
  shows "sint w = uint w"
proof -
  have "- (2 ^ 31) \<le> uint w" by (rule order_trans [OF _ uint_ge_0]) simp
  then show ?thesis using sint_word_of_int_32 [of "uint w"] assms by simp
qed

lemma calculateVectorIndex_wf:
  assumes "tb_wf b" and "valid i b"
  shows "calculateVectorIndex i b = Inr (int (ring_pos i b)) \<and> ring_pos i b < length (tb_index b)"
proof -
  define n where "n = past b + future b + 1"
  define u where "u = uint (tb_base b)"
  have n: "0 < n" "n < 2 ^ 30" "- n < i" "i < n" "0 \<le> u" "u < n"
    "uint (tb_size b) = n" "int (length (tb_index b)) = n"
    using assms by (auto simp: tb_wf_def valid_def n_def u_def)
  have size: "sint (tb_size b) = n" using n by (simp add: sint_eq_uint_32)
  have size': "tb_size b = word_of_int n" using n(7) by (metis word_of_int_uint)
  have base: "word_of_int i + tb_base b = word_of_int (i + u)" by (simp add: u_def)
  have vi: "sint (word_of_int i + tb_base b) = i + u"
    unfolding base using n by (intro sint_word_of_int_32) simp_all
  have lo: "sint (word_of_int (i + u) - tb_size b) = i + u - n"
    unfolding size' of_int_diff [symmetric] using n by (intro sint_word_of_int_32) simp_all
  have hi: "sint (word_of_int (i + u) + tb_size b) = i + u + n" if "i + u < 0"
    unfolding size' of_int_add [symmetric] using n that by (intro sint_word_of_int_32) simp_all
  have mod_n: "(i + u) mod n =
    (if i + u \<ge> n then i + u - n else if i + u < 0 then i + u + n else i + u)"
    using n by (intro mod_ring) simp_all
  have pos: "0 \<le> (i + u) mod n" "(i + u) mod n < n" using n(1) by simp_all
  have "calculateVectorIndex i b = Inr ((i + u) mod n)"
    using assms(2) vi lo hi size mod_n by (simp add: calculateVectorIndex_def Let_def)
  moreover have "nat ((i + u) mod n) < length (tb_index b)"
    using pos n(8) by (simp only: nat_less_iff)
  ultimately show ?thesis
    using pos(1) by (simp add: ring_pos_def n_def [symmetric] u_def [symmetric])
qed

lemma ring_pos_inj:
  assumes "tb_wf b" and "valid i b" and "valid j b" and "ring_pos i b = ring_pos j b"
  shows "i = j"
proof -
  define n where "n = past b + future b + 1"
  have "0 < n" and d: "\<bar>i - j\<bar> < n" using assms(1-3) by (auto simp: tb_wf_def valid_def n_def)
  then have "(i + uint (tb_base b)) mod n = (j + uint (tb_base b)) mod n"
    using assms(4) by (simp add: ring_pos_def n_def [symmetric] nat_eq_iff)
  then have "n dvd i - j" by (simp add: mod_eq_dvd_iff)
  with d show ?thesis using zdvd_not_zless [of "\<bar>i - j\<bar>" n] by (cases "i = j") auto
qed

lemma access_wf:
  "tb_wf b \<Longrightarrow> valid i b \<Longrightarrow> access i b = Inr (tb_index b ! ring_pos i b)"
  using calculateVectorIndex_wf [of b i] by (simp add: access_def in_index_def)

lemma access_invalid: "\<not> valid i b \<Longrightarrow> access i b = Inl AssertFailed"
  by (simp add: access_def calculateVectorIndex_def)

lemma tb_write_wf:
  "tb_wf b \<Longrightarrow> valid i b \<Longrightarrow>
    tb_write i x b = Inr (b\<lparr>tb_index := (tb_index b)[ring_pos i b := x]\<rparr>)"
  using calculateVectorIndex_wf [of b i] by (simp add: tb_write_def in_index_def)

lemma advance_wf:
  assumes "tb_wf b"
  shows "\<exists>b'. advance dflt b = Inr b' \<and> tb_wf b' \<and> past b' = past b \<and> future b' = future b
    \<and> (\<forall>j. ring_pos j b' = ring_pos (j + 1) b)
    \<and> tb_index b' = (tb_index b)[ring_pos (future b) b' := dflt]"
proof -
  define n where "n = past b + future b + 1"
  define u where "u = uint (tb_base b)"
  define nb where "nb = (if tb_base b + 1 \<ge> tb_size b then 0 else tb_base b + 1)"
  have n: "0 < n" "n < 2 ^ 30" "0 \<le> u" "u < n" "0 \<le> future b" "future b < n"
    "uint (tb_size b) = n" "int (length (tb_index b)) = n"
    using assms by (auto simp: tb_wf_def n_def u_def)
  have size: "sint (tb_size b) = n" using n by (simp add: sint_eq_uint_32)
  have size': "tb_size b = word_of_int n" using n(7) by (metis word_of_int_uint)
  have succ: "uint (tb_base b + 1) = u + 1"
  proof -
    have "tb_base b + 1 = word_of_int (u + 1)" by (simp add: u_def)
    then show ?thesis using n uint_small_mod [of "u + 1"] by simp
  qed
  have nb: "uint nb = (u + 1) mod n" "uint nb < n"
    using n succ mod_ring [of n "u + 1"] by (auto simp: nb_def word_le_def)
  define p0 where "p0 = sint (nb + word_of_int (future b))"
  have p0: "p0 = uint nb + future b"
  proof -
    have "nb + word_of_int (future b) = word_of_int (uint nb + future b)" by simp
    moreover have "sint (word_of_int (uint nb + future b) :: 32 word) = uint nb + future b"
    proof (rule sint_word_of_int_32)
      show "- (2 ^ 31) \<le> uint nb + future b"
        by (rule order_trans [OF _ add_nonneg_nonneg [OF uint_ge_0 n(5)]]) simp
    qed (use n nb(2) in simp)
    ultimately show ?thesis by (simp only: p0_def)
  qed
  define p where "p = (if p0 \<ge> n then sint (word_of_int p0 - tb_size b) else p0)"
  have "sint (word_of_int p0 - tb_size b) = p0 - n" if "p0 \<ge> n"
    unfolding size' of_int_diff [symmetric] using n nb(2) p0 that by (intro sint_word_of_int_32) simp_all
  then have p: "p = (future b + uint nb) mod n"
    using p0 n nb(2) uint_ge_0 [of nb] mod_ring [of n "future b + uint nb"]
    by (simp add: p_def add.commute)
  define b' where "b' = b\<lparr>tb_base := nb, tb_index := (tb_index b)[nat p := dflt]\<rparr>"
  have range: "0 \<le> p" "p < n" using p n(1) by simp_all
  have "advance dflt b = Inr b'"
    using range n(8) unfolding advance_def nb_def [symmetric] Let_def p0_def [symmetric] size
      p_def [symmetric] b'_def by (simp add: in_index_def nat_less_iff)
  moreover have "tb_wf b'"
    using assms nb unfolding tb_wf_def b'_def n_def by simp
  moreover have "ring_pos j b' = ring_pos (j + 1) b" for j
  proof -
    have "j + (u + 1) = j + 1 + u" by simp
    then have "(j + (u + 1) mod n) mod n = (j + 1 + u) mod n" by (simp only: mod_add_right_eq)
    then show ?thesis using nb(1) by (simp add: ring_pos_def b'_def n_def u_def)
  qed
  moreover have "nat p = ring_pos (future b) b'"
    by (simp add: ring_pos_def b'_def p n_def)
  moreover have "past b' = past b" "future b' = future b" "tb_index b' = (tb_index b)[nat p := dflt]"
    by (simp_all add: b'_def)
  ultimately show ?thesis by (intro exI [of _ b'] conjI allI) simp_all
qed

subsection \<open>The contract of a time buffer\<close>

text \<open>
  What the clients rely on: reads and writes succeed on the slots of the buffer, a write
  changes its own slot only, and an advance moves every slot one cycle into the past and
  opens a fresh slot at the far end of the future.
\<close>

locale time_buffer =
  fixes wf :: "'b \<Rightarrow> bool" and lo hi :: "'b \<Rightarrow> int"
    and get :: "int \<Rightarrow> 'b \<Rightarrow> 'a result" and put :: "int \<Rightarrow> 'a \<Rightarrow> 'b \<Rightarrow> 'b result"
    and adv :: "'b \<Rightarrow> 'b result" and fresh :: 'a
  assumes window: "wf b \<Longrightarrow> 0 \<le> lo b \<and> 0 \<le> hi b"
    and get_total: "wf b \<Longrightarrow> - lo b \<le> i \<Longrightarrow> i \<le> hi b \<Longrightarrow> \<exists>x. get i b = Inr x"
    and put_law: "wf b \<Longrightarrow> - lo b \<le> i \<Longrightarrow> i \<le> hi b \<Longrightarrow>
      \<exists>b'. put i x b = Inr b' \<and> wf b' \<and> lo b' = lo b \<and> hi b' = hi b
        \<and> (\<forall>j. - lo b \<le> j \<and> j \<le> hi b \<longrightarrow> get j b' = (if j = i then Inr x else get j b))"
    and adv_law: "wf b \<Longrightarrow>
      \<exists>b'. adv b = Inr b' \<and> wf b' \<and> lo b' = lo b \<and> hi b' = hi b \<and> get (hi b) b' = Inr fresh
        \<and> (\<forall>j. - lo b \<le> j \<and> j < hi b \<longrightarrow> get j b' = get (j + 1) b)"
begin

lemma adv_iter:
  assumes "wf b"
  shows "\<exists>b'. iterE adv k b = Inr b' \<and> wf b' \<and> lo b' = lo b \<and> hi b' = hi b
    \<and> (\<forall>j. - lo b \<le> j \<and> j \<le> hi b \<longrightarrow>
          get j b' = (if j + int k \<le> hi b then get (j + int k) b else Inr fresh))"
  using assms
proof (induction k arbitrary: b)
  case (Suc k)
  from adv_law [OF Suc.prems] obtain b1 where b1: "adv b = Inr b1" "wf b1" "lo b1 = lo b"
    "hi b1 = hi b" "get (hi b) b1 = Inr fresh"
    "\<And>j. - lo b \<le> j \<Longrightarrow> j < hi b \<Longrightarrow> get j b1 = get (j + 1) b" by auto
  from Suc.IH [OF b1(2)] obtain b2 where b2: "iterE adv k b1 = Inr b2" "wf b2" "lo b2 = lo b"
    "hi b2 = hi b" "\<And>j. - lo b \<le> j \<Longrightarrow> j \<le> hi b \<Longrightarrow>
      get j b2 = (if j + int k \<le> hi b then get (j + int k) b1 else Inr fresh)"
    using b1 by auto
  have "get j b2 = (if j + int (Suc k) \<le> hi b then get (j + int (Suc k)) b else Inr fresh)"
    if "- lo b \<le> j" "j \<le> hi b" for j
    using that b2(5) b1(6) [of "j + int k"] b1(5)
    by (cases "j + int k = hi b") (auto simp: ac_simps)
  with b1 b2 show ?case by auto
qed auto

text \<open>A value put into slot \<open>i\<close> is what slot \<open>i - k\<close> holds \<open>k\<close> cycles later.\<close>

lemma put_delay:
  assumes "wf b" and "i \<le> hi b" and "- lo b \<le> i - int k"
  shows "\<exists>b1 b2. put i x b = Inr b1 \<and> iterE adv k b1 = Inr b2 \<and> get (i - int k) b2 = Inr x"
proof -
  from put_law [OF assms(1), of i x] assms(2,3) obtain b1 where b1: "put i x b = Inr b1" "wf b1"
    "lo b1 = lo b" "hi b1 = hi b" "get i b1 = Inr x" by auto
  from adv_iter [OF b1(2), of k] b1 assms(2,3) show ?thesis by auto
qed

lemma adv_flush:
  assumes "wf b" and "lo b + hi b < int k"
  shows "\<exists>b'. iterE adv k b = Inr b' \<and> (\<forall>j. - lo b \<le> j \<and> j \<le> hi b \<longrightarrow> get j b' = Inr fresh)"
  using adv_iter [OF assms(1), of k] assms(2) by force

text \<open>The number of slots that hold a value with a property.\<close>

definition slot_count :: "('a \<Rightarrow> bool) \<Rightarrow> 'b \<Rightarrow> int" where
  "slot_count P b = (\<Sum>i = - lo b..hi b. of_bool (\<exists>x. get i b = Inr x \<and> P x))"

lemma slot_count_nonneg: "0 \<le> slot_count P b"
  by (simp add: slot_count_def sum_nonneg)

lemma slot_count_put:
  assumes "wf b" and "- lo b \<le> i" and "i \<le> hi b" and "put i x b = Inr b'" and "get i b = Inr y"
  shows "slot_count P b' = slot_count P b - of_bool (P y) + of_bool (P x)"
proof -
  from put_law [OF assms(1-3), of x] assms(4) have b': "lo b' = lo b" "hi b' = hi b"
    "\<And>j. - lo b \<le> j \<Longrightarrow> j \<le> hi b \<Longrightarrow> get j b' = (if j = i then Inr x else get j b)" by auto
  have i: "i \<in> {- lo b..hi b}" using assms(2,3) by simp
  have rest: "(\<Sum>j \<in> {- lo b..hi b} - {i}. of_bool (\<exists>x. get j b' = Inr x \<and> P x)) =
    (\<Sum>j \<in> {- lo b..hi b} - {i}. of_bool (\<exists>x. get j b = Inr x \<and> P x) :: int)"
    by (rule sum.cong) (auto simp: b'(3))
  show ?thesis
    unfolding slot_count_def b'(1,2) sum.remove [OF finite_atLeastAtMost_int i] rest
    using b'(3) [OF assms(2,3)] assms(5) by simp
qed

lemma slot_count_adv:
  assumes "wf b" and "adv b = Inr b'" and "get (- lo b) b = Inr y"
  shows "slot_count P b' = slot_count P b - of_bool (P y) + of_bool (P fresh)"
proof -
  from adv_law [OF assms(1)] assms(2) have b': "lo b' = lo b" "hi b' = hi b"
    "get (hi b) b' = Inr fresh"
    "\<And>j. - lo b \<le> j \<Longrightarrow> j < hi b \<Longrightarrow> get j b' = get (j + 1) b" by auto
  define g where "g b j = (of_bool (\<exists>x. get j b = Inr x \<and> P x) :: int)" for b j
  have w: "- lo b \<le> hi b" using window [OF assms(1)] by linarith
  have "(\<Sum>j = - lo b..hi b. g b' j) = g b' (hi b) + (\<Sum>j \<in> {- lo b..hi b} - {hi b}. g b' j)"
    using w by (intro sum.remove) simp_all
  also have "(\<Sum>j \<in> {- lo b..hi b} - {hi b}. g b' j) = (\<Sum>j \<in> {- lo b..hi b} - {- lo b}. g b j)"
    by (rule sum.reindex_bij_witness [where i = "\<lambda>j. j - 1" and j = "\<lambda>j. j + 1"])
       (auto simp: g_def b'(4))
  also have "\<dots> = (\<Sum>j = - lo b..hi b. g b j) - g b (- lo b)"
    using w by (simp add: sum.remove [of "{- lo b..hi b}" "- lo b"])
  finally show ?thesis
    using b'(3) assms(3) by (simp add: slot_count_def b'(1,2) g_def)
qed

end

interpretation tb: time_buffer tb_wf past future access tb_write "advance dflt" dflt
  for dflt :: 'a
proof
  fix b :: "'a TimeBuffer" and i :: int and x :: 'a
  assume wf: "tb_wf b"
  show "0 \<le> past b \<and> 0 \<le> future b" using wf by (simp add: tb_wf_def)
  show "\<exists>b'. advance dflt b = Inr b' \<and> tb_wf b' \<and> past b' = past b \<and> future b' = future b
    \<and> access (future b) b' = Inr dflt
    \<and> (\<forall>j. - past b \<le> j \<and> j < future b \<longrightarrow> access j b' = access (j + 1) b)"
  proof -
    from advance_wf [OF wf, of dflt] obtain b' where b': "advance dflt b = Inr b'" "tb_wf b'"
      "past b' = past b" "future b' = future b" "\<And>j. ring_pos j b' = ring_pos (j + 1) b"
      "tb_index b' = (tb_index b)[ring_pos (future b) b' := dflt]" by blast
    have v: "valid j b' = valid j b" for j using b' by (simp add: valid_def)
    have f: "valid (future b) b" using wf by (simp add: valid_def tb_wf_def)
    have len: "ring_pos (future b) b' < length (tb_index b)"
      using calculateVectorIndex_wf [OF b'(2), of "future b"] v f b'(6) by simp
    have "access j b' = access (j + 1) b" if "- past b \<le> j" "j < future b" for j
    proof -
      have j: "valid j b" "valid (j + 1) b" using that by (auto simp: valid_def)
      have "ring_pos j b' \<noteq> ring_pos (future b) b'"
        using ring_pos_inj [OF b'(2), of j "future b"] j f v that by auto
      with j b' v wf show ?thesis by (simp add: access_wf)
    qed
    with b' v f len show ?thesis by (auto simp: access_wf)
  qed
  assume "- past b \<le> i" and "i \<le> future b"
  then have i: "valid i b" by (simp add: valid_def)
  show "\<exists>x. access i b = Inr x" using access_wf [OF wf i] by blast
  show "\<exists>b'. tb_write i x b = Inr b' \<and> tb_wf b' \<and> past b' = past b \<and> future b' = future b
    \<and> (\<forall>j. - past b \<le> j \<and> j \<le> future b \<longrightarrow> access j b' = (if j = i then Inr x else access j b))"
  proof -
    define b' where "b' = b\<lparr>tb_index := (tb_index b)[ring_pos i b := x]\<rparr>"
    have wf': "tb_wf b'" using wf by (simp add: b'_def tb_wf_def)
    have rp: "ring_pos j b' = ring_pos j b" and v: "valid j b' = valid j b" for j
      by (simp_all add: ring_pos_def valid_def b'_def)
    have "access j b' = (if j = i then Inr x else access j b)" if "valid j b" for j
    proof (cases "j = i")
      case False
      then have "ring_pos j b \<noteq> ring_pos i b" using ring_pos_inj [OF wf that i] by blast
      then show ?thesis
        using access_wf [OF wf', of j] access_wf [OF wf that] that rp v False by (simp add: b'_def)
    next
      case True
      then show ?thesis
        using access_wf [OF wf', of j] that rp v calculateVectorIndex_wf [OF wf i]
        by (simp add: b'_def)
    qed
    with wf wf' i show ?thesis by (auto simp: tb_write_wf b'_def valid_def)
  qed
qed

lemma TimeBuffer_new_wf:
  assumes "0 \<le> p" and "0 \<le> f" and "p + f + 1 < 2 ^ 30"
  shows "\<exists>b. TimeBuffer_new dflt p f = Inr b \<and> tb_wf b \<and> past b = p \<and> future b = f
    \<and> (\<forall>i. - p \<le> i \<and> i \<le> f \<longrightarrow> access i b = Inr dflt)"
proof -
  have sz: "uint (word_of_int (p + f + 1) :: 32 word) = p + f + 1"
    using assms by (intro uint_small_mod) simp_all
  define b where "b = \<lparr>past = p, future = f, tb_size = word_of_int (p + f + 1),
    tb_index = replicate (unat (word_of_int (p + f + 1) :: 32 word)) dflt, tb_base = 0\<rparr>"
  have new: "TimeBuffer_new dflt p f = Inr b"
    using assms by (simp add: TimeBuffer_new_def b_def Let_def)
  have len: "unat (word_of_int (p + f + 1) :: 32 word) = nat (p + f + 1)"
    unfolding nat_uint_eq [symmetric] sz ..
  have wf: "tb_wf b"
    using assms sz len unfolding b_def tb_wf_def by simp
  have "access i b = Inr dflt" if "- p \<le> i" "i \<le> f" for i
  proof -
    have v: "valid i b" using that by (simp add: valid_def b_def)
    have "tb_index b ! ring_pos i b = dflt"
      using calculateVectorIndex_wf [OF wf v] by (simp add: b_def)
    then show ?thesis using access_wf [OF wf v] by simp
  qed
  with new wf show ?thesis by (auto simp: b_def)
qed

text \<open>
  C11. Pipeline latency. In a buffer made by the constructor, after any number \<open>m\<close> of cycles,
  what a stage writes to slot \<open>i\<close> is read from slot \<open>i - k\<close> exactly \<open>k\<close> cycles later, as long
  as that slot still exists; once \<open>past + future + 1\<close> cycles have passed every slot is fresh.
\<close>

theorem time_buffer_delay:
  assumes "0 \<le> p" and "0 \<le> f" and "p + f + 1 < 2 ^ 30" and "i \<le> f" and "- p \<le> i - int k"
  shows "\<exists>b b0 b1 b2 b3. TimeBuffer_new dflt p f = Inr b \<and> iterE (advance dflt) m b = Inr b0
    \<and> tb_write i x b0 = Inr b1 \<and> iterE (advance dflt) k b1 = Inr b2
    \<and> access (i - int k) b2 = Inr x
    \<and> iterE (advance dflt) (nat (p + f + 1)) b2 = Inr b3
    \<and> (\<forall>j. - p \<le> j \<and> j \<le> f \<longrightarrow> access j b3 = Inr dflt)"
proof -
  from TimeBuffer_new_wf [OF assms(1-3), of dflt] obtain b where b: "TimeBuffer_new dflt p f = Inr b"
    "tb_wf b" "past b = p" "future b = f" by blast
  from tb.adv_iter [OF b(2), of dflt m] b obtain b0 where b0: "iterE (advance dflt) m b = Inr b0"
    "tb_wf b0" "past b0 = p" "future b0 = f" by auto
  from tb.put_law [OF b0(2), of i x] b0 assms(4,5) obtain b1 where b1: "tb_write i x b0 = Inr b1"
    "tb_wf b1" "past b1 = p" "future b1 = f" by auto
  from tb.adv_iter [OF b1(2), of dflt k] b1 obtain b2 where b2: "iterE (advance dflt) k b1 = Inr b2"
    "tb_wf b2" "past b2 = p" "future b2 = f" by auto
  from tb.put_delay [OF b0(2), of i k x dflt] b0 b1 b2 assms(4,5)
  have "access (i - int k) b2 = Inr x" by auto
  moreover from tb.adv_flush [OF b2(2), of "nat (p + f + 1)" dflt] b2 assms(1,2)
  obtain b3 where "iterE (advance dflt) (nat (p + f + 1)) b2 = Inr b3"
    "\<forall>j. - p \<le> j \<and> j \<le> f \<longrightarrow> access j b3 = Inr dflt" by auto
  ultimately show ?thesis using b(1) b0(1) b1(1) b2(1) by blast
qed

theorem time_buffer_delay_witness:
  "\<exists>b b1 b2. TimeBuffer_new (0::int) 3 1 = Inr b \<and> tb_write 0 7 b = Inr b1
    \<and> iterE (advance 0) 2 b1 = Inr b2 \<and> access (- 2) b2 = Inr 7"
  using time_buffer_delay [of 3 1 0 2 0 0 7] by auto

end
