(* ===== verification/Activity.thy ===== *)
theory Activity
  imports TimeBuffer
begin

text \<open>
  The activity recorder of \<^verbatim>\<open>src/cpu/activity.cc\<close>, by which the CPU decides whether it may stop
  ticking: a time buffer of one bit per cycle, one bit per stage, and a count that should
  equal the number of bits set. The recorder is a client of the \<open>time_buffer\<close> contract.
  The proofs show that the count is exact in every run and that no assertion of the
  recorder can fail.
\<close>

record ActivityRecorder =
  activityBuffer :: "bool TimeBuffer"
  longestLatency :: int
  activityCount :: int
  numStages :: int
  stageActive :: "bool list"

definition ActivityRecorder_new :: "int \<Rightarrow> int \<Rightarrow> int \<Rightarrow> ActivityRecorder result" where
  "ActivityRecorder_new num_stages longest_latency activity =
    bindE (TimeBuffer_new False longest_latency 0)
      (\<lambda>b. Inr \<lparr>activityBuffer = b, longestLatency = longest_latency, activityCount = activity,
                numStages = num_stages, stageActive = replicate (nat num_stages) False\<rparr>)"

definition activity :: "ActivityRecorder \<Rightarrow> ActivityRecorder result" where
  "activity s =
    bindE (access 0 (activityBuffer s)) (\<lambda>x.
      if x then Inr s
      else bindE (tb_write 0 True (activityBuffer s)) (\<lambda>b.
        Inr (s\<lparr>activityBuffer := b, activityCount := activityCount s + 1\<rparr>)))"

definition ar_advance :: "ActivityRecorder \<Rightarrow> ActivityRecorder result" where
  "ar_advance s =
    bindE (access (- longestLatency s) (activityBuffer s)) (\<lambda>x.
      let cnt = (if x then activityCount s - 1 else activityCount s) in
      checked (x \<longrightarrow> cnt \<ge> 0) AssertFailed
        (bindE (advance False (activityBuffer s)) (\<lambda>b.
          Inr (s\<lparr>activityBuffer := b, activityCount := cnt\<rparr>))))"

definition activateStage :: "nat \<Rightarrow> ActivityRecorder \<Rightarrow> ActivityRecorder result" where
  "activateStage idx s =
    checked (idx < length (stageActive s)) UndefinedBehaviour
      (Inr (if \<not> stageActive s ! idx
            then s\<lparr>activityCount := activityCount s + 1, stageActive := (stageActive s)[idx := True]\<rparr>
            else s))"

definition deactivateStage :: "nat \<Rightarrow> ActivityRecorder \<Rightarrow> ActivityRecorder result" where
  "deactivateStage idx s =
    checked (idx < length (stageActive s)) UndefinedBehaviour
      (let s' = (if stageActive s ! idx
                 then s\<lparr>activityCount := activityCount s - 1,
                        stageActive := (stageActive s)[idx := False]\<rparr>
                 else s)
       in checked (activityCount s' \<ge> 0) AssertFailed (Inr s'))"

definition ar_reset :: "ActivityRecorder \<Rightarrow> ActivityRecorder result" where
  "ar_reset s =
    bindE (iterE (advance False) (nat (longestLatency s + 1)) (activityBuffer s)) (\<lambda>b.
      Inr (s\<lparr>activityBuffer := b, activityCount := 0,
             stageActive := replicate (nat (numStages s)) False\<rparr>))"

definition setActivityCount :: "int \<Rightarrow> ActivityRecorder \<Rightarrow> ActivityRecorder" where
  "setActivityCount count s = s\<lparr>activityCount := count\<rparr>"

definition ar_active :: "ActivityRecorder \<Rightarrow> bool" where
  "ar_active s \<longleftrightarrow> activityCount s \<noteq> 0"

text \<open>The count the two loops of \<open>validate\<close> compute, and its assertion.\<close>

definition count_true :: "(int \<Rightarrow> bool result) \<Rightarrow> int list \<Rightarrow> int \<Rightarrow> int result" where
  "count_true g = foldE (\<lambda>i c. bindE (g i) (\<lambda>x. Inr (if x then c + 1 else c)))"

definition validate_count :: "ActivityRecorder \<Rightarrow> int result" where
  "validate_count s =
    bindE (count_true (\<lambda>i. access (- i) (activityBuffer s)) [0..longestLatency s] 0)
      (count_true (\<lambda>i. checked (nat i < length (stageActive s)) UndefinedBehaviour
                         (Inr (stageActive s ! nat i)))
        [0..numStages s - 1])"

definition validate :: "ActivityRecorder \<Rightarrow> ActivityRecorder result" where
  "validate s = bindE (validate_count s) (\<lambda>c. checked (c = activityCount s) AssertFailed (Inr s))"

datatype ar_op = Activity | Advance | ActivateStage nat | DeactivateStage nat | Reset

fun ar_step :: "ar_op \<Rightarrow> ActivityRecorder \<Rightarrow> ActivityRecorder result" where
  "ar_step Activity = activity"
| "ar_step Advance = ar_advance"
| "ar_step (ActivateStage i) = activateStage i"
| "ar_step (DeactivateStage i) = deactivateStage i"
| "ar_step Reset = ar_reset"

fun stage_ok :: "int \<Rightarrow> ar_op \<Rightarrow> bool" where
  "stage_ok n (ActivateStage i) = (int i < n)"
| "stage_ok n (DeactivateStage i) = (int i < n)"
| "stage_ok n _ = True"

subsection \<open>The count is exact\<close>

definition busy_stages :: "ActivityRecorder \<Rightarrow> int" where
  "busy_stages s = int (length (filter id (stageActive s)))"

definition ar_inv :: "int \<Rightarrow> ActivityRecorder \<Rightarrow> bool" where
  "ar_inv extra s \<longleftrightarrow>
    tb_wf (activityBuffer s) \<and> past (activityBuffer s) = longestLatency s
    \<and> future (activityBuffer s) = 0 \<and> 0 \<le> numStages s
    \<and> int (length (stageActive s)) = numStages s \<and> 0 \<le> extra
    \<and> activityCount s = extra + tb.slot_count id (activityBuffer s) + busy_stages s"

lemma filter_id_update:
  assumes "i < length xs"
  shows "int (length (filter id (xs[i := b]))) =
    int (length (filter id xs)) - of_bool (xs ! i) + of_bool b"
  using assms
proof (induction xs arbitrary: i)
  case (Cons x xs)
  then show ?case by (cases i) auto
qed simp

lemma filter_id_pos: "i < length xs \<Longrightarrow> xs ! i \<Longrightarrow> 0 < length (filter id xs)"
  using nth_mem [of i xs] by (fastforce simp: filter_empty_conv)

lemma activity_inv:
  assumes "ar_inv e s"
  shows "\<exists>s'. activity s = Inr s' \<and> ar_inv e s' \<and> longestLatency s' = longestLatency s
    \<and> numStages s' = numStages s"
proof -
  have b: "tb_wf (activityBuffer s)" "- past (activityBuffer s) \<le> 0" "(0::int) \<le> future (activityBuffer s)"
    using assms by (auto simp: ar_inv_def tb_wf_def)
  from tb.get_total [OF b] obtain x where x: "access 0 (activityBuffer s) = Inr x" by blast
  from tb.put_law [OF b, of True] obtain b' where b': "tb_write 0 True (activityBuffer s) = Inr b'"
    "tb_wf b'" "past b' = past (activityBuffer s)" "future b' = future (activityBuffer s)" by auto
  show ?thesis
    using assms x b' tb.slot_count_put [OF b b'(1) x, of id]
    by (cases x) (auto simp: activity_def ar_inv_def busy_stages_def)
qed

lemma slot_count_ge_1:
  assumes "tb_wf b" and "- past b \<le> i" and "i \<le> future b" and "access i b = Inr True"
  shows "1 \<le> tb.slot_count id b"
proof -
  from tb.put_law [OF assms(1-3), of False] obtain b' where "tb_write i False b = Inr b'" by blast
  from tb.slot_count_put [OF assms(1-3) this assms(4), of id]
  show ?thesis using tb.slot_count_nonneg [of id b'] by simp
qed

lemma ar_advance_inv:
  assumes "ar_inv e s"
  shows "\<exists>s'. ar_advance s = Inr s' \<and> ar_inv e s' \<and> longestLatency s' = longestLatency s
    \<and> numStages s' = numStages s \<and> advance False (activityBuffer s) = Inr (activityBuffer s')
    \<and> stageActive s' = stageActive s"
proof -
  have b: "tb_wf (activityBuffer s)"
    "- past (activityBuffer s) \<le> - longestLatency s" "- longestLatency s \<le> future (activityBuffer s)"
    and p: "past (activityBuffer s) = longestLatency s"
    using assms by (auto simp: ar_inv_def tb_wf_def)
  from tb.get_total [OF b] obtain x where x: "access (- longestLatency s) (activityBuffer s) = Inr x"
    by blast
  from tb.adv_law [OF b(1), of False] obtain b' where b': "advance False (activityBuffer s) = Inr b'"
    "tb_wf b'" "past b' = past (activityBuffer s)" "future b' = future (activityBuffer s)" by blast
  have cnt: "tb.slot_count id b' = tb.slot_count id (activityBuffer s) - of_bool x"
    using tb.slot_count_adv [OF b(1) b'(1), of x id] x p by simp
  have "x \<longrightarrow> 1 \<le> activityCount s"
    using slot_count_ge_1 [OF b] x assms by (auto simp: ar_inv_def busy_stages_def)
  then show ?thesis
    using assms x b' cnt by (auto simp: ar_advance_def ar_inv_def busy_stages_def Let_def)
qed

lemma activateStage_inv:
  assumes "ar_inv e s" and "int i < numStages s"
  shows "\<exists>s'. activateStage i s = Inr s' \<and> ar_inv e s' \<and> longestLatency s' = longestLatency s
    \<and> numStages s' = numStages s"
  using assms filter_id_update [of i "stageActive s" True]
  by (auto simp: activateStage_def ar_inv_def busy_stages_def)

lemma deactivateStage_inv:
  assumes "ar_inv e s" and "int i < numStages s"
  shows "\<exists>s'. deactivateStage i s = Inr s' \<and> ar_inv e s' \<and> longestLatency s' = longestLatency s
    \<and> numStages s' = numStages s"
  using assms filter_id_update [of i "stageActive s" False] filter_id_pos [of i "stageActive s"]
    tb.slot_count_nonneg [of id "activityBuffer s"]
  by (auto simp: deactivateStage_def ar_inv_def busy_stages_def Let_def)

lemma slot_count_fresh:
  assumes "\<And>j. - past b \<le> j \<Longrightarrow> j \<le> future b \<Longrightarrow> access j b = Inr False"
  shows "tb.slot_count id b = 0"
  unfolding tb.slot_count_def using assms by (intro sum.neutral) auto

lemma ar_reset_inv:
  assumes "ar_inv e s"
  shows "\<exists>s'. ar_reset s = Inr s' \<and> ar_inv 0 s' \<and> longestLatency s' = longestLatency s
    \<and> numStages s' = numStages s"
proof -
  have b: "tb_wf (activityBuffer s)" "past (activityBuffer s) = longestLatency s"
    "future (activityBuffer s) = 0" "0 \<le> longestLatency s"
    using assms by (auto simp: ar_inv_def tb_wf_def)
  define k where "k = nat (longestLatency s + 1)"
  have k: "past (activityBuffer s) + future (activityBuffer s) < int k" using b by (simp add: k_def)
  from tb.adv_iter [OF b(1), of False k] tb.adv_flush [OF b(1) k, of False] obtain b' where
    b': "iterE (advance False) k (activityBuffer s) = Inr b'" "tb_wf b'"
    "past b' = longestLatency s" "future b' = 0"
    "\<And>j. - longestLatency s \<le> j \<Longrightarrow> j \<le> 0 \<Longrightarrow> access j b' = Inr False"
    using b(2,3) by auto
  then have "tb.slot_count id b' = 0" by (intro slot_count_fresh) auto
  then show ?thesis
    using assms b' by (auto simp: ar_reset_def ar_inv_def k_def [symmetric] busy_stages_def)
qed

lemma ar_step_inv:
  assumes "ar_inv e s" and "stage_ok (numStages s) op"
  shows "\<exists>s'. ar_step op s = Inr s' \<and> ar_inv (if op = Reset then 0 else e) s'
    \<and> longestLatency s' = longestLatency s \<and> numStages s' = numStages s"
  using assms activity_inv [of e s] ar_advance_inv [of e s] ar_reset_inv [of e s]
    activateStage_inv [of e s] deactivateStage_inv [of e s]
  by (cases op) auto

lemma ar_run_inv:
  assumes "ar_inv e s" and "list_all (stage_ok (numStages s)) ops"
  shows "\<exists>s'. foldE ar_step ops s = Inr s' \<and> ar_inv (if Reset \<in> set ops then 0 else e) s'
    \<and> longestLatency s' = longestLatency s \<and> numStages s' = numStages s"
  using assms
proof (induction ops arbitrary: s e)
  case (Cons op ops)
  then obtain s1 where s1: "ar_step op s = Inr s1" "ar_inv (if op = Reset then 0 else e) s1"
    "longestLatency s1 = longestLatency s" "numStages s1 = numStages s"
    using ar_step_inv [of e s op] by auto
  with Cons.IH [OF s1(2)] Cons.prems(2) show ?case by (auto split: if_splits)
qed simp

lemma ActivityRecorder_new_inv:
  assumes "0 \<le> n" and "0 \<le> lat" and "lat + 1 < 2 ^ 30" and "0 \<le> a"
  shows "\<exists>s. ActivityRecorder_new n lat a = Inr s \<and> ar_inv a s \<and> longestLatency s = lat
    \<and> numStages s = n"
proof -
  from TimeBuffer_new_wf [of lat 0 False] assms(2,3) obtain b where
    "TimeBuffer_new False lat 0 = Inr b" "tb_wf b" "past b = lat" "future b = 0"
    "\<And>i. - lat \<le> i \<Longrightarrow> i \<le> 0 \<Longrightarrow> access i b = Inr False" by auto
  then show ?thesis
    using slot_count_fresh [of b] assms(1,4)
    by (auto simp: ActivityRecorder_new_def ar_inv_def busy_stages_def)
qed

subsection \<open>What the debug check computes\<close>

lemma count_true_sum:
  assumes "\<And>i. i \<in> set is \<Longrightarrow> \<exists>x. g i = Inr x"
  shows "count_true g is c = Inr (c + (\<Sum>i\<leftarrow>is. of_bool (g i = Inr True)))"
  using assms
proof (induction "is" arbitrary: c)
  case (Cons i "is")
  then obtain x where "g i = Inr x" by auto
  with Cons show ?case by (cases x) (auto simp: count_true_def)
qed (simp add: count_true_def)

lemma sum_list_upto: "(\<Sum>i\<leftarrow>[a..b]. f i) = (\<Sum>i = a..b. f i :: int)"
  using sum_list_distinct_conv_sum_set [of "[a..b]" f] by simp

lemma sum_stages: "(\<Sum>i = 0..int (length xs) - 1. of_bool (xs ! nat i)) = int (length (filter id xs))"
proof -
  have "(\<Sum>i = 0..int (length xs) - 1. of_bool (xs ! nat i)) =
    (\<Sum>i<length xs. of_bool (xs ! i) :: int)"
    by (rule sum.reindex_bij_witness [where i = int and j = nat]) auto
  also have "\<dots> = (\<Sum>x\<leftarrow>xs. of_bool x)"
    by (simp add: sum_list_sum_nth atLeast0LessThan)
  also have "\<dots> = int (length (filter id xs))"
    by (induction xs) auto
  finally show ?thesis .
qed

lemma validate_count_inv:
  assumes "ar_inv e s"
  shows "validate_count s = Inr (tb.slot_count id (activityBuffer s) + busy_stages s)"
proof -
  define b where "b = activityBuffer s"
  have b: "tb_wf b" "past b = longestLatency s" "future b = 0" and
    st: "int (length (stageActive s)) = numStages s"
    using assms by (auto simp: ar_inv_def b_def)
  have slots: "count_true (\<lambda>i. access (- i) b) [0..longestLatency s] 0 =
    Inr (0 + (\<Sum>i\<leftarrow>[0..longestLatency s]. of_bool (access (- i) b = Inr True)))"
    using tb.get_total [OF b(1)] b by (intro count_true_sum) auto
  have "(\<Sum>i = 0..longestLatency s. of_bool (access (- i) b = Inr True)) = tb.slot_count id b"
    unfolding tb.slot_count_def b(2,3)
    by (rule sum.reindex_bij_witness [where i = uminus and j = uminus]) auto
  then have slots': "count_true (\<lambda>i. access (- i) b) [0..longestLatency s] 0 =
    Inr (tb.slot_count id b)"
    using slots by (simp add: sum_list_upto)
  define g where "g i = checked (nat i < length (stageActive s)) UndefinedBehaviour
    (Inr (stageActive s ! nat i))" for i
  have g: "g i = Inr (stageActive s ! nat i)" if "0 \<le> i" "i \<le> numStages s - 1" for i
    using that st by (auto simp: g_def nat_less_iff checked_def)
  have "count_true g [0..numStages s - 1] c =
    Inr (c + (\<Sum>i\<leftarrow>[0..numStages s - 1]. of_bool (g i = Inr True)))" for c
    using g by (intro count_true_sum) auto
  moreover have "(\<Sum>i = 0..numStages s - 1. of_bool (g i = Inr True)) = busy_stages s"
    unfolding busy_stages_def sum_stages [symmetric] st using g by (intro sum.cong) auto
  ultimately have "count_true g [0..numStages s - 1] c = Inr (c + busy_stages s)" for c
    by (simp add: sum_list_upto)
  then show ?thesis
    using slots' by (simp add: validate_count_def b_def g_def [abs_def])
qed



lemma ar_advance_iter:
  assumes "ar_inv e s"
  shows "\<exists>s'. iterE ar_advance k s = Inr s' \<and> ar_inv e s'
    \<and> iterE (advance False) k (activityBuffer s) = Inr (activityBuffer s')
    \<and> longestLatency s' = longestLatency s \<and> stageActive s' = stageActive s"
  using assms
proof (induction k arbitrary: s)
  case (Suc k)
  from ar_advance_inv [OF Suc.prems] obtain s1 where s1: "ar_advance s = Inr s1" "ar_inv e s1"
    "advance False (activityBuffer s) = Inr (activityBuffer s1)" "stageActive s1 = stageActive s"
    "longestLatency s1 = longestLatency s" by blast
  with Suc.IH [OF s1(2)] show ?case by auto
qed simp

text \<open>
  C26. The CPU goes idle: after any run that started from count 0 and ended with every stage
  inactive, \<open>longestLatency + 1\<close> cycles without activity bring the count to 0, so the recorder
  reports that the CPU may be descheduled.
\<close>

theorem idle_after_latency:
  assumes "0 \<le> n" and "0 \<le> lat" and "lat + 1 < 2 ^ 30" and "list_all (stage_ok n) ops"
    and "ActivityRecorder_new n lat 0 = Inr s" and "foldE ar_step ops s = Inr s'"
    and "True \<notin> set (stageActive s')"
  shows "\<exists>s''. iterE ar_advance (nat (lat + 1)) s' = Inr s'' \<and> \<not> ar_active s''"
proof -
  have s: "ar_inv 0 s" "longestLatency s = lat" "numStages s = n"
    using ActivityRecorder_new_inv [OF assms(1-3), of 0] assms(5) by auto
  then have s': "ar_inv 0 s'" "longestLatency s' = lat"
    using ar_run_inv [OF s(1), of ops] assms(4,6) by auto
  define k where "k = nat (lat + 1)"
  from ar_advance_iter [OF s'(1), of k] obtain s2 where s2: "iterE ar_advance k s' = Inr s2"
    "ar_inv 0 s2" "iterE (advance False) k (activityBuffer s') = Inr (activityBuffer s2)"
    "longestLatency s2 = lat" "stageActive s2 = stageActive s'" using s'(2) by blast
  have w: "tb_wf (activityBuffer s')" "past (activityBuffer s') = lat" "future (activityBuffer s') = 0"
    using s' by (auto simp: ar_inv_def)
  have "tb.slot_count id (activityBuffer s2) = 0"
    using tb.adv_flush [OF w(1), of k False] s2(2-4) w assms(2)
    by (intro slot_count_fresh) (auto simp: ar_inv_def k_def)
  moreover have "busy_stages s2 = 0"
    using assms(7) s2(5) by (auto simp: busy_stages_def filter_empty_conv)
  ultimately show ?thesis using s2(1,2) by (auto simp: ar_inv_def ar_active_def k_def)
qed

theorem idle_after_latency_witness:
  "\<exists>s s' s''. ActivityRecorder_new 1 2 0 = Inr s \<and> foldE ar_step [Activity] s = Inr s'
    \<and> ar_active s' \<and> iterE ar_advance 3 s' = Inr s'' \<and> \<not> ar_active s''"
proof -
  define b :: "bool TimeBuffer" where
    "b = \<lparr>past = 2, future = 0, tb_size = 3, tb_index = [False, False, False], tb_base = 0\<rparr>"
  define s where "s = \<lparr>activityBuffer = b, longestLatency = 2, activityCount = 0, numStages = 1,
    stageActive = [False]\<rparr>"
  define s' where "s' = s\<lparr>activityBuffer := b\<lparr>tb_index := [True, False, False]\<rparr>, activityCount := 1\<rparr>"
  have s: "ActivityRecorder_new 1 2 0 = Inr s" unfolding s_def b_def by code_simp
  have s': "foldE ar_step [Activity] s = Inr s'" unfolding s'_def s_def b_def by code_simp
  have "ar_active s'" "True \<notin> set (stageActive s')" by (simp_all add: ar_active_def s'_def s_def)
  with idle_after_latency [of 1 2 "[Activity]", OF _ _ _ _ s s'] s s' show ?thesis by auto
qed

end
