(* ===== verification/IntMath.thy ===== *)
theory IntMath
  imports BitField
begin

unbundle bit_operations_syntax

text \<open>
  The integer helpers of \<^verbatim>\<open>src/base/intmath.hh\<close> at \<open>T = uint64_t\<close>: logarithms, powers of two,
  alignment, and the double-width products. A product is returned as \<open>(high, low)\<close>. The code
  has two versions of the 64-bit products, one over the compiler's 128-bit integers and a
  manual one in 32-bit halves; both are modelled and shown equal.
\<close>

definition fl2_step :: "uint64 \<Rightarrow> nat \<Rightarrow> int \<times> uint64 \<Rightarrow> int \<times> uint64" where
  "fl2_step m k = (\<lambda>(y, ux). if ux AND m \<noteq> 0 then (y + int k, drop_bit k ux) else (y, ux))"

definition floorLog2 :: "uint64 \<Rightarrow> int result" where
  "floorLog2 x =
    checked (x > 0) AssertFailed
      (let (y, ux) =
         fl2_step 0x000000000000000c 2 (fl2_step 0x00000000000000f0 4
           (fl2_step 0x000000000000ff00 8 (fl2_step 0x00000000ffff0000 16
             (fl2_step 0xffffffff00000000 32 (0, x)))))
       in Inr (if ux AND 0x0000000000000002 \<noteq> 0 then y + 1 else y))"

definition ceilLog2 :: "uint64 \<Rightarrow> int result" where
  "ceilLog2 n =
    checked (n > 0) AssertFailed
      (if n = 1 then Inr 0 else bindE (floorLog2 (n - 1)) (\<lambda>y. Inr (y + 1)))"

definition isPowerOf2 :: "uint64 \<Rightarrow> bool" where
  "isPowerOf2 n \<longleftrightarrow> n \<noteq> 0 \<and> n AND (n - 1) = 0"

definition divCeil :: "uint64 \<Rightarrow> uint64 \<Rightarrow> uint64 result" where
  "divCeil a b = checked (b \<noteq> 0) UndefinedBehaviour (Inr ((a + b - 1) div b))"

definition mulUnsigned32 :: "unsigned \<Rightarrow> unsigned \<Rightarrow> unsigned \<times> unsigned" where
  "mulUnsigned32 a b =
    (let product = (ucast a :: uint64) * ucast b in (ucast (drop_bit 32 product), ucast product))"

definition mulUnsignedManual :: "uint64 \<Rightarrow> uint64 \<Rightarrow> uint64 \<times> uint64" where
  "mulUnsignedManual val_a val_b =
    (let low = val_a * val_b;
         A = ucast (ucast (drop_bit 32 val_a) :: unsigned);
         a = ucast (ucast val_a :: unsigned);
         B = ucast (ucast (drop_bit 32 val_b) :: unsigned);
         b = ucast (ucast val_b :: unsigned);
         ab = a * b; Ab = A * b; aB = a * B; AB = A * B;
         c1 = ucast (ucast (drop_bit 32 ab) :: unsigned);
         c2 = drop_bit 1 c1 + drop_bit 1 Ab + drop_bit 1 aB;
         c2 = c2 + drop_bit 1 ((c1 AND 1) + (Ab AND 1) + (aB AND 1));
         c2 = drop_bit 31 c2
     in (AB + c2, low))"

definition mulUnsigned128 :: "uint64 \<Rightarrow> uint64 \<Rightarrow> uint64 \<times> uint64" where
  "mulUnsigned128 val_a val_b =
    (let val = (ucast val_a :: 128 word) * ucast val_b in (ucast (drop_bit 64 val), ucast val))"

text \<open>Signed operands and results are the words that represent them.\<close>

definition mulSignedManual :: "uint64 \<Rightarrow> uint64 \<Rightarrow> uint64 \<times> uint64" where
  "mulSignedManual val_a val_b =
    (let (u_high, u_low) = mulUnsigned128 val_a val_b;
         u_high = (if sint val_a < 0 then u_high - val_b else u_high);
         u_high = (if sint val_b < 0 then u_high - val_a else u_high)
     in (u_high, u_low))"

definition mulSigned128 :: "uint64 \<Rightarrow> uint64 \<Rightarrow> uint64 \<times> uint64" where
  "mulSigned128 val_a val_b =
    (let val = (scast val_a :: 128 word) * scast val_b
     in (word_of_int (sint val div 2 ^ 64), word_of_int (sint val)))"

definition roundUp :: "uint64 \<Rightarrow> uint64 \<Rightarrow> uint64 result" where
  "roundUp val align =
    checked (isPowerOf2 align) AssertFailed
      (let m = align - 1 in Inr ((val + m) AND NOT m))"

definition roundDown :: "uint64 \<Rightarrow> uint64 \<Rightarrow> uint64 result" where
  "roundDown val align =
    checked (isPowerOf2 align) AssertFailed
      (let m = align - 1 in Inr (val AND NOT m))"

definition log2i :: "unsigned \<Rightarrow> int result" where
  "log2i value =
    checked (isPowerOf2 (scast value) \<and> sint value > 0) AssertFailed (Inr (ctz32 value))"

subsection \<open>Logarithms\<close>

lemma fl2_step_msb:
  assumes "\<And>i. bit m i \<longleftrightarrow> k \<le> i \<and> i \<le> 2 * k - 1" and "0 < k" and "2 * k \<le> 64"
  shows "fl2_step m k = msb_step k"
proof -
  have "ux AND m \<noteq> 0 \<longleftrightarrow> nonzero_bits ux (of_nat (2 * k - 1)) (of_nat k)" for ux
  proof -
    have "ux AND m \<noteq> 0 \<longleftrightarrow> (\<exists>i. k \<le> i \<and> i \<le> 2 * k - 1 \<and> bit ux i)"
      by (auto simp: word_neq_0_bit bit_and_iff assms(1))
    also have "\<dots> \<longleftrightarrow> nonzero_bits ux (of_nat (2 * k - 1)) (of_nat k)"
      using assms(2,3) by (intro nonzero_bits_iff [symmetric]) simp_all
    finally show ?thesis .
  qed
  then show ?thesis by (simp add: fl2_step_def msb_step_def fun_eq_iff)
qed

lemma bit_shifted_mask:
  assumes "0 < k" and "2 * k \<le> 64"
  shows "bit (push_bit k (mask k) :: uint64) i \<longleftrightarrow> k \<le> i \<and> i \<le> 2 * k - 1"
  using assms by (auto simp: bit_push_bit_iff bit_mask_iff)

lemma floorLog2_findMsbSet:
  assumes "x \<noteq> 0"
  shows "floorLog2 x = Inr (findMsbSet x)"
proof -
  have m: "(0xffffffff00000000 :: uint64) = push_bit 32 (mask 32)"
    "(0x00000000ffff0000 :: uint64) = push_bit 16 (mask 16)"
    "(0x000000000000ff00 :: uint64) = push_bit 8 (mask 8)"
    "(0x00000000000000f0 :: uint64) = push_bit 4 (mask 4)"
    "(0x000000000000000c :: uint64) = push_bit 2 (mask 2)"
    "(0x0000000000000002 :: uint64) = push_bit 1 (mask 1)"
    by (simp_all add: mask_eq_exp_minus_1 push_bit_eq_mult)
  have s: "fl2_step (push_bit k (mask k)) k = msb_step k" if "0 < k" "2 * k \<le> 64" for k
    using that bit_shifted_mask by (intro fl2_step_msb) auto
  obtain y ux where r: "msb_step 2 (msb_step 4 (msb_step 8 (msb_step 16 (msb_step 32 (0, x))))) = (y, ux)"
    by fastforce
  have "(if ux AND push_bit 1 (mask 1) \<noteq> 0 then y + 1 else y) = fst (fl2_step (push_bit 1 (mask 1)) 1 (y, ux))"
    by (simp add: fl2_step_def)
  also have "\<dots> = fst (msb_step 1 (y, ux))" using s [of 1] by simp
  finally show ?thesis
    using assms r unfolding floorLog2_def findMsbSet_def m
    by (simp add: s word_greater_zero_iff)
qed

lemma floorLog2_bounds:
  assumes "x \<noteq> 0"
  shows "\<exists>m. floorLog2 x = Inr (int m) \<and> 2 ^ m \<le> unat x \<and> unat x < 2 ^ Suc m"
  using floorLog2_findMsbSet [OF assms] findMsbSet_bounds [OF assms] by auto

lemma ceilLog2_bounds:
  assumes "n \<noteq> 0"
  shows "\<exists>m. ceilLog2 n = Inr (int m) \<and> unat n \<le> 2 ^ m \<and> (m = 0 \<or> 2 ^ (m - 1) < unat n)"
proof (cases "n = 1")
  case True
  then show ?thesis by (intro exI [of _ 0]) (simp add: ceilLog2_def)
next
  case False
  then have "n - 1 \<noteq> 0" by simp
  from floorLog2_bounds [OF this] obtain m where m: "floorLog2 (n - 1) = Inr (int m)"
    "2 ^ m \<le> unat (n - 1)" "unat (n - 1) < 2 ^ Suc m" by blast
  moreover have "unat n = Suc (unat (n - 1))"
    using unat_pred_word [OF assms] assms by (simp add: unat_gt_0)
  ultimately show ?thesis
    using False assms by (intro exI [of _ "Suc m"]) (auto simp: ceilLog2_def word_greater_zero_iff)
qed

text \<open>
  \<open>floorLog2\<close> and \<open>ceilLog2\<close> are the two integer logarithms on the whole of \<open>uint64_t\<close>: they
  abort on 0, and otherwise return the \<open>m\<close> with \<open>2 ^ m \<le> x < 2 ^ (m + 1)\<close> and the least \<open>m\<close> with
  \<open>x \<le> 2 ^ m\<close>.
\<close>

theorem log2_bounds:
  "floorLog2 0 = Inl AssertFailed \<and> ceilLog2 0 = Inl AssertFailed
    \<and> (x \<noteq> 0 \<longrightarrow>
        (\<exists>m. floorLog2 x = Inr (int m) \<and> 2 ^ m \<le> unat x \<and> unat x < 2 ^ Suc m)
        \<and> (\<exists>m. ceilLog2 x = Inr (int m) \<and> (\<forall>j. unat x \<le> 2 ^ j \<longleftrightarrow> m \<le> j)))"
proof -
  have "\<exists>m. ceilLog2 x = Inr (int m) \<and> (\<forall>j. unat x \<le> 2 ^ j \<longleftrightarrow> m \<le> j)" if "x \<noteq> 0"
  proof -
    from ceilLog2_bounds [OF that] obtain m where m: "ceilLog2 x = Inr (int m)" "unat x \<le> 2 ^ m"
      "m = 0 \<or> 2 ^ (m - 1) < unat x" by blast
    have "m \<le> j" if "unat x \<le> 2 ^ j" for j
    proof (rule ccontr)
      assume "\<not> m \<le> j"
      then have "(2::nat) ^ j \<le> 2 ^ (m - 1)" by (intro power_increasing) simp_all
      moreover from m(3) \<open>\<not> m \<le> j\<close> have "2 ^ (m - 1) < unat x" by auto
      ultimately show False using that by linarith
    qed
    moreover have "unat x \<le> 2 ^ j" if "m \<le> j" for j
      by (rule order_trans [OF m(2)]) (use that in \<open>simp add: power_increasing\<close>)
    ultimately show ?thesis using m(1) by blast
  qed
  then show ?thesis using floorLog2_bounds [of x] by (simp add: floorLog2_def ceilLog2_def)
qed

theorem log2_bounds_witness: "floorLog2 9 = Inr 3 \<and> ceilLog2 9 = Inr 4"
proof -
  have "(9::uint64) \<noteq> 0" by simp
  with log2_bounds [of 9] obtain m n where m: "floorLog2 9 = Inr (int m)" "2 ^ m \<le> (9::nat)"
    "9 < (2::nat) ^ Suc m" and n: "ceilLog2 9 = Inr (int n)" "\<And>j. (9::nat) \<le> 2 ^ j \<longleftrightarrow> n \<le> j" by auto
  have "m = 3"
  proof (rule antisym)
    show "m \<le> 3" using m(2) power_increasing [of 4 m "2::nat"] by (cases "m \<le> 3") auto
    show "3 \<le> m" using m(3) power_increasing [of "Suc m" 3 "2::nat"] by (cases "3 \<le> m") auto
  qed
  moreover have "n = 4" using n(2) [of 4] n(2) [of 3] by simp
  ultimately show ?thesis using m(1) n(1) by simp
qed

subsection \<open>Powers of two and alignment\<close>

lemma isPowerOf2_iff: "isPowerOf2 n \<longleftrightarrow> (\<exists>k<64. n = 2 ^ k)"
proof
  assume p: "isPowerOf2 n"
  then have n: "n \<noteq> 0" by (simp add: isPowerOf2_def)
  from findMsbSet_bounds [OF n] obtain m where m: "2 ^ m \<le> unat n" "unat n < 2 ^ Suc m" by blast
  have bm: "bit n m" and m64: "m < 64"
    using bit_msb(1) [OF m] bit_imp_le_length [OF bit_msb(1) [OF m]] by simp_all
  have "unat n = 2 ^ m"
  proof (rule ccontr)
    assume "unat n \<noteq> 2 ^ m"
    then have "2 ^ m \<le> unat (n - 1)" "unat (n - 1) < 2 ^ Suc m"
      using m n by (simp_all add: unat_pred_word)
    from bit_msb(1) [OF this] bm have "bit (n AND (n - 1)) m" by (simp add: bit_and_iff)
    with p show False by (simp add: isPowerOf2_def)
  qed
  then have "n = 2 ^ m" using unat_power_2 [of m, where 'a = 64] m64 by (simp add: word_unat_eq_iff)
  with m64 show "\<exists>k<64. n = 2 ^ k" by auto
next
  assume "\<exists>k<64. n = 2 ^ k"
  then obtain k where k: "k < 64" "n = 2 ^ k" by blast
  have "n - 1 = mask k" by (simp add: k(2) mask_eq_exp_minus_1)
  moreover have "2 ^ k AND mask k = (0 :: uint64)"
    by (rule bit_eqI) (simp add: bit_and_iff bit_exp_iff bit_mask_iff)
  ultimately show "isPowerOf2 n" using k by (simp add: isPowerOf2_def)
qed

lemma unat_and_not_mask: "unat (v AND NOT (mask k) :: uint64) = unat v div 2 ^ k * 2 ^ k"
proof -
  have "v AND NOT (mask k) = push_bit k (drop_bit k v)"
    by (rule bit_eqI) (auto simp: bit_and_iff bit_not_iff bit_mask_iff bit_push_bit_iff bit_drop_bit_eq not_less)
  also have "unat (push_bit k (drop_bit k v)) = (unat v div 2 ^ k * 2 ^ k) mod 2 ^ 64"
    unfolding unsigned_push_bit_eq unat_drop_bit_div by (simp add: push_bit_eq_mult take_bit_eq_mod)
  also have "\<dots> = unat v div 2 ^ k * 2 ^ k"
    using le_less_trans [OF div_times_less_eq_dividend [of "unat v" "2 ^ k"], of "2 ^ 64"]
      unsigned_less [of v, where 'a = nat] by simp
  finally show ?thesis .
qed

lemma round_wrap:
  fixes S :: nat
  assumes "k \<le> n" and "S < 2 ^ n + 2 ^ k"
  shows "S mod 2 ^ n div 2 ^ k * 2 ^ k = (let r = S div 2 ^ k * 2 ^ k in if r < 2 ^ n then r else 0)"
proof -
  define N P q :: nat where "N = 2 ^ n" and "P = 2 ^ k" and "q = 2 ^ (n - k)"
  have N: "N = q * P" using assms(1) by (simp add: N_def P_def q_def power_add [symmetric])
  have pos: "0 < P" "0 < q" by (simp_all add: P_def q_def)
  have "S mod N div P * P = (if S div P * P < N then S div P * P else 0)"
  proof (cases "S < N")
    case True
    then have "S div P * P < N" by (rule le_less_trans [OF div_times_less_eq_dividend])
    with True show ?thesis by simp
  next
    case False
    then have "q \<le> S div P" using pos by (simp add: N less_eq_div_iff_mult_less_eq)
    then have "\<not> S div P * P < N" by (simp add: N not_less mult_le_mono1)
    moreover have "S mod N < P"
    proof -
      have "P \<le> N" using pos by (simp add: N)
      moreover have "S - N < P" using assms(2) False by (simp add: N_def P_def)
      ultimately show ?thesis using False by (simp add: le_mod_geq)
    qed
    ultimately show ?thesis by simp
  qed
  then show ?thesis by (simp add: Let_def N_def P_def)
qed


subsection \<open>Double-width products\<close>

lemma half_sum:
  "x div 2 + y div 2 + z div 2 + (x mod 2 + y mod 2 + z mod 2) div 2 = (x + y + z) div (2::nat)"
proof -
  have "x + y + z = x mod 2 + y mod 2 + z mod 2 + 2 * (x div 2 + y div 2 + z div 2)"
  proof -
    have "x = 2 * a + p \<Longrightarrow> y = 2 * b + q \<Longrightarrow> z = 2 * c + r \<Longrightarrow>
      x + y + z = p + q + r + 2 * (a + b + c)" for a b c p q r :: nat by simp
    then show ?thesis by this simp_all
  qed
  then have "(x + y + z) div 2 =
    (x mod 2 + y mod 2 + z mod 2 + 2 * (x div 2 + y div 2 + z div 2)) div 2" by (simp only:)
  also have "\<dots> = x div 2 + y div 2 + z div 2 + (x mod 2 + y mod 2 + z mod 2) div 2"
    by (rule div_mult_self2) simp
  finally show ?thesis by (simp only:)
qed

lemma product_by_halves:
  fixes a A b B p :: nat
  assumes "0 < p"
  shows "(A * p + a) * (B * p + b) div (p * p) = A * B + (a * b div p + A * b + a * B) div p"
proof -
  have "(A * p + a) * (B * p + b) = A * B * (p * p) + ((A * b + a * B) * p + a * b)"
    by (simp add: algebra_simps)
  then have "(A * p + a) * (B * p + b) div (p * p) = A * B + ((A * b + a * B) * p + a * b) div (p * p)"
    using assms by simp
  also have "((A * b + a * B) * p + a * b) div (p * p) = ((A * b + a * B) * p + a * b) div p div p"
    by (simp add: div_mult2_eq)
  also have "((A * b + a * B) * p + a * b) div p = A * b + a * B + a * b div p"
    using assms by simp
  finally show ?thesis by (simp add: ac_simps)
qed

lemma mult_halves_less:
  assumes "x < 2 ^ 32" and "y < 2 ^ 32"
  shows "x * y \<le> (2 ^ 32 - 1) * (2 ^ 32 - 1 :: nat)"
  using assms by (intro mult_le_mono) simp_all

lemma unat_mult_small: "unat x * unat y < 2 ^ 64 \<Longrightarrow> unat (x * y :: uint64) = unat x * unat y"
  by (simp add: unat_word_ariths)

lemma unat_and_1: "unat (x AND 1 :: uint64) = unat x mod 2"
  by (simp add: and_one_eq unat_word_ariths)

lemma unat_low_half: "unat (ucast (ucast (x :: uint64) :: unsigned) :: uint64) = unat x mod 2 ^ 32"
proof -
  have "unat x mod 2 ^ 32 < (2::nat) ^ 64"
    by (rule less_trans [OF mod_less_divisor]) simp_all
  then show ?thesis
    unfolding unat_ucast_32_64 by (simp add: unsigned_ucast_eq unsigned_take_bit_eq take_bit_eq_mod)
qed

lemma carry_word:
  assumes "unat c1 < 2 ^ 32" and "unat Ab \<le> (2 ^ 32 - 1) * (2 ^ 32 - 1)"
    and "unat aB \<le> (2 ^ 32 - 1) * (2 ^ 32 - 1)"
  shows "unat (drop_bit 31 (drop_bit 1 c1 + drop_bit 1 Ab + drop_bit 1 aB
      + drop_bit 1 ((c1 AND 1) + (Ab AND 1) + (aB AND 1)) :: uint64))
    = (unat c1 + unat Ab + unat aB) div 2 ^ 32"
proof -
  define x y z where "x = unat c1" and "y = unat Ab" and "z = unat aB"
  define hx hy hz where "hx = x div 2" and "hy = y div 2" and "hz = z div 2"
  define lo where "lo = (x mod 2 + y mod 2 + z mod 2) div 2"
  have m: "x mod 2 < 2" "y mod 2 < 2" "z mod 2 < 2" by simp_all
  have b: "hx < 2 ^ 31" "hy \<le> 9223372032559808512" "hz \<le> 9223372032559808512" "lo \<le> 1"
  proof -
    show "hx < 2 ^ 31" using assms(1) by (simp add: hx_def x_def div_less_iff_less_mult)
    show "hy \<le> 9223372032559808512" using div_le_mono [OF assms(2), of 2] by (simp add: hy_def y_def)
    show "hz \<le> 9223372032559808512" using div_le_mono [OF assms(3), of 2] by (simp add: hz_def z_def)
    have "x mod 2 + y mod 2 + z mod 2 < 2 * 2" using m by linarith
    then have "lo < 2" unfolding lo_def by (rule less_mult_imp_div_less [of _ 2 2])
    then show "lo \<le> 1" by simp
  qed
  have h: "unat (drop_bit 1 c1) = hx" "unat (drop_bit 1 Ab) = hy" "unat (drop_bit 1 aB) = hz"
    by (simp_all only: unat_drop_bit_div x_def y_def z_def hx_def hy_def hz_def power_one_right)
  have s1: "unat (drop_bit 1 c1 + drop_bit 1 Ab) = hx + hy"
    by (rule unat_add_eq [OF h(1,2)]) (use b in simp)
  have s2: "unat (drop_bit 1 c1 + drop_bit 1 Ab + drop_bit 1 aB) = hx + hy + hz"
    by (rule unat_add_eq [OF s1 h(3)]) (use b in simp)
  have o1: "unat (c1 AND 1 :: uint64) = x mod 2" "unat (Ab AND 1 :: uint64) = y mod 2"
    "unat (aB AND 1 :: uint64) = z mod 2"
    by (simp_all only: unat_and_1 x_def y_def z_def)
  have o2: "unat ((c1 AND 1) + (Ab AND 1)) = x mod 2 + y mod 2"
    by (rule unat_add_eq [OF o1(1,2)]) (use m in simp)
  have o3: "unat ((c1 AND 1) + (Ab AND 1) + (aB AND 1)) = x mod 2 + y mod 2 + z mod 2"
    by (rule unat_add_eq [OF o2 o1(3)]) (use m in simp)
  have o4: "unat (drop_bit 1 ((c1 AND 1) + (Ab AND 1) + (aB AND 1))) = lo"
    by (simp only: unat_drop_bit_div o3 lo_def power_one_right)
  have "unat (drop_bit 1 c1 + drop_bit 1 Ab + drop_bit 1 aB
      + drop_bit 1 ((c1 AND 1) + (Ab AND 1) + (aB AND 1))) = hx + hy + hz + lo"
    by (rule unat_add_eq [OF s2 o4]) (use b in simp)
  also have "\<dots> = (x + y + z) div 2" unfolding hx_def hy_def hz_def lo_def by (rule half_sum)
  finally have sum: "unat (drop_bit 1 c1 + drop_bit 1 Ab + drop_bit 1 aB
      + drop_bit 1 ((c1 AND 1) + (Ab AND 1) + (aB AND 1))) = (x + y + z) div 2" .
  then have "unat (drop_bit 31 (drop_bit 1 c1 + drop_bit 1 Ab + drop_bit 1 aB
      + drop_bit 1 ((c1 AND 1) + (Ab AND 1) + (aB AND 1)))) = (x + y + z) div 2 div 2 ^ 31"
    by (simp only: unat_drop_bit_div)
  also have "\<dots> = (x + y + z) div 2 ^ 32" by (simp add: div_mult2_eq [symmetric])
  finally show ?thesis by (simp add: x_def y_def z_def)
qed

lemma unat_high_half: "unat (ucast (ucast (drop_bit 32 (x :: uint64)) :: unsigned) :: uint64) = unat x div 2 ^ 32"
proof -
  have "unat x div 2 ^ 32 < 2 ^ 32"
    using unsigned_less [of x, where 'a = nat] by (simp add: less_mult_imp_div_less)
  then show ?thesis unfolding unat_low_half unat_drop_bit_div by simp
qed

lemma mulUnsignedManual_exact:
  assumes "mulUnsignedManual va vb = (high, low)"
  shows "unat high = unat va * unat vb div 2 ^ 64" and "unat low = unat va * unat vb mod 2 ^ 64"
proof -
  define A a B b where
    "A = (ucast (ucast (drop_bit 32 va) :: unsigned) :: uint64)" and
    "a = (ucast (ucast va :: unsigned) :: uint64)" and
    "B = (ucast (ucast (drop_bit 32 vb) :: unsigned) :: uint64)" and
    "b = (ucast (ucast vb :: unsigned) :: uint64)"
  define c1 where "c1 = (ucast (ucast (drop_bit 32 (a * b)) :: unsigned) :: uint64)"
  define carry where "carry = drop_bit 31 (drop_bit 1 c1 + drop_bit 1 (A * b) + drop_bit 1 (a * B)
    + drop_bit 1 ((c1 AND 1) + (A * b AND 1) + (a * B AND 1)))"
  have hl: "high = A * B + carry" "low = va * vb"
    using assms by (simp_all add: mulUnsignedManual_def Let_def A_def a_def B_def b_def c1_def carry_def)
  have v: "unat A = unat va div 2 ^ 32" "unat a = unat va mod 2 ^ 32"
    "unat B = unat vb div 2 ^ 32" "unat b = unat vb mod 2 ^ 32"
    unfolding A_def a_def B_def b_def by (rule unat_high_half unat_low_half)+
  have lt: "unat A < 2 ^ 32" "unat a < 2 ^ 32" "unat B < 2 ^ 32" "unat b < 2 ^ 32"
    unfolding v using unsigned_less [of va, where 'a = nat] unsigned_less [of vb, where 'a = nat]
    by (simp_all add: less_mult_imp_div_less)
  have prod: "unat (x * y) = unat x * unat y \<and> unat (x * y) \<le> (2 ^ 32 - 1) * (2 ^ 32 - 1)"
    if "unat x < 2 ^ 32" "unat y < 2 ^ 32" for x y :: uint64
    using mult_halves_less [OF that] by (subst (1 2) unat_mult_small) simp_all
  have c1: "unat c1 = unat a * unat b div 2 ^ 32"
    unfolding c1_def unat_high_half using prod [OF lt(2,4)] by (simp only:)
  have "unat c1 < 2 ^ 32" unfolding c1_def unat_low_half by simp
  then have carry: "unat carry = (unat a * unat b div 2 ^ 32 + unat A * unat b + unat a * unat B) div 2 ^ 32"
    unfolding carry_def using carry_word [of c1 "A * b" "a * B"] prod [OF lt(1,4)] prod [OF lt(2,3)] c1 by simp
  have split: "unat va = unat A * 2 ^ 32 + unat a" "unat vb = unat B * 2 ^ 32 + unat b"
    unfolding v by simp_all
  have val: "unat va * unat vb div 2 ^ 64 = unat (A * B) + unat carry"
    using product_by_halves [of "2 ^ 32" "unat A" "unat a" "unat B" "unat b"] prod [OF lt(1,3)]
    unfolding split carry by simp
  moreover have "unat va * unat vb < 2 ^ 64 * 2 ^ 64"
    using unsigned_less [of va, where 'a = nat] unsigned_less [of vb, where 'a = nat]
    by (intro mult_strict_mono) simp_all
  then have "unat va * unat vb div 2 ^ 64 < 2 ^ 64" by (rule less_mult_imp_div_less)
  ultimately have "unat (A * B) + unat carry < 2 ^ LENGTH(64)" by simp
  from unat_add_eq [OF refl refl this] val show "unat high = unat va * unat vb div 2 ^ 64"
    unfolding hl by (simp only:)
  show "unat low = unat va * unat vb mod 2 ^ 64" unfolding hl by (simp add: unat_word_ariths)
qed

lemma mulUnsigned128_exact:
  assumes "mulUnsigned128 va vb = (high, low)"
  shows "unat high = unat va * unat vb div 2 ^ 64" and "unat low = unat va * unat vb mod 2 ^ 64"
proof -
  define val where "val = (ucast va :: 128 word) * ucast vb"
  have hl: "high = ucast (drop_bit 64 val)" "low = ucast val"
    using assms by (simp_all add: mulUnsigned128_def val_def Let_def)
  have u: "unat (ucast x :: 128 word) = unat x" for x :: uint64
  proof -
    have "unat x < 2 ^ 128" using unsigned_less [of x, where 'a = nat] by simp
    then show ?thesis by (simp add: unsigned_ucast_eq take_bit_nat_eq_self)
  qed
  have lt: "unat va * unat vb < 2 ^ 64 * 2 ^ 64"
    using unsigned_less [of va, where 'a = nat] unsigned_less [of vb, where 'a = nat]
    by (intro mult_strict_mono) simp_all
  then have val: "unat val = unat va * unat vb" by (simp add: val_def unat_word_ariths u)
  have "unat va * unat vb div 2 ^ 64 < 2 ^ 64" using lt by (rule less_mult_imp_div_less)
  moreover have "unat high = unat val div 2 ^ 64 mod 2 ^ 64" "unat low = unat val mod 2 ^ 64"
    unfolding hl unsigned_ucast_eq unsigned_take_bit_eq unat_drop_bit_div by (simp_all add: take_bit_eq_mod)
  ultimately show "unat high = unat va * unat vb div 2 ^ 64" "unat low = unat va * unat vb mod 2 ^ 64"
    unfolding val by simp_all
qed

lemma sint_as_uint: "sint (w :: uint64) = uint w - (if sint w < 0 then 2 ^ 64 else 0)"
proof -
  have "uint w = sint w mod 2 ^ 64" by (simp add: uint_sint take_bit_eq_mod)
  moreover have "- (2 ^ 63) \<le> sint w" "sint w < 2 ^ 63"
    using sint_ge [of w] sint_lt [of w] by simp_all
  ultimately show ?thesis using mod_ring [of "2 ^ 64" "sint w"] by simp
qed

lemma sint_128_64:
  assumes "- (2 ^ 127) \<le> i" and "i < 2 ^ 127"
  shows "sint (word_of_int i :: 128 word) = i"
  using assms by (simp add: sint_sbintrunc' signed_take_bit_int_eq_self)

lemma signed_product_range:
  fixes x y :: uint64
  shows "- (2 ^ 126) \<le> sint x * sint y" and "sint x * sint y \<le> 2 ^ 126"
proof -
  have a: "\<bar>sint z\<bar> \<le> 2 ^ 63" for z :: uint64
  proof (rule abs_leI)
    show "sint z \<le> 2 ^ 63" using sint_lt [of z] by simp
    show "- sint z \<le> 2 ^ 63" using sint_ge [of z] by simp
  qed
  have "\<bar>sint x\<bar> * \<bar>sint y\<bar> \<le> 2 ^ 63 * 2 ^ 63" by (rule mult_mono [OF a a]) simp_all
  then have "\<bar>sint x * sint y\<bar> \<le> 2 ^ 126" by (simp add: abs_mult)
  then show "- (2 ^ 126) \<le> sint x * sint y" and "sint x * sint y \<le> 2 ^ 126"
    by (simp_all only: abs_le_iff minus_le_iff)
qed

lemma mulSigned128_eq:
  "mulSigned128 va vb = (word_of_int (sint va * sint vb div 2 ^ 64), word_of_int (sint va * sint vb))"
proof -
  have "- (2 ^ 127) \<le> sint va * sint vb" "sint va * sint vb < 2 ^ 127"
    using signed_product_range [of va vb] by simp_all
  then have "sint (word_of_int (sint va * sint vb) :: 128 word) = sint va * sint vb"
    by (rule sint_128_64)
  moreover have "(scast va :: 128 word) * scast vb = word_of_int (sint va * sint vb)"
    by (simp only: scast_eq of_int_mult)
  ultimately show ?thesis unfolding mulSigned128_def Let_def by (simp only:)
qed

lemma uint_of_int_64: "uint (word_of_int i :: uint64) = i mod 2 ^ 64"
  by (simp add: unsigned_of_int take_bit_eq_mod)

lemma word_of_int_mult_64: "word_of_int (2 ^ 64 * k) = (0 :: uint64)"
  unfolding word_uint_eq_iff uint_of_int_64 by simp

lemma mulUnsigned128_int:
  "mulUnsigned128 va vb = (word_of_int (uint va * uint vb div 2 ^ 64), word_of_int (uint va * uint vb))"
proof -
  obtain h l where u: "mulUnsigned128 va vb = (h, l)" by fastforce
  have "uint va * uint vb = int (unat va * unat vb)" by simp
  then have e: "uint va * uint vb div 2 ^ 64 = int (unat h)" "uint va * uint vb mod 2 ^ 64 = int (unat l)"
    unfolding mulUnsigned128_exact [OF u] by (simp_all only: of_nat_div of_nat_mod of_nat_power of_nat_numeral)
  have "h = word_of_int (uint va * uint vb div 2 ^ 64)" unfolding e(1) by simp
  moreover have "uint l = uint (word_of_int (uint va * uint vb) :: uint64)"
    unfolding uint_of_int_64 e(2) by simp
  then have "l = word_of_int (uint va * uint vb)" by (rule word_uint_eqI)
  ultimately show ?thesis using u by (simp only:)
qed

lemma mulSigned_manual_eq: "mulSignedManual va vb = mulSigned128 va vb"
proof -
  define sa sb where "sa = (if sint va < 0 then 1 else 0 :: int)" and "sb = (if sint vb < 0 then 1 else 0 :: int)"
  define U where "U = uint va * uint vb"
  define N :: int where "N = 2 ^ 64"
  define X where "X = N * (sa * sb) - (sa * uint vb + sb * uint va)"
  have s: "sint va = uint va - N * sa" "sint vb = uint vb - N * sb"
    using sint_as_uint [of va] sint_as_uint [of vb] by (auto simp: sa_def sb_def N_def)
  have P: "sint va * sint vb = U + N * X"
    unfolding s U_def X_def by (simp add: algebra_simps)
  have N0: "N \<noteq> 0" by (simp add: N_def)
  have high: "sint va * sint vb div N = U div N + X"
    unfolding P using div_mult_self2 [OF N0, of U X] by simp
  have X: "(word_of_int X :: uint64) = - (word_of_int sa * vb + word_of_int sb * va)"
    using word_of_int_mult_64 [of "sa * sb"] unfolding X_def N_def of_int_diff by simp
  have "mulSignedManual va vb = (word_of_int (U div N) + word_of_int X, word_of_int U)"
    unfolding mulSignedManual_def mulUnsigned128_int U_def [symmetric] N_def [symmetric] X
    by (simp add: sa_def sb_def)
  moreover have "mulSigned128 va vb = (word_of_int (U div N) + word_of_int X, word_of_int U)"
    unfolding mulSigned128_eq N_def [symmetric] high P of_int_add
    using word_of_int_mult_64 [of X] by (simp add: N_def)
  ultimately show ?thesis by (simp only:)
qed

text \<open>
  C12. The portable 64-bit products are exact and agree with the 128-bit ones. The halves
  \<open>mulUnsignedManual\<close> returns satisfy \<open>high * 2 ^ 64 + low = a * b\<close> over the naturals and are the
  halves \<open>__uint128_t\<close> arithmetic gives; those of \<open>mulSignedManual\<close> are the ones \<open>__int128_t\<close>
  gives, and \<open>high * 2 ^ 64 + low = a * b\<close> with the operands and \<open>high\<close> read as signed.
\<close>

theorem wide_products_exact:
  "mulUnsignedManual va vb = mulUnsigned128 va vb
    \<and> (case mulUnsignedManual va vb of (high, low) \<Rightarrow>
        unat high * 2 ^ 64 + unat low = unat va * unat vb)
    \<and> mulSignedManual va vb = mulSigned128 va vb
    \<and> (case mulSignedManual va vb of (high, low) \<Rightarrow>
        sint high * 2 ^ 64 + uint low = sint va * sint vb)"
proof -
  obtain h l where u: "mulUnsignedManual va vb = (h, l)" by fastforce
  obtain h' l' where u': "mulUnsigned128 va vb = (h', l')" by fastforce
  have "h = h'" "l = l'"
    using mulUnsignedManual_exact [OF u] mulUnsigned128_exact [OF u']
    by (simp_all only: word_unat_eq_iff)
  moreover have "unat h * 2 ^ 64 + unat l = unat va * unat vb"
    unfolding mulUnsignedManual_exact [OF u] by (rule div_mult_mod_eq)
  ultimately have un: "mulUnsignedManual va vb = mulUnsigned128 va vb"
    "case mulUnsignedManual va vb of (high, low) \<Rightarrow> unat high * 2 ^ 64 + unat low = unat va * unat vb"
    unfolding u u' by (simp_all only: prod.case)
  define P where "P = sint va * sint vb"
  have "sint (word_of_int (P div 2 ^ 64) :: uint64) = P div 2 ^ 64"
  proof -
    have "- (2 ^ 63) * 2 ^ 64 \<le> P" "P \<le> 2 ^ 63 * 2 ^ 64 - 1"
      using signed_product_range [of va vb] by (simp_all add: P_def)
    from zdiv_mono1 [OF this(1), of "2 ^ 64"] zdiv_mono1 [OF this(2), of "2 ^ 64"]
    have "- (2 ^ 63) \<le> P div 2 ^ 64" "P div 2 ^ 64 < 2 ^ 63" by simp_all
    then show ?thesis by (simp add: sint_sbintrunc' signed_take_bit_int_eq_self)
  qed
  then have "sint (word_of_int (P div 2 ^ 64) :: uint64) * 2 ^ 64 + uint (word_of_int P :: uint64) = P"
    unfolding uint_of_int_64 by (simp only: div_mult_mod_eq)
  then have "case mulSignedManual va vb of (high, low) \<Rightarrow> sint high * 2 ^ 64 + uint low = sint va * sint vb"
    unfolding mulSigned_manual_eq mulSigned128_eq P_def by (simp only: prod.case)
  with un mulSigned_manual_eq [of va vb] show ?thesis by blast
qed

end
