(* ===== verification/SatCounter.thy ===== *)
theory SatCounter
  imports Doubles
begin

text \<open>
  The saturating counter of \<^verbatim>\<open>src/base/sat_counter.hh\<close> at \<open>T = uint8_t\<close> (\<open>SatCounter8\<close>), the
  counter of the branch predictors. Operands narrower than \<open>int\<close> are promoted, so the
  comparisons and shifts are over \<open>int\<close>, and a result is truncated to 8 bits when it is
  stored. The lemmas give every operation as clamping to \<open>[0, maxVal]\<close>.
\<close>

type_synonym uint8 = "8 word"

record SatCounter8 =
  initialVal :: uint8
  maxVal :: uint8
  sc_counter :: uint8

definition SatCounter8_new :: "unsigned \<Rightarrow> uint8 \<Rightarrow> SatCounter8 result" where
  "SatCounter8_new nbits initial_val =
    (let mx = ucast (push_bit (unat nbits) (1 :: uint64) - 1) in
     checked (nbits < 64) UndefinedBehaviour
      (checked (nbits \<le> 8) Fatal
        (checked (initial_val \<le> mx) Fatal
          (Inr \<lparr>initialVal = initial_val, maxVal = mx, sc_counter = initial_val\<rparr>))))"

definition sc_incr :: "SatCounter8 \<Rightarrow> SatCounter8" where
  "sc_incr c = (if sc_counter c < maxVal c then c\<lparr>sc_counter := sc_counter c + 1\<rparr> else c)"

definition sc_decr :: "SatCounter8 \<Rightarrow> SatCounter8" where
  "sc_decr c = (if sc_counter c > 0 then c\<lparr>sc_counter := sc_counter c - 1\<rparr> else c)"

text \<open>Post-increment and post-decrement return the old value.\<close>

definition sc_post_incr :: "SatCounter8 \<Rightarrow> SatCounter8 \<times> SatCounter8" where
  "sc_post_incr c = (c, sc_incr c)"

definition sc_post_decr :: "SatCounter8 \<Rightarrow> SatCounter8 \<times> SatCounter8" where
  "sc_post_decr c = (c, sc_decr c)"

definition sc_shr :: "int \<Rightarrow> SatCounter8 \<Rightarrow> SatCounter8 result" where
  "sc_shr shift c =
    checked (shift \<ge> 0) AssertFailed
      (checked (shift < 32) UndefinedBehaviour
        (Inr (c\<lparr>sc_counter := word_of_int (uint (sc_counter c) div 2 ^ nat shift)\<rparr>)))"

text \<open>A left shift whose result does not fit in 32 bits is undefined.\<close>

definition sc_shl :: "int \<Rightarrow> SatCounter8 \<Rightarrow> SatCounter8 result" where
  "sc_shl shift c =
    checked (shift \<ge> 0) AssertFailed
      (checked (shift < 32 \<and> uint (sc_counter c) * 2 ^ nat shift < 2 ^ 32) UndefinedBehaviour
        (let v = word_of_int (uint (sc_counter c) * 2 ^ nat shift)
         in Inr (c\<lparr>sc_counter := (if v > maxVal c then maxVal c else v)\<rparr>)))"

definition sc_add_nonneg :: "int \<Rightarrow> SatCounter8 \<Rightarrow> SatCounter8" where
  "sc_add_nonneg v c =
    (if uint (maxVal c) - uint (sc_counter c) \<ge> v
     then c\<lparr>sc_counter := word_of_int (uint (sc_counter c) + v)\<rparr>
     else c\<lparr>sc_counter := maxVal c\<rparr>)"

definition sc_sub_nonneg :: "int \<Rightarrow> SatCounter8 \<Rightarrow> SatCounter8" where
  "sc_sub_nonneg v c =
    (if uint (sc_counter c) > v then c\<lparr>sc_counter := word_of_int (uint (sc_counter c) - v)\<rparr>
     else c\<lparr>sc_counter := 0\<rparr>)"

text \<open>The operand is a \<open>long long\<close>; negating its least value overflows.\<close>

definition sc_add :: "int \<Rightarrow> SatCounter8 \<Rightarrow> SatCounter8 result" where
  "sc_add v c =
    (if v \<ge> 0 then Inr (sc_add_nonneg v c)
     else checked (- v < 2 ^ 63) UndefinedBehaviour (Inr (sc_sub_nonneg (- v) c)))"

definition sc_sub :: "int \<Rightarrow> SatCounter8 \<Rightarrow> SatCounter8 result" where
  "sc_sub v c =
    (if v \<ge> 0 then Inr (sc_sub_nonneg v c)
     else checked (- v < 2 ^ 63) UndefinedBehaviour (Inr (sc_add_nonneg (- v) c)))"

definition sc_reset :: "SatCounter8 \<Rightarrow> SatCounter8" where
  "sc_reset c = c\<lparr>sc_counter := initialVal c\<rparr>"

text \<open>\<open>None\<close> is the NaN a counter of no bits gives.\<close>

definition calcSaturation :: "SatCounter8 \<Rightarrow> double option" where
  "calcSaturation c =
    (if maxVal c = 0 then None else Some (fdiv (double_of (sc_counter c)) (double_of (maxVal c))))"

definition isSaturated :: "SatCounter8 \<Rightarrow> bool" where
  "isSaturated c \<longleftrightarrow> sc_counter c = maxVal c"

definition saturate :: "SatCounter8 \<Rightarrow> uint8 \<times> SatCounter8" where
  "saturate c = (maxVal c - sc_counter c, c\<lparr>sc_counter := maxVal c\<rparr>)"

subsection \<open>Clamping\<close>

definition sc_wf :: "SatCounter8 \<Rightarrow> bool" where
  "sc_wf c \<longleftrightarrow> sc_counter c \<le> maxVal c \<and> initialVal c \<le> maxVal c"

definition clamp :: "int \<Rightarrow> int \<Rightarrow> int" where
  "clamp hi v = max 0 (min hi v)"

lemma uint8_bounds: "0 \<le> uint (w :: uint8)" "uint (w :: uint8) < 256"
  using uint_lt2p [of w] by simp_all

lemma uint8_of_int: "0 \<le> i \<Longrightarrow> i < 256 \<Longrightarrow> uint (word_of_int i :: uint8) = i"
  by (simp add: unsigned_of_int take_bit_int_eq_self)

lemma new_wf:
  assumes "SatCounter8_new n v = Inr c"
  shows "sc_wf c" and "sc_counter c = v" and "initialVal c = v" and "uint (maxVal c) = 2 ^ unat n - 1"
proof -
  have n: "unat n \<le> 8" using assms by (auto simp: SatCounter8_new_def Let_def result_simps word_le_nat_alt)
  have c: "c = \<lparr>initialVal = v, maxVal = ucast (push_bit (unat n) (1 :: uint64) - 1), sc_counter = v\<rparr>"
    "v \<le> ucast (push_bit (unat n) (1 :: uint64) - 1)"
    using assms by (auto simp: SatCounter8_new_def Let_def result_simps)
  then show "sc_wf c" and "sc_counter c = v" and "initialVal c = v" by (simp_all add: sc_wf_def)
  have p: "(2::nat) ^ unat n \<le> 2 ^ 8" using n by (intro power_increasing) simp_all
  have "unat (push_bit (unat n) (1 :: uint64) - 1) = 2 ^ unat n - 1"
  proof -
    have "unat (2 ^ unat n :: uint64) = 2 ^ unat n" using n by (intro unat_power_2) simp
    moreover then have "(2 ^ unat n :: uint64) \<noteq> 0" by (metis unat_0 power_not_zero zero_neq_numeral)
    ultimately show ?thesis by (simp add: push_bit_eq_mult unat_pred_word)
  qed
  then have "unat (maxVal c) = 2 ^ unat n - 1"
    using p by (simp add: c(1) unsigned_ucast_eq unsigned_take_bit_eq take_bit_nat_eq_self)
  then show "uint (maxVal c) = 2 ^ unat n - 1"
    by (simp add: uint_nat of_nat_diff)
qed

lemma sc_wf_uint: "sc_wf c \<Longrightarrow> uint (sc_counter c) \<le> uint (maxVal c)"
  by (simp add: sc_wf_def word_le_def)

lemma sc_incr_clamp:
  assumes "sc_wf c"
  shows "uint (sc_counter (sc_incr c)) = clamp (uint (maxVal c)) (uint (sc_counter c) + 1)"
    and "sc_wf (sc_incr c)" and "maxVal (sc_incr c) = maxVal c"
proof -
  have "uint (sc_counter c + 1) = uint (sc_counter c) + 1" if "sc_counter c < maxVal c"
    using that uint8_bounds [of "maxVal c"] uint8_bounds [of "sc_counter c"]
    by (simp add: word_less_def uint_word_ariths)
  then show "uint (sc_counter (sc_incr c)) = clamp (uint (maxVal c)) (uint (sc_counter c) + 1)"
    and "sc_wf (sc_incr c)" and "maxVal (sc_incr c) = maxVal c"
    using assms sc_wf_uint [OF assms] uint8_bounds [of "sc_counter c"]
    by (auto simp: sc_incr_def clamp_def sc_wf_def word_less_def word_le_def)
qed

lemma sc_decr_clamp:
  assumes "sc_wf c"
  shows "uint (sc_counter (sc_decr c)) = clamp (uint (maxVal c)) (uint (sc_counter c) - 1)"
    and "sc_wf (sc_decr c)" and "maxVal (sc_decr c) = maxVal c"
proof -
  have d: "uint (sc_counter c - 1) = uint (sc_counter c) - 1 \<and> 0 < uint (sc_counter c)" if "sc_counter c > 0"
    using that uint8_bounds [of "sc_counter c"] by (simp add: word_less_def uint_word_ariths)
  have z: "sc_counter c = 0" if "\<not> sc_counter c > 0" using that by (simp add: word_greater_zero_iff)
  show "uint (sc_counter (sc_decr c)) = clamp (uint (maxVal c)) (uint (sc_counter c) - 1)"
    and "sc_wf (sc_decr c)" and "maxVal (sc_decr c) = maxVal c"
    using assms sc_wf_uint [OF assms] d z
    by (cases "sc_counter c > 0"; simp add: sc_decr_def clamp_def sc_wf_def word_le_def)+
qed

lemma sc_add_nonneg_clamp:
  assumes "sc_wf c" and "0 \<le> v"
  shows "uint (sc_counter (sc_add_nonneg v c)) = clamp (uint (maxVal c)) (uint (sc_counter c) + v)"
    and "sc_wf (sc_add_nonneg v c)" and "maxVal (sc_add_nonneg v c) = maxVal c"
proof -
  have "uint (word_of_int (uint (sc_counter c) + v) :: uint8) = uint (sc_counter c) + v"
    if "uint (maxVal c) - uint (sc_counter c) \<ge> v"
    using that assms(2) uint8_bounds [of "sc_counter c"] uint8_bounds [of "maxVal c"]
    by (intro uint8_of_int) simp_all
  then show "uint (sc_counter (sc_add_nonneg v c)) = clamp (uint (maxVal c)) (uint (sc_counter c) + v)"
    and "sc_wf (sc_add_nonneg v c)" and "maxVal (sc_add_nonneg v c) = maxVal c"
    using assms sc_wf_uint [OF assms(1)] uint8_bounds [of "sc_counter c"]
    by (auto simp: sc_add_nonneg_def clamp_def sc_wf_def word_le_def simp del: of_int_add)
qed

lemma sc_sub_nonneg_clamp:
  assumes "sc_wf c" and "0 \<le> v"
  shows "uint (sc_counter (sc_sub_nonneg v c)) = clamp (uint (maxVal c)) (uint (sc_counter c) - v)"
    and "sc_wf (sc_sub_nonneg v c)" and "maxVal (sc_sub_nonneg v c) = maxVal c"
proof -
  have "uint (word_of_int (uint (sc_counter c) - v) :: uint8) = uint (sc_counter c) - v"
    if "uint (sc_counter c) > v"
    using that assms(2) uint8_bounds [of "sc_counter c"] by (intro uint8_of_int) simp_all
  then show "uint (sc_counter (sc_sub_nonneg v c)) = clamp (uint (maxVal c)) (uint (sc_counter c) - v)"
    and "sc_wf (sc_sub_nonneg v c)" and "maxVal (sc_sub_nonneg v c) = maxVal c"
    using assms sc_wf_uint [OF assms(1)] uint8_bounds [of "sc_counter c"]
    by (auto simp: sc_sub_nonneg_def clamp_def sc_wf_def word_le_def simp del: of_int_diff)
qed

lemmas sc_clamp = sc_incr_clamp sc_decr_clamp sc_add_nonneg_clamp sc_sub_nonneg_clamp

text \<open>
  Saturating arithmetic. Every counter the constructor accepts starts at its initial value
  with maximum \<open>2 ^ bits - 1\<close>. On a counter within its bounds, \<open>++\<close>, \<open>--\<close> and \<open>+= v\<close>, \<open>-= v\<close> for any
  \<open>v\<close> of \<open>long long\<close> but the least give the exact sum or difference clamped to \<open>[0, maxVal]\<close>,
  \<open>>>= k\<close> gives the exact quotient, \<open>saturate\<close> returns the distance to the maximum, and the
  counter stays within its bounds.
\<close>

theorem sat_counter_clamps:
  assumes "sc_wf c" and "\<bar>v\<bar> < 2 ^ 63" and "0 \<le> k" and "k < 32"
  shows "uint (sc_counter (sc_incr c)) = clamp (uint (maxVal c)) (uint (sc_counter c) + 1)
    \<and> uint (sc_counter (sc_decr c)) = clamp (uint (maxVal c)) (uint (sc_counter c) - 1)
    \<and> sc_wf (sc_incr c) \<and> sc_wf (sc_decr c) \<and> sc_wf (sc_reset c)
    \<and> (\<exists>a s r. sc_add v c = Inr a \<and> sc_sub v c = Inr s \<and> sc_shr k c = Inr r
        \<and> uint (sc_counter a) = clamp (uint (maxVal c)) (uint (sc_counter c) + v)
        \<and> uint (sc_counter s) = clamp (uint (maxVal c)) (uint (sc_counter c) - v)
        \<and> uint (sc_counter r) = uint (sc_counter c) div 2 ^ nat k
        \<and> sc_wf a \<and> sc_wf s \<and> sc_wf r)
    \<and> uint (fst (saturate c)) = uint (maxVal c) - uint (sc_counter c)
    \<and> isSaturated (snd (saturate c))"
proof -
  define x where "x = uint (sc_counter c)"
  have x: "0 \<le> x" "x < 256" "x \<le> uint (maxVal c)"
    using uint8_bounds [of "sc_counter c"] sc_wf_uint [OF assms(1)] by (simp_all add: x_def)
  have q: "0 \<le> x div 2 ^ nat k" "x div 2 ^ nat k \<le> x"
    using x(1) zdiv_mono2 [of x 1 "2 ^ nat k"] by (simp_all add: pos_imp_zdiv_nonneg_iff)
  then have "uint (word_of_int (x div 2 ^ nat k) :: uint8) = x div 2 ^ nat k"
    using x by (intro uint8_of_int) simp_all
  then have r: "\<exists>r. sc_shr k c = Inr r \<and> uint (sc_counter r) = x div 2 ^ nat k \<and> sc_wf r"
    using assms q x by (auto simp: sc_shr_def x_def sc_wf_def word_le_def)
  have a: "\<exists>a. sc_add v c = Inr a \<and> uint (sc_counter a) = clamp (uint (maxVal c)) (x + v) \<and> sc_wf a"
    using assms(2) sc_clamp(7,8) [OF assms(1), of v] sc_clamp(10,11) [OF assms(1), of "- v"]
    by (cases "0 \<le> v") (auto simp: sc_add_def x_def)
  have s: "\<exists>s. sc_sub v c = Inr s \<and> uint (sc_counter s) = clamp (uint (maxVal c)) (x - v) \<and> sc_wf s"
    using assms(2) sc_clamp(7,8) [OF assms(1), of "- v"] sc_clamp(10,11) [OF assms(1), of v]
    by (cases "0 \<le> v") (auto simp: sc_sub_def x_def)
  have "uint (maxVal c - sc_counter c) = (uint (maxVal c) - x) mod 256"
    by (simp add: uint_word_ariths x_def)
  also have "\<dots> = uint (maxVal c) - x"
    using x uint8_bounds [of "maxVal c"] by (intro mod_pos_pos_trivial) simp_all
  finally have d: "uint (fst (saturate c)) = uint (maxVal c) - x" by (simp add: saturate_def)
  have i: "isSaturated (snd (saturate c))" "sc_wf (sc_reset c)"
    using assms(1) by (simp_all add: saturate_def isSaturated_def sc_reset_def sc_wf_def)
  from a s r show ?thesis
    unfolding x_def [symmetric] sc_clamp(1,4) [OF assms(1)] d
    using sc_clamp(2,5) [OF assms(1)] i by blast
qed

theorem sat_counter_clamps_witness:
  "\<exists>c a. SatCounter8_new 3 5 = Inr c \<and> sc_wf c \<and> sc_add 9 c = Inr a \<and> uint (sc_counter a) = 7"
proof -
  define c where "c = \<lparr>initialVal = 5, maxVal = 7, sc_counter = 5 :: uint8\<rparr>"
  have c: "SatCounter8_new 3 5 = Inr c" unfolding c_def by code_simp
  moreover have "sc_wf c" by (simp add: c_def sc_wf_def)
  ultimately show ?thesis using sat_counter_clamps [of c 9 0] by (auto simp: c_def clamp_def)
qed

text \<open>
  C28. Left shift. The shifted value is truncated to the 8 bits of the container before it is
  compared with the maximum: the result is \<open>min maxVal (x * 2 ^ k mod 256)\<close>. It is the clamped
  product as long as the product is below 256, but a full-width counter does not saturate:
  shifting an 8-bit counter that holds 128 left by one gives 0.
\<close>

theorem left_shift_truncates_before_clamping:
  assumes "0 \<le> k" and "k < 32" and "uint (sc_counter c) * 2 ^ nat k < 2 ^ 32"
  shows "\<exists>r. sc_shl k c = Inr r
    \<and> uint (sc_counter r) = min (uint (maxVal c)) (uint (sc_counter c) * 2 ^ nat k mod 256)
    \<and> (uint (sc_counter c) * 2 ^ nat k < 256 \<and> sc_wf c \<longrightarrow>
        uint (sc_counter r) = clamp (uint (maxVal c)) (uint (sc_counter c) * 2 ^ nat k))
    \<and> (sc_counter c = 128 \<and> k = 1 \<and> maxVal c = 255 \<longrightarrow> sc_counter r = 0)"
proof -
  define p where "p = uint (sc_counter c) * 2 ^ nat k"
  have p: "0 \<le> p" by (simp add: p_def)
  have m: "uint (word_of_int p :: uint8) = p mod 256" by (simp add: unsigned_of_int take_bit_eq_mod)
  define r where "r = c\<lparr>sc_counter := (if (word_of_int p :: uint8) > maxVal c then maxVal c else word_of_int p)\<rparr>"
  have r: "sc_shl k c = Inr r"
    using assms unfolding sc_shl_def p_def [symmetric] by (simp add: Let_def r_def)
  have u: "uint (sc_counter r) = min (uint (maxVal c)) (p mod 256)"
    by (simp add: r_def word_less_def m min_def)
  moreover have "p mod 256 = p" if "p < 256" using that p by (simp add: mod_pos_pos_trivial)
  moreover have "sc_counter r = 0" if "sc_counter c = 128" "k = 1" "maxVal c = 255"
    using that by (simp add: r_def p_def)
  ultimately show ?thesis
    using r p uint8_bounds [of "maxVal c"] unfolding p_def [symmetric]
    by (auto simp: clamp_def max_def min_def)
qed

theorem left_shift_witness:
  "\<exists>r. sc_shl 1 \<lparr>initialVal = 0, maxVal = 255, sc_counter = 128\<rparr> = Inr r \<and> sc_counter r = 0"
  using left_shift_truncates_before_clamping
    [of 1 "\<lparr>initialVal = 0, maxVal = 255, sc_counter = 128\<rparr>"] by auto

end
