(* ===== verification/CircularQueue.thy ===== *)
theory CircularQueue
  imports Prelude
begin

text \<open>
  The circular queue of \<^verbatim>\<open>src/base/circular_queue.hh\<close>, the storage of the load and store queues.
  Indices grow monotonically and are reduced modulo the capacity on access; they are
  \<open>size_t\<close>, so they wrap after \<open>2 ^ 64\<close> steps, and the lemmas carry the room that is left
  before that happens. An iterator is the index it holds. The contract \<open>bounded_queue\<close> is a
  list of at most \<open>cap\<close> elements whose oldest element is dropped by a push on a full queue.
\<close>

record 'a CircularQueue =
  cq_data :: "'a list"
  cq_capacity :: size_t
  cq_size :: size_t
  cq_head :: size_t

definition CircularQueue_new :: "'a \<Rightarrow> size_t \<Rightarrow> 'a CircularQueue" where
  "CircularQueue_new dflt sz =
    \<lparr>cq_data = replicate (unat sz) dflt, cq_capacity = sz, cq_size = 0, cq_head = 1\<rparr>"

definition cq_get :: "'a CircularQueue \<Rightarrow> size_t \<Rightarrow> 'a result" where
  "cq_get q idx = checked (cq_capacity q \<noteq> 0) UndefinedBehaviour
    (Inr (cq_data q ! unat (idx mod cq_capacity q)))"

definition cq_put :: "size_t \<Rightarrow> 'a \<Rightarrow> 'a CircularQueue \<Rightarrow> 'a CircularQueue result" where
  "cq_put idx x q = checked (cq_capacity q \<noteq> 0) UndefinedBehaviour
    (Inr (q\<lparr>cq_data := (cq_data q)[unat (idx mod cq_capacity q) := x]\<rparr>))"

definition cq_flush :: "'a CircularQueue \<Rightarrow> 'a CircularQueue" where
  "cq_flush q = q\<lparr>cq_head := 1, cq_size := 0\<rparr>"

definition isValidIdx :: "'a CircularQueue \<Rightarrow> size_t \<Rightarrow> bool" where
  "isValidIdx q idx \<longleftrightarrow> cq_head q \<le> idx \<and> idx < cq_head q + cq_size q"

definition cq_tail :: "'a CircularQueue \<Rightarrow> size_t" where
  "cq_tail q = cq_head q + cq_size q - 1"

definition cq_front :: "'a CircularQueue \<Rightarrow> 'a result" where
  "cq_front q = cq_get q (cq_head q)"

definition cq_back :: "'a CircularQueue \<Rightarrow> 'a result" where
  "cq_back q = cq_get q (cq_tail q)"

definition cq_empty :: "'a CircularQueue \<Rightarrow> bool" where
  "cq_empty q \<longleftrightarrow> cq_size q = 0"

definition cq_full :: "'a CircularQueue \<Rightarrow> bool" where
  "cq_full q \<longleftrightarrow> cq_size q = cq_capacity q"

definition pop_front :: "size_t \<Rightarrow> 'a CircularQueue \<Rightarrow> 'a CircularQueue result" where
  "pop_front num_elem q = checked (num_elem \<le> cq_size q) AssertFailed
    (Inr (q\<lparr>cq_head := cq_head q + num_elem, cq_size := cq_size q - num_elem\<rparr>))"

definition pop_back :: "'a CircularQueue \<Rightarrow> 'a CircularQueue result" where
  "pop_back q = checked (\<not> cq_empty q) AssertFailed (Inr (q\<lparr>cq_size := cq_size q - 1\<rparr>))"

definition advance_tail :: "'a CircularQueue \<Rightarrow> 'a CircularQueue" where
  "advance_tail q =
    (if cq_full q then q\<lparr>cq_head := cq_head q + 1\<rparr> else q\<lparr>cq_size := cq_size q + 1\<rparr>)"

definition advance_tail_by :: "size_t \<Rightarrow> 'a CircularQueue \<Rightarrow> 'a CircularQueue" where
  "advance_tail_by len q =
    (let remaining = cq_capacity q - cq_size q in
     if len > remaining
     then let overflow = len - remaining in
          q\<lparr>cq_head := cq_head q + overflow, cq_size := cq_size q + (len - overflow)\<rparr>
     else q\<lparr>cq_size := cq_size q + len\<rparr>)"

definition push_back :: "'a \<Rightarrow> 'a CircularQueue \<Rightarrow> 'a CircularQueue result" where
  "push_back val q = (let q' = advance_tail q in cq_put (cq_tail q') val q')"

text \<open>Iterators.\<close>

definition cq_begin :: "'a CircularQueue \<Rightarrow> size_t" where
  "cq_begin q = cq_head q"

definition cq_end :: "'a CircularQueue \<Rightarrow> size_t" where
  "cq_end q = cq_tail q + 1"

definition it_deref :: "'a CircularQueue \<Rightarrow> size_t \<Rightarrow> 'a result" where
  "it_deref q it = cq_get q it"

definition dereferenceable :: "'a CircularQueue \<Rightarrow> size_t \<Rightarrow> bool" where
  "dereferenceable q it \<longleftrightarrow> isValidIdx q it"

definition it_incr :: "size_t \<Rightarrow> size_t" where
  "it_incr it = it + 1"

definition it_decr :: "'a CircularQueue \<Rightarrow> size_t \<Rightarrow> size_t result" where
  "it_decr q it = checked (it > cq_head q) AssertFailed (Inr (it - 1))"

definition it_plus :: "size_t \<Rightarrow> size_t \<Rightarrow> size_t" where
  "it_plus it t = it + t"

definition it_minus :: "'a CircularQueue \<Rightarrow> size_t \<Rightarrow> size_t \<Rightarrow> size_t result" where
  "it_minus q it t = checked (it \<ge> cq_head q + t) AssertFailed (Inr (it - t))"

definition it_diff :: "size_t \<Rightarrow> size_t \<Rightarrow> int" where
  "it_diff it that = sint it - sint that"

subsection \<open>The list a queue represents\<close>

definition cq_abs :: "'a CircularQueue \<Rightarrow> 'a list" where
  "cq_abs q = map (\<lambda>i. cq_data q ! ((unat (cq_head q) + i) mod unat (cq_capacity q)))
    [0..<unat (cq_size q)]"

text \<open>\<open>cq_wf n q\<close>: the queue is well formed and \<open>n\<close> more pushes do not wrap its indices.\<close>

definition cq_wf :: "nat \<Rightarrow> 'a CircularQueue \<Rightarrow> bool" where
  "cq_wf n q \<longleftrightarrow> cq_capacity q \<noteq> 0 \<and> length (cq_data q) = unat (cq_capacity q)
    \<and> unat (cq_size q) \<le> unat (cq_capacity q)
    \<and> unat (cq_head q) + unat (cq_capacity q) + n < 2 ^ 64"

lemma cq_get_abs:
  assumes "cq_wf n q" and "i < unat (cq_size q)"
  shows "cq_get q (cq_head q + of_nat i) = Inr (cq_abs q ! i)"
proof -
  have i: "unat (of_nat i :: size_t) = i"
    using assms by (intro unat_of_nat_small) (auto simp: cq_wf_def)
  have "unat (cq_head q + of_nat i) = unat (cq_head q) + i"
    using assms by (intro unat_add_eq [OF refl i]) (auto simp: cq_wf_def)
  then show ?thesis
    using assms by (simp add: cq_get_def cq_abs_def cq_wf_def unat_mod)
qed

lemma cq_size_Suc:
  assumes "cq_wf n q" and "\<not> cq_full q"
  shows "unat (cq_size q + 1) = Suc (unat (cq_size q))" and "Suc (unat (cq_size q)) \<le> unat (cq_capacity q)"
proof -
  have "unat (cq_size q) \<noteq> unat (cq_capacity q)" using assms(2) by (simp add: cq_full_def word_unat_eq_iff)
  then show "Suc (unat (cq_size q)) \<le> unat (cq_capacity q)" using assms(1) by (auto simp: cq_wf_def)
  then show "unat (cq_size q + 1) = Suc (unat (cq_size q))"
    using assms(1) by (intro unat_Suc_word) (auto simp: cq_wf_def)
qed

lemma mod_ring_neq:
  fixes h :: nat
  assumes "i < s" and "s < c"
  shows "(h + i) mod c \<noteq> (h + s) mod c"
proof
  assume "(h + i) mod c = (h + s) mod c"
  then have "(h + s) mod c = (h + i) mod c" by simp
  then have "c dvd (h + s) - (h + i)" using assms by (intro mod_eq_dvd_iff_nat [THEN iffD1]) simp_all
  then have "c dvd s - i" by simp
  with assms show False by (auto dest!: dvd_imp_le)
qed

lemma advance_tail_wf:
  assumes "cq_wf (Suc n) q"
  shows "cq_wf n (advance_tail q)"
    and "unat (cq_tail (advance_tail q)) =
      (if cq_full q then unat (cq_head q) + unat (cq_capacity q) else unat (cq_head q) + unat (cq_size q))"
proof -
  have h1: "unat (cq_head q + 1) = Suc (unat (cq_head q))"
    using assms by (intro unat_Suc_word) (auto simp: cq_wf_def)
  show "cq_wf n (advance_tail q)"
    using assms cq_size_Suc [OF assms] h1
    by (cases "cq_full q") (auto simp: cq_wf_def advance_tail_def)
  have "unat (cq_head q + cq_size q) = unat (cq_head q) + unat (cq_size q)"
    using assms by (intro unat_add_eq [OF refl refl]) (auto simp: cq_wf_def)
  then show "unat (cq_tail (advance_tail q)) =
      (if cq_full q then unat (cq_head q) + unat (cq_capacity q) else unat (cq_head q) + unat (cq_size q))"
    by (auto simp: advance_tail_def cq_tail_def cq_full_def algebra_simps)
qed

lemma push_back_abs:
  assumes "cq_wf (Suc n) q"
  shows "\<exists>q'. push_back x q = Inr q' \<and> cq_wf n q' \<and> cq_capacity q' = cq_capacity q
    \<and> cq_abs q' = (if cq_full q then tl (cq_abs q @ [x]) else cq_abs q @ [x])"
proof -
  define c where "c = unat (cq_capacity q)"
  define h where "h = unat (cq_head q)"
  define s where "s = unat (cq_size q)"
  have c: "0 < c" "length (cq_data q) = c" "s \<le> c"
    using assms by (auto simp: cq_wf_def c_def s_def unat_gt_0)
  define t where "t = cq_tail (advance_tail q)"
  define q' where "q' = advance_tail q\<lparr>cq_data := (cq_data q)[unat t mod c := x]\<rparr>"
  have push: "push_back x q = Inr q'"
    using assms by (simp add: push_back_def cq_put_def q'_def t_def cq_wf_def advance_tail_def unat_mod c_def Let_def)
  have wf: "cq_wf n q'"
    using advance_tail_wf(1) [OF assms]
    by (cases "cq_full q") (simp_all add: cq_wf_def q'_def advance_tail_def)
  have cap: "cq_capacity q' = cq_capacity q" by (simp add: q'_def advance_tail_def)
  have "cq_abs q' = (if cq_full q then tl (cq_abs q @ [x]) else cq_abs q @ [x])"
  proof (cases "cq_full q")
    case True
    then have sc: "s = c" by (simp add: cq_full_def s_def c_def)
    have t: "unat t mod c = h mod c" using advance_tail_wf(2) [OF assms] True by (simp add: t_def h_def c_def)
    have h1: "unat (cq_head q + 1) = Suc h"
      using assms by (simp add: h_def, intro unat_Suc_word) (auto simp: cq_wf_def)
    have "cq_abs q' = map (\<lambda>i. (cq_data q)[h mod c := x] ! ((Suc h + i) mod c)) [0..<c]"
      using True sc h1 by (simp add: cq_abs_def q'_def t advance_tail_def c_def [symmetric] s_def [symmetric])
    also have "\<dots> = map (\<lambda>i. cq_data q ! ((h + Suc i) mod c)) [0..<c - 1] @ [x]"
    proof -
      have "[0..<c] = [0..<c - 1] @ [c - 1]" using c(1) by (metis Suc_diff_1 upt_Suc_append zero_le)
      moreover have "h mod c \<noteq> Suc (h + i) mod c" if "i < c - 1" for i
        using mod_ring_neq [of 0 "Suc i" c h] that by simp
      ultimately show ?thesis using c(1,2) by simp
    qed
    also have "map (\<lambda>i. cq_data q ! ((h + Suc i) mod c)) [0..<c - 1] = tl (cq_abs q)"
      using sc c(1)
      by (intro nth_equalityI) (simp_all add: cq_abs_def h_def c_def s_def nth_tl nth_upt less_diff_conv)
    finally show ?thesis using True sc c(1) by (simp add: cq_abs_def s_def)
  next
    case False
    have t: "unat t mod c = (h + s) mod c"
      using advance_tail_wf(2) [OF assms] False by (simp add: t_def h_def c_def s_def)
    have sc: "unat (cq_size q + 1) = Suc s" "s < c" using cq_size_Suc [OF assms False] by (simp_all add: s_def c_def)
    have "(h + s) mod c \<noteq> (h + i) mod c" if "i < s" for i using mod_ring_neq [OF that sc(2), of h] by simp
    then show ?thesis
      using False sc c by (simp add: cq_abs_def q'_def advance_tail_def t c_def [symmetric] h_def [symmetric] s_def [symmetric])
  qed
  with push wf cap show ?thesis by blast
qed

lemma pop_front_abs:
  assumes "cq_wf (n + unat k) q" and "unat k \<le> unat (cq_size q)"
  shows "\<exists>q'. pop_front k q = Inr q' \<and> cq_wf n q' \<and> cq_capacity q' = cq_capacity q
    \<and> cq_abs q' = drop (unat k) (cq_abs q)"
proof -
  have h: "unat (cq_head q + k) = unat (cq_head q) + unat k"
    using assms by (intro unat_add_eq [OF refl refl]) (auto simp: cq_wf_def)
  have s: "unat (cq_size q - k) = unat (cq_size q) - unat k"
    using assms(2) by (intro unat_sub) (simp add: word_le_nat_alt)
  show ?thesis
    using assms h s
    by (auto simp: pop_front_def word_le_nat_alt cq_wf_def cq_abs_def drop_map add.assoc
        intro!: nth_equalityI)
qed

lemma pop_back_abs:
  assumes "cq_wf n q" and "cq_abs q \<noteq> []"
  shows "\<exists>q'. pop_back q = Inr q' \<and> cq_wf n q' \<and> cq_capacity q' = cq_capacity q
    \<and> cq_abs q' = butlast (cq_abs q)"
proof -
  have s: "cq_size q \<noteq> 0" using assms(2) by (auto simp: cq_abs_def)
  then obtain m where m: "unat (cq_size q) = Suc m" using unat_gt_0 [of "cq_size q"] gr0_implies_Suc by blast
  have "butlast (cq_abs q) =
    map (\<lambda>i. cq_data q ! ((unat (cq_head q) + i) mod unat (cq_capacity q))) [0..<unat (cq_size q) - 1]"
    by (simp add: cq_abs_def m)
  then show ?thesis
    using assms s unat_pred_word [OF s]
    by (auto simp: pop_back_def cq_empty_def cq_wf_def cq_abs_def)
qed

lemma length_cq_abs [simp]: "length (cq_abs q) = unat (cq_size q)"
  by (simp add: cq_abs_def)

lemma cq_full_iff: "cq_full q \<longleftrightarrow> length (cq_abs q) = unat (cq_capacity q)"
  by (simp add: cq_full_def word_unat_eq_iff)

lemma new_cq:
  assumes "cap \<noteq> 0" and "1 + unat cap + n < 2 ^ 64"
  shows "cq_wf n (CircularQueue_new d cap)" and "cq_abs (CircularQueue_new d cap) = []"
  using assms by (simp_all add: CircularQueue_new_def cq_wf_def cq_abs_def)

subsection \<open>The contract of a bounded queue\<close>

text \<open>\<open>ok n q\<close>: the queue is sound and stays so for \<open>n\<close> more pushes.\<close>

locale bounded_queue =
  fixes ok :: "nat \<Rightarrow> 'q \<Rightarrow> bool" and cont :: "'q \<Rightarrow> 'a list" and cap :: "'q \<Rightarrow> nat"
    and push :: "'a \<Rightarrow> 'q \<Rightarrow> 'q result"
  assumes push_law: "ok (Suc n) q \<Longrightarrow> \<exists>q'. push x q = Inr q' \<and> ok n q' \<and> cap q' = cap q
      \<and> cont q' = (if length (cont q) = cap q then tl (cont q @ [x]) else cont q @ [x])"
    and cap_law: "ok n q \<Longrightarrow> 0 < cap q \<and> length (cont q) \<le> cap q"
begin

lemma push_all:
  assumes "ok (n + length xs) q"
  shows "\<exists>q'. foldE push xs q = Inr q' \<and> ok n q' \<and> cap q' = cap q
    \<and> cont q' = drop (length (cont q) + length xs - cap q) (cont q @ xs)"
  using assms
proof (induction xs arbitrary: q)
  case Nil
  then show ?case using cap_law by auto
next
  case (Cons x xs)
  then have "ok (Suc (n + length xs)) q" by simp
  from push_law [OF this, of x] obtain q1 where q1: "push x q = Inr q1" "ok (n + length xs) q1"
    "cap q1 = cap q" "cont q1 = (if length (cont q) = cap q then tl (cont q @ [x]) else cont q @ [x])"
    by blast
  from Cons.IH [OF q1(2)] obtain q' where q': "foldE push xs q1 = Inr q'" "ok n q'" "cap q' = cap q"
    "cont q' = drop (length (cont q1) + length xs - cap q) (cont q1 @ xs)" using q1(3) by auto
  have c: "0 < cap q" "length (cont q) \<le> cap q" using cap_law [OF Cons.prems] by auto
  have "drop (length (cont q1) + length xs - cap q) (cont q1 @ xs) =
    drop (length (cont q) + length (x # xs) - cap q) (cont q @ x # xs)"
  proof (cases "length (cont q) = cap q")
    case True
    then obtain y ys where "cont q = y # ys" using c(1) by (cases "cont q") auto
    with True q1(4) show ?thesis by simp
  next
    case False
    then show ?thesis using q1(4) c(2) by simp
  qed
  with q1 q' show ?case by auto
qed

end

interpretation cq: bounded_queue cq_wf cq_abs "\<lambda>q. unat (cq_capacity q)" push_back
proof
  show "\<exists>q'. push_back x q = Inr q' \<and> cq_wf n q' \<and> unat (cq_capacity q') = unat (cq_capacity q)
    \<and> cq_abs q' = (if length (cq_abs q) = unat (cq_capacity q) then tl (cq_abs q @ [x]) else cq_abs q @ [x])"
    if "cq_wf (Suc n) q" for n and q :: "'a CircularQueue" and x
    using push_back_abs [OF that, of x] by (auto simp: cq_full_iff)
  show "0 < unat (cq_capacity q) \<and> length (cq_abs q) \<le> unat (cq_capacity q)"
    if "cq_wf n q" for n and q :: "'a CircularQueue"
    using that by (simp add: cq_wf_def unat_gt_0)
qed

lemma cq_abs_nonempty: "cq_abs q \<noteq> [] \<Longrightarrow> 0 < unat (cq_size q)"
  by (auto simp: cq_abs_def unat_gt_0)

lemma cq_front_abs: "cq_wf n q \<Longrightarrow> cq_abs q \<noteq> [] \<Longrightarrow> cq_front q = Inr (hd (cq_abs q))"
  using cq_get_abs [of n q 0] cq_abs_nonempty [of q] by (simp add: cq_front_def hd_conv_nth)

lemma cq_back_abs:
  assumes "cq_wf n q" and "cq_abs q \<noteq> []"
  shows "cq_back q = Inr (last (cq_abs q))"
proof -
  have s: "0 < unat (cq_size q)" using assms(2) by (rule cq_abs_nonempty)
  have "cq_tail q = cq_head q + of_nat (unat (cq_size q) - 1)"
    using s by (simp add: cq_tail_def of_nat_diff)
  then show ?thesis
    using cq_get_abs [OF assms(1), of "unat (cq_size q) - 1"] s assms(2)
    by (simp add: cq_back_def last_conv_nth)
qed

lemma cq_flush_abs: "cq_wf n q \<Longrightarrow> cq_abs (cq_flush q) = []"
  by (simp add: cq_flush_def cq_abs_def)



text \<open>
  A circular queue of capacity \<open>cap\<close> holds the last \<open>cap\<close> elements that were pushed, in order,
  whatever the number of pushes, as long as it is less than \<open>2 ^ 64 - cap - 1\<close>; every one of
  the pushes succeeds.
\<close>

theorem circular_queue_keeps_last:
  assumes "cap \<noteq> 0" and "1 + unat cap + length xs < 2 ^ 64"
  shows "\<exists>q. foldE push_back xs (CircularQueue_new d cap) = Inr q
    \<and> cq_abs q = drop (length xs - unat cap) xs
    \<and> unat (cq_size q) = min (length xs) (unat cap)"
proof -
  define q0 where "q0 = CircularQueue_new d cap"
  have q0: "cq_wf (0 + length xs) q0" "cq_abs q0 = []" "cq_capacity q0 = cap"
    using new_cq [OF assms(1), of "length xs" d] assms(2) by (simp_all add: q0_def CircularQueue_new_def)
  from cq.push_all [OF q0(1)] obtain q where "foldE push_back xs q0 = Inr q"
    "cq_abs q = drop (length xs - unat cap) xs" using q0 by auto
  moreover have "length (drop (length xs - unat cap) xs) = min (length xs) (unat cap)" by simp
  ultimately show ?thesis using length_cq_abs [of q] by (auto simp: q0_def)
qed

theorem circular_queue_keeps_last_witness:
  "\<exists>q. foldE push_back [1, 2, 3] (CircularQueue_new (0::nat) 2) = Inr q \<and> cq_abs q = [2, 3]"
  using circular_queue_keeps_last [of 2 "[1, 2, 3]" "0::nat"] by auto

end
