(* ===== verification/RegClass.thy ===== *)
theory RegClass
  imports Prelude
begin

unbundle bit_operations_syntax

text \<open>
  Register identifiers, \<^verbatim>\<open>src/cpu/reg_class.hh\<close>: the register classes, architectural register
  ids with their order and hash, and the physical register ids with the counters of pinned
  writes. \<open>RegIndex\<close> is 16 bits wide.
\<close>

type_synonym RegIndex = "16 word"

datatype RegClassType =
  IntRegClass | FloatRegClass | VecRegClass | VecElemClass | VecPredRegClass | MatRegClass
  | CCRegClass | MiscRegClass | InvalidRegClass

text \<open>The enumeration values; the order on classes is the order of these.\<close>

fun class_num :: "RegClassType \<Rightarrow> int" where
  "class_num IntRegClass = 0"
| "class_num FloatRegClass = 1"
| "class_num VecRegClass = 2"
| "class_num VecElemClass = 3"
| "class_num VecPredRegClass = 4"
| "class_num MatRegClass = 5"
| "class_num CCRegClass = 6"
| "class_num MiscRegClass = 7"
| "class_num InvalidRegClass = - 1"

lemma class_num_inj [simp]: "class_num c = class_num d \<longleftrightarrow> c = d"
  by (cases c; cases d) simp_all

lemma class_num_bounds: "- 1 \<le> class_num c" "class_num c \<le> 7"
  by (cases c; simp)+

instantiation RegClassType :: linorder
begin

definition less_eq_RegClassType :: "RegClassType \<Rightarrow> RegClassType \<Rightarrow> bool" where
  "less_eq_RegClassType c d \<longleftrightarrow> class_num c \<le> class_num d"

definition less_RegClassType :: "RegClassType \<Rightarrow> RegClassType \<Rightarrow> bool" where
  "less_RegClassType c d \<longleftrightarrow> class_num c < class_num d"

instance
  by standard (auto simp: less_eq_RegClassType_def less_RegClassType_def)

end

record RegId =
  regClassOf :: RegClassType
  regIdx :: RegIndex
  numPinnedWrites :: int

definition RegId_new :: "RegClassType \<Rightarrow> RegIndex \<Rightarrow> RegId" where
  "RegId_new c i = \<lparr>regClassOf = c, regIdx = i, numPinnedWrites = 0\<rparr>"

definition RegId_eq :: "RegId \<Rightarrow> RegId \<Rightarrow> bool" where
  "RegId_eq a b \<longleftrightarrow> regClassOf a = regClassOf b \<and> regIdx a = regIdx b"

definition RegId_less :: "RegId \<Rightarrow> RegId \<Rightarrow> bool" where
  "RegId_less a b \<longleftrightarrow> regClassOf a < regClassOf b \<or> (regClassOf a = regClassOf b \<and> regIdx a < regIdx b)"

definition isRenameable :: "RegId \<Rightarrow> bool" where
  "isRenameable r \<longleftrightarrow> regClassOf r \<noteq> MiscRegClass \<and> regClassOf r \<noteq> InvalidRegClass"

definition RegId_hash :: "RegId \<Rightarrow> uint64" where
  "RegId_hash r =
    (let index = ucast (regIdx r); class_no = word_of_int (class_num (regClassOf r));
         shifted_class_num = push_bit 16 class_no
     in index OR shifted_class_num)"

text \<open>Physical registers.\<close>

record PhysRegId =
  physClass :: RegClassType
  physIdx :: RegIndex
  flatIdx :: RegIndex
  physPinnedWrites :: int
  numPinnedWritesToComplete :: int
  pinned :: bool

definition PhysRegId_new :: "RegClassType \<Rightarrow> RegIndex \<Rightarrow> RegIndex \<Rightarrow> PhysRegId" where
  "PhysRegId_new c i flat = \<lparr>physClass = c, physIdx = i, flatIdx = flat, physPinnedWrites = 0,
    numPinnedWritesToComplete = 0, pinned = False\<rparr>"

definition invalidPhysRegId :: PhysRegId where
  "invalidPhysRegId = \<lparr>physClass = InvalidRegClass, physIdx = - 1, flatIdx = - 1,
    physPinnedWrites = 0, numPinnedWritesToComplete = 0, pinned = False\<rparr>"

definition isFixedMapping :: "PhysRegId \<Rightarrow> bool" where
  "isFixedMapping p \<longleftrightarrow> physClass p = MiscRegClass \<or> physClass p = InvalidRegClass"

definition setNumPinnedWrites :: "int \<Rightarrow> PhysRegId \<Rightarrow> PhysRegId" where
  "setNumPinnedWrites n p = p\<lparr>pinned := (n \<noteq> 0), physPinnedWrites := n\<rparr>"

definition decrNumPinnedWrites :: "PhysRegId \<Rightarrow> PhysRegId" where
  "decrNumPinnedWrites p = p\<lparr>physPinnedWrites := physPinnedWrites p - 1\<rparr>"

definition incrNumPinnedWrites :: "PhysRegId \<Rightarrow> PhysRegId" where
  "incrNumPinnedWrites p = p\<lparr>physPinnedWrites := physPinnedWrites p + 1\<rparr>"

definition setNumPinnedWritesToComplete :: "int \<Rightarrow> PhysRegId \<Rightarrow> PhysRegId" where
  "setNumPinnedWritesToComplete n p = p\<lparr>numPinnedWritesToComplete := n\<rparr>"

definition decrNumPinnedWritesToComplete :: "PhysRegId \<Rightarrow> PhysRegId" where
  "decrNumPinnedWritesToComplete p = p\<lparr>numPinnedWritesToComplete := numPinnedWritesToComplete p - 1\<rparr>"

definition incrNumPinnedWritesToComplete :: "PhysRegId \<Rightarrow> PhysRegId" where
  "incrNumPinnedWritesToComplete p = p\<lparr>numPinnedWritesToComplete := numPinnedWritesToComplete p + 1\<rparr>"

lemma phys_updates_keep_identity [simp]:
  "physClass (setNumPinnedWrites n p) = physClass p" "flatIdx (setNumPinnedWrites n p) = flatIdx p"
  "physClass (decrNumPinnedWrites p) = physClass p" "flatIdx (decrNumPinnedWrites p) = flatIdx p"
  "physClass (setNumPinnedWritesToComplete n p) = physClass p"
  "flatIdx (setNumPinnedWritesToComplete n p) = flatIdx p"
  by (simp_all add: setNumPinnedWrites_def decrNumPinnedWrites_def setNumPinnedWritesToComplete_def)

subsection \<open>Order and hash\<close>

lemma hash_index: "take_bit 16 (RegId_hash r) = ucast (regIdx r)"
  by (rule bit_eqI)
     (auto simp: RegId_hash_def Let_def bit_take_bit_iff bit_or_iff bit_push_bit_iff bit_ucast_iff
       dest: bit_imp_le_length)

lemma hash_class: "drop_bit 16 (RegId_hash r) = take_bit 48 (word_of_int (class_num (regClassOf r)))"
proof (rule bit_eqI)
  fix n
  assume "possible_bit TYPE(uint64) n"
  show "bit (drop_bit 16 (RegId_hash r)) n =
    bit (take_bit 48 (word_of_int (class_num (regClassOf r)) :: uint64)) n"
    using bit_imp_le_length [of "regIdx r" "16 + n"]
    by (auto simp: RegId_hash_def Let_def bit_drop_bit_eq bit_or_iff bit_push_bit_iff bit_ucast_iff
        bit_take_bit_iff)
qed

lemma class_word_inj:
  assumes "take_bit 48 (word_of_int (class_num c) :: uint64) = take_bit 48 (word_of_int (class_num d))"
  shows "c = d"
proof -
  have u: "uint (take_bit 48 (word_of_int i :: uint64)) = i mod 2 ^ 48" for i
    unfolding unsigned_take_bit_eq unsigned_of_int by (simp add: take_bit_eq_mod mod_mod_cancel)
  have "class_num c mod 2 ^ 48 = class_num d mod 2 ^ 48"
    unfolding u [symmetric] assms ..
  then have "class_num c = class_num d"
    by (cases c; cases d) simp_all
  then show ?thesis by simp
qed

text \<open>
  C29. Register ids as keys. \<open>operator<\<close> is a strict total order on register ids up to
  \<open>operator==\<close>, so ids can key a \<open>std::map\<close>; the hash function separates all ids, so two ids
  have the same hash exactly when they are equal.
\<close>

theorem register_ids_are_keys:
  "\<not> RegId_less a a
    \<and> (RegId_less a b \<and> RegId_less b c \<longrightarrow> RegId_less a c)
    \<and> (RegId_less a b \<or> RegId_eq a b \<or> RegId_less b a)
    \<and> \<not> (RegId_less a b \<and> RegId_eq a b)
    \<and> (RegId_hash a = RegId_hash b \<longleftrightarrow> RegId_eq a b)"
proof -
  have "RegId_eq a b" if "RegId_hash a = RegId_hash b"
  proof -
    have "(ucast (regIdx a) :: uint64) = ucast (regIdx b)" using hash_index [of a] hash_index [of b] that by simp
    then have "unat (ucast (regIdx a) :: uint64) = unat (ucast (regIdx b) :: uint64)" by simp
    moreover have "unat (ucast w :: uint64) = unat w" for w :: RegIndex
    proof -
      have "unat w < 2 ^ 64" using unsigned_less [of w, where 'a = nat] by simp
      then show ?thesis by (simp add: unsigned_ucast_eq take_bit_nat_eq_self)
    qed
    ultimately have "regIdx a = regIdx b" by (simp add: word_unat_eq_iff)
    moreover have "regClassOf a = regClassOf b" using hash_class [of a] hash_class [of b] that by (intro class_word_inj) simp
    ultimately show ?thesis by (simp add: RegId_eq_def)
  qed
  moreover have "RegId_hash a = RegId_hash b" if "RegId_eq a b"
    using that by (simp add: RegId_eq_def RegId_hash_def)
  ultimately have hash: "RegId_hash a = RegId_hash b \<longleftrightarrow> RegId_eq a b" by (rule iffI)
  have "RegId_less a c" if "RegId_less a b" "RegId_less b c"
    using that less_trans [of "regClassOf a" "regClassOf b" "regClassOf c"]
      less_trans [of "regIdx a" "regIdx b" "regIdx c"]
    unfolding RegId_less_def by (elim disjE conjE) simp_all
  then have "RegId_less a b \<and> RegId_less b c \<longrightarrow> RegId_less a c" by blast
  moreover have "RegId_less a b \<or> RegId_eq a b \<or> RegId_less b a"
    unfolding RegId_less_def RegId_eq_def by (meson linorder_less_linear)
  moreover have "\<not> RegId_less a a" "\<not> (RegId_less a b \<and> RegId_eq a b)"
    by (auto simp: RegId_less_def RegId_eq_def)
  ultimately show ?thesis using hash by blast
qed

theorem register_ids_are_keys_witness:
  "RegId_less (RegId_new InvalidRegClass 0) (RegId_new IntRegClass 3)
    \<and> RegId_less (RegId_new IntRegClass 3) (RegId_new FloatRegClass 0)
    \<and> RegId_less (RegId_new InvalidRegClass 0) (RegId_new FloatRegClass 0)"
  using register_ids_are_keys [of "RegId_new InvalidRegClass 0" "RegId_new IntRegClass 3" "RegId_new FloatRegClass 0"]
  by (auto simp: RegId_less_def RegId_new_def less_RegClassType_def)

end
