(* ===== verification/RegFile.thy ===== *)
theory RegFile
  imports IntMath
begin

unbundle bit_operations_syntax

text \<open>
  The register storage of \<^verbatim>\<open>src/cpu/regfile.hh\<close>: one byte array per register class, with a
  register every \<open>2 ^ regShift\<close> bytes. Sizes and offsets are naturals; a register file whose
  byte offsets overflow 64 bits cannot be allocated. A register value is a list of bytes;
  the 64-bit view \<open>reg<RegVal>\<close> reads eight of them in the byte order of the host, least
  significant first.
\<close>

type_synonym byte = "8 word"
type_synonym RegVal = "64 word"

record RegFile =
  rf_data :: "byte list"
  rf_size :: nat
  rf_regShift :: nat
  rf_regBytes :: nat

definition RegFile_new :: "nat \<Rightarrow> nat \<Rightarrow> nat \<Rightarrow> RegFile" where
  "RegFile_new bytes shift new_size =
    \<lparr>rf_data = replicate (new_size * 2 ^ shift) 0, rf_size = new_size, rf_regShift = shift,
     rf_regBytes = bytes\<rparr>"

primrec val_of_bytes :: "byte list \<Rightarrow> RegVal" where
  "val_of_bytes [] = 0"
| "val_of_bytes (b # bs) = ucast b OR push_bit 8 (val_of_bytes bs)"

definition bytes_of_val :: "RegVal \<Rightarrow> byte list" where
  "bytes_of_val v = map (\<lambda>i. ucast (drop_bit (8 * i) v)) [0..<8]"

text \<open>Reading and overwriting \<open>n\<close> bytes at an offset, undefined outside the array.\<close>

definition mem_read :: "nat \<Rightarrow> nat \<Rightarrow> byte list \<Rightarrow> byte list result" where
  "mem_read off n m = checked (off + n \<le> length m) UndefinedBehaviour (Inr (take n (drop off m)))"

definition mem_write :: "nat \<Rightarrow> byte list \<Rightarrow> byte list \<Rightarrow> byte list result" where
  "mem_write off bs m = checked (off + length bs \<le> length m) UndefinedBehaviour
    (Inr (take off m @ bs @ drop (off + length bs) m))"

definition rf_ptr :: "RegFile \<Rightarrow> nat \<Rightarrow> nat" where
  "rf_ptr rf idx = idx * 2 ^ rf_regShift rf"

definition rf_get :: "nat \<Rightarrow> RegFile \<Rightarrow> byte list result" where
  "rf_get idx rf = mem_read (rf_ptr rf idx) (rf_regBytes rf) (rf_data rf)"

definition rf_set :: "nat \<Rightarrow> byte list \<Rightarrow> RegFile \<Rightarrow> RegFile result" where
  "rf_set idx val rf = bindE (mem_write (rf_ptr rf idx) (take (rf_regBytes rf) val) (rf_data rf))
    (\<lambda>m. Inr (rf\<lparr>rf_data := m\<rparr>))"

definition rf_reg :: "nat \<Rightarrow> RegFile \<Rightarrow> RegVal result" where
  "rf_reg idx rf = checked (8 = rf_regBytes rf \<and> idx < rf_size rf) AssertFailed
    (bindE (mem_read (rf_ptr rf idx) 8 (rf_data rf)) (\<lambda>bs. Inr (val_of_bytes bs)))"

definition rf_reg_assign :: "nat \<Rightarrow> RegVal \<Rightarrow> RegFile \<Rightarrow> RegFile result" where
  "rf_reg_assign idx v rf = checked (8 = rf_regBytes rf \<and> idx < rf_size rf) AssertFailed
    (bindE (mem_write (rf_ptr rf idx) (bytes_of_val v) (rf_data rf)) (\<lambda>m. Inr (rf\<lparr>rf_data := m\<rparr>)))"

definition rf_clear :: "RegFile \<Rightarrow> RegFile" where
  "rf_clear rf = rf\<lparr>rf_data := replicate (length (rf_data rf)) 0\<rparr>"

subsection \<open>Bytes and values\<close>

lemma bit_val_of_bytes:
  "i < 64 \<Longrightarrow> bit (val_of_bytes bs) i \<longleftrightarrow> i div 8 < length bs \<and> bit (bs ! (i div 8)) (i mod 8)"
proof (induction bs arbitrary: i)
  case (Cons b bs)
  show ?case
  proof (cases "i < 8")
    case True
    then show ?thesis using Cons.prems by (simp add: bit_or_iff bit_ucast_iff bit_push_bit_iff)
  next
    case False
    then obtain j where j: "i = 8 + j" using le_Suc_ex [of 8 i] by auto
    have "\<not> bit b i" using False bit_imp_le_length [of b i] by auto
    moreover have "(8 + j) div 8 = Suc (j div 8)" by simp
    ultimately show ?thesis
      using Cons.IH [of j] Cons.prems by (simp add: j bit_or_iff bit_ucast_iff bit_push_bit_iff)
  qed
qed simp

lemma length_bytes_of_val [simp]: "length (bytes_of_val v) = 8"
  by (simp add: bytes_of_val_def)

lemma val_of_bytes_of_val [simp]: "val_of_bytes (bytes_of_val v) = v"
proof (rule bit_eqI)
  fix i
  assume "possible_bit TYPE(RegVal) i"
  then have i: "i < 64" by simp
  then have "i div 8 < 8" "i mod 8 < 8" by auto
  then show "bit (val_of_bytes (bytes_of_val v)) i = bit v i"
    using bit_val_of_bytes [OF i, of "bytes_of_val v"] by (simp add: bytes_of_val_def bit_ucast_iff bit_drop_bit_eq)
qed

subsection \<open>The contract of indexed storage\<close>

text \<open>
  What a register file promises its clients: a write to a slot succeeds, is what a read of
  that slot returns, and leaves every other slot alone.
\<close>

locale indexed_store =
  fixes ok :: "'s \<Rightarrow> bool" and slots :: "'s \<Rightarrow> nat" and fits :: "'s \<Rightarrow> 'v \<Rightarrow> bool"
    and get :: "nat \<Rightarrow> 's \<Rightarrow> 'v result" and set :: "nat \<Rightarrow> 'v \<Rightarrow> 's \<Rightarrow> 's result"
  assumes set_law: "ok s \<Longrightarrow> i < slots s \<Longrightarrow> fits s v \<Longrightarrow>
      \<exists>s'. set i v s = Inr s' \<and> ok s' \<and> slots s' = slots s \<and> (\<forall>w. fits s' w = fits s w)
        \<and> get i s' = Inr v \<and> (\<forall>j. j < slots s \<and> j \<noteq> i \<longrightarrow> get j s' = get j s)"
begin

text \<open>A sequence of writes leaves in every slot the last value written to it.\<close>

primrec last_write :: "(nat \<times> 'v) list \<Rightarrow> nat \<Rightarrow> 'v option" where
  "last_write [] i = None"
| "last_write (p # ps) i =
    (case last_write ps i of Some v \<Rightarrow> Some v | None \<Rightarrow> if fst p = i then Some (snd p) else None)"

lemma writes_last:
  assumes "ok s" and "list_all (\<lambda>p. fst p < slots s \<and> fits s (snd p)) ps"
  shows "\<exists>s'. foldE (\<lambda>p. set (fst p) (snd p)) ps s = Inr s' \<and> ok s'
    \<and> (\<forall>i. i < slots s \<longrightarrow> get i s' = (case last_write ps i of Some v \<Rightarrow> Inr v | None \<Rightarrow> get i s))"
  using assms
proof (induction ps arbitrary: s)
  case (Cons p ps)
  from set_law [of s "fst p" "snd p"] Cons.prems obtain s1 where s1: "set (fst p) (snd p) s = Inr s1"
    "ok s1" "slots s1 = slots s" "\<And>w. fits s1 w = fits s w" "get (fst p) s1 = Inr (snd p)"
    "\<And>j. j < slots s \<Longrightarrow> j \<noteq> fst p \<Longrightarrow> get j s1 = get j s" by auto
  from Cons.IH [OF s1(2)] Cons.prems s1 obtain s' where s': "foldE (\<lambda>p. set (fst p) (snd p)) ps s1 = Inr s'"
    "ok s'" "\<And>i. i < slots s \<Longrightarrow> get i s' = (case last_write ps i of Some v \<Rightarrow> Inr v | None \<Rightarrow> get i s1)"
    by auto
  have "get i s' = (case last_write (p # ps) i of Some v \<Rightarrow> Inr v | None \<Rightarrow> get i s)" if "i < slots s" for i
    using s'(3) [OF that] s1(5) s1(6) [OF that] by (auto split: option.splits)
  with s1 s' show ?case by auto
qed simp

end

definition rf_wf :: "RegFile \<Rightarrow> bool" where
  "rf_wf rf \<longleftrightarrow> rf_regBytes rf \<le> 2 ^ rf_regShift rf
    \<and> length (rf_data rf) = rf_size rf * 2 ^ rf_regShift rf"

lemma slot_end:
  assumes "rf_wf rf" and "i < rf_size rf"
  shows "rf_ptr rf i + rf_regBytes rf \<le> length (rf_data rf)"
proof -
  have "rf_ptr rf i + rf_regBytes rf \<le> i * 2 ^ rf_regShift rf + 2 ^ rf_regShift rf"
    using assms(1) by (simp add: rf_wf_def rf_ptr_def)
  also have "\<dots> = Suc i * 2 ^ rf_regShift rf" by simp
  also have "\<dots> \<le> rf_size rf * 2 ^ rf_regShift rf" using assms(2) by (intro mult_le_mono1) simp
  finally show ?thesis using assms(1) by (simp add: rf_wf_def)
qed

lemma slots_disjoint:
  assumes "rf_wf rf" and "i \<noteq> j"
  shows "rf_ptr rf i + rf_regBytes rf \<le> rf_ptr rf j \<or> rf_ptr rf j + rf_regBytes rf \<le> rf_ptr rf i"
proof -
  have *: "rf_ptr rf a + rf_regBytes rf \<le> rf_ptr rf b" if "a < b" for a b
  proof -
    have "rf_ptr rf a + rf_regBytes rf \<le> Suc a * 2 ^ rf_regShift rf"
      using assms(1) by (simp add: rf_wf_def rf_ptr_def)
    also have "\<dots> \<le> rf_ptr rf b" unfolding rf_ptr_def using that by (intro mult_le_mono1) simp
    finally show ?thesis .
  qed
  from assms(2) show ?thesis using * by (cases "i < j") (auto simp: not_less order_le_less)
qed

lemma mem_write_read:
  assumes "mem_write off bs m = Inr m'"
  shows "length m' = length m" and "mem_read off (length bs) m' = Inr bs"
    and "off' + n \<le> off \<or> off + length bs \<le> off' \<Longrightarrow> mem_read off' n m' = mem_read off' n m"
proof -
  have b: "off + length bs \<le> length m" and m': "m' = take off m @ bs @ drop (off + length bs) m"
    using assms by (auto simp: mem_write_def result_simps)
  show len: "length m' = length m" using b by (simp add: m')
  show "mem_read off (length bs) m' = Inr bs" using b by (simp add: mem_read_def m')
  show "mem_read off' n m' = mem_read off' n m" if "off' + n \<le> off \<or> off + length bs \<le> off'"
  proof -
    have "m' ! k = m ! k" if "k < off \<or> off + length bs \<le> k" for k
      using that b by (cases "k < off") (auto simp: m' nth_append)
    then have "take n (drop off' m') = take n (drop off' m)" if "off' + n \<le> length m"
      using that len \<open>off' + n \<le> off \<or> off + length bs \<le> off'\<close> by (intro nth_equalityI) auto
    then show ?thesis using len by (auto simp: mem_read_def checked_def)
  qed
qed

lemma rf_set_law:
  assumes "rf_wf rf" and "i < rf_size rf" and "length v = rf_regBytes rf"
  shows "\<exists>rf'. rf_set i v rf = Inr rf' \<and> rf_wf rf' \<and> rf_size rf' = rf_size rf
    \<and> rf_regBytes rf' = rf_regBytes rf \<and> rf_get i rf' = Inr v
    \<and> (\<forall>j. j < rf_size rf \<and> j \<noteq> i \<longrightarrow> rf_get j rf' = rf_get j rf)"
proof -
  have "\<exists>m. mem_write (rf_ptr rf i) v (rf_data rf) = Inr m"
    using slot_end [OF assms(1,2)] assms(3) by (simp add: mem_write_def)
  then obtain m where m: "mem_write (rf_ptr rf i) v (rf_data rf) = Inr m" by blast
  have other: "rf_get j (rf\<lparr>rf_data := m\<rparr>) = rf_get j rf" if "j \<noteq> i" for j
    using mem_write_read(3) [OF m, of "rf_ptr rf j" "rf_regBytes rf"] slots_disjoint [OF assms(1) that] assms(3)
    by (auto simp: rf_get_def rf_ptr_def)
  have "rf_get i (rf\<lparr>rf_data := m\<rparr>) = Inr v"
    using mem_write_read(2) [OF m] assms(3) by (simp add: rf_get_def rf_ptr_def)
  with m other assms mem_write_read(1) [OF m] show ?thesis
    by (auto simp: rf_set_def rf_wf_def)
qed

interpretation rf: indexed_store rf_wf rf_size "\<lambda>rf v. length v = rf_regBytes rf" rf_get rf_set
  by unfold_locales (use rf_set_law in fastforce)

lemma rf_reg_get: "rf_regBytes rf = 8 \<Longrightarrow> i < rf_size rf \<Longrightarrow>
    rf_reg i rf = bindE (rf_get i rf) (\<lambda>bs. Inr (val_of_bytes bs))"
  by (simp add: rf_reg_def rf_get_def)

lemma rf_reg_assign_set: "rf_regBytes rf = 8 \<Longrightarrow> i < rf_size rf \<Longrightarrow>
    rf_reg_assign i v rf = rf_set i (bytes_of_val v) rf"
  by (simp add: rf_reg_assign_def rf_set_def)

lemma RegFile_new_wf:
  assumes "bytes \<noteq> 0" and "bytes < 2 ^ 64" and "ceilLog2 (of_nat bytes) = Inr (int shift)"
  shows "rf_wf (RegFile_new bytes shift n)"
proof -
  have u: "unat (of_nat bytes :: uint64) = bytes" using assms(2) by (intro unat_of_nat_small) simp
  then have "(of_nat bytes :: uint64) \<noteq> 0" using assms(1) by (metis unat_0)
  from ceilLog2_bounds [OF this] assms(3) u have "bytes \<le> 2 ^ shift" by auto
  then show ?thesis by (simp add: rf_wf_def RegFile_new_def)
qed

end
