(* ===== verification/PhysRegFile.thy ===== *)
theory PhysRegFile
  imports RegClass RegFile
begin

text \<open>
  The physical register file of \<^verbatim>\<open>src/cpu/o3/regfile.cc\<close> and \<^verbatim>\<open>regfile.hh\<close>. Its constructor creates
  the physical register ids class by class with consecutive flat indices; the loops count
  in 16-bit \<open>RegIndex\<close> against a wider bound and so need not end, which the model expresses
  by \<open>None\<close>. A \<open>PhysRegIdPtr\<close> is the address of an element of one of the id vectors, or null.
  The register classes of the ISA (\<open>regClasses\<close>) are a parameter: the number of registers of
  each class, their size in bytes and its rounded-up logarithm.
\<close>

record RegClassInfo =
  numRegs :: size_t
  regBytes :: nat
  regShift :: nat

datatype PhysRegIdPtr = NullPtr | PhysPtr RegClassType nat

record PhysRegFile =
  regIds :: "RegClassType \<Rightarrow> PhysRegId list"
  numPhysical :: "RegClassType \<Rightarrow> unsigned"
  totalNumRegs :: unsigned
  regFiles :: "RegClassType \<Rightarrow> RegFile"

text \<open>The loop that creates the ids of one class, and the one for the miscellaneous registers.\<close>

partial_function (option) emplace_loop ::
  "RegClassType \<Rightarrow> unsigned \<Rightarrow> RegIndex \<Rightarrow> RegIndex \<Rightarrow> PhysRegId list \<Rightarrow> (PhysRegId list \<times> RegIndex) option"
where
  "emplace_loop c num phys_reg flat_reg_idx ids =
    (if ucast phys_reg < num
     then emplace_loop c num (phys_reg + 1) (flat_reg_idx + 1)
            (ids @ [PhysRegId_new c phys_reg flat_reg_idx])
     else Some (ids, flat_reg_idx))"

partial_function (option) misc_loop :: "size_t \<Rightarrow> RegIndex \<Rightarrow> PhysRegId list \<Rightarrow> PhysRegId list option"
where
  "misc_loop num phys_reg ids =
    (if ucast phys_reg < num
     then misc_loop num (phys_reg + 1) (ids @ [PhysRegId_new MiscRegClass phys_reg 0])
     else Some ids)"

declare emplace_loop.simps [code] misc_loop.simps [code]

text \<open>The classes in the order the constructor creates them.\<close>

definition batch_classes :: "RegClassType list" where
  "batch_classes = [IntRegClass, FloatRegClass, VecRegClass, VecElemClass, VecPredRegClass,
    MatRegClass, CCRegClass]"

fun build_ids ::
  "(RegClassType \<Rightarrow> unsigned) \<Rightarrow> RegClassType list \<Rightarrow> RegIndex \<Rightarrow> (RegClassType \<Rightarrow> PhysRegId list)
    \<Rightarrow> (RegClassType \<Rightarrow> PhysRegId list) option"
where
  "build_ids num [] flat m = Some m"
| "build_ids num (c # cs) flat m =
    (case emplace_loop c (num c) 0 flat [] of
       None \<Rightarrow> None
     | Some (ids, flat') \<Rightarrow> build_ids num cs flat' (m(c := ids)))"

definition numPhysicalVecElemRegs ::
  "unsigned \<Rightarrow> (RegClassType \<Rightarrow> RegClassInfo) \<Rightarrow> unsigned result" where
  "numPhysicalVecElemRegs num_vec info =
    checked (numRegs (info VecRegClass) \<noteq> 0) UndefinedBehaviour
      (Inr (ucast (ucast num_vec * (numRegs (info VecElemClass) div numRegs (info VecRegClass)))))"

definition PhysRegFile_new ::
  "(RegClassType \<Rightarrow> unsigned) \<Rightarrow> (RegClassType \<Rightarrow> RegClassInfo) \<Rightarrow> PhysRegFile option result" where
  "PhysRegFile_new counts info =
    bindE (numPhysicalVecElemRegs (counts VecRegClass) info) (\<lambda>elems.
      let num = counts(VecElemClass := elems) in
      Inr (case build_ids num batch_classes 0 (\<lambda>_. []) of
             None \<Rightarrow> None
           | Some ids \<Rightarrow>
             (case misc_loop (numRegs (info MiscRegClass)) 0 [] of
                None \<Rightarrow> None
              | Some misc \<Rightarrow>
                Some \<lparr>regIds = ids(MiscRegClass := misc), numPhysical = num,
                      totalNumRegs = (\<Sum>c\<leftarrow>batch_classes. num c),
                      regFiles = (\<lambda>c. RegFile_new (regBytes (info c)) (regShift (info c)) (unat (num c)))\<rparr>)))"

text \<open>The object at an address.\<close>

definition ptr_obj :: "PhysRegFile \<Rightarrow> PhysRegIdPtr \<Rightarrow> PhysRegId" where
  "ptr_obj rf p = (case p of NullPtr \<Rightarrow> invalidPhysRegId
     | PhysPtr c i \<Rightarrow> if c = InvalidRegClass then invalidPhysRegId else regIds rf c ! i)"

definition getMiscRegId :: "RegIndex \<Rightarrow> PhysRegIdPtr" where
  "getMiscRegId reg_idx = PhysPtr MiscRegClass (unat reg_idx)"

text \<open>Reading and writing register values.\<close>

definition getReg :: "PhysRegId \<Rightarrow> PhysRegFile \<Rightarrow> RegVal result" where
  "getReg phys_reg rf =
    (let idx = unat (physIdx phys_reg) in
     case physClass phys_reg of
       IntRegClass \<Rightarrow> rf_reg idx (regFiles rf IntRegClass)
     | FloatRegClass \<Rightarrow> rf_reg idx (regFiles rf FloatRegClass)
     | VecElemClass \<Rightarrow> rf_reg idx (regFiles rf VecElemClass)
     | CCRegClass \<Rightarrow> rf_reg idx (regFiles rf CCRegClass)
     | _ \<Rightarrow> Inl Panic)"

definition upd_file ::
  "RegClassType \<Rightarrow> (RegFile \<Rightarrow> RegFile result) \<Rightarrow> PhysRegFile \<Rightarrow> PhysRegFile result" where
  "upd_file c f rf = bindE (f (regFiles rf c)) (\<lambda>r. Inr (rf\<lparr>regFiles := (regFiles rf)(c := r)\<rparr>))"

definition setReg :: "PhysRegId \<Rightarrow> RegVal \<Rightarrow> PhysRegFile \<Rightarrow> PhysRegFile result" where
  "setReg phys_reg val rf =
    (let idx = unat (physIdx phys_reg) in
     case physClass phys_reg of
       InvalidRegClass \<Rightarrow> Inr rf
     | IntRegClass \<Rightarrow> upd_file IntRegClass (rf_reg_assign idx val) rf
     | FloatRegClass \<Rightarrow> upd_file FloatRegClass (rf_reg_assign idx val) rf
     | VecElemClass \<Rightarrow> upd_file VecElemClass (rf_reg_assign idx val) rf
     | CCRegClass \<Rightarrow> upd_file CCRegClass (rf_reg_assign idx val) rf
     | _ \<Rightarrow> Inl Panic)"

text \<open>The versions through a pointer to the value, here its bytes.\<close>

definition getRegBytes :: "PhysRegId \<Rightarrow> PhysRegFile \<Rightarrow> byte list result" where
  "getRegBytes phys_reg rf =
    (let idx = unat (physIdx phys_reg); whole = bindE (getReg phys_reg rf) (\<lambda>v. Inr (bytes_of_val v)) in
     case physClass phys_reg of
       IntRegClass \<Rightarrow> whole
     | FloatRegClass \<Rightarrow> whole
     | VecRegClass \<Rightarrow> rf_get idx (regFiles rf VecRegClass)
     | VecElemClass \<Rightarrow> whole
     | VecPredRegClass \<Rightarrow> rf_get idx (regFiles rf VecPredRegClass)
     | MatRegClass \<Rightarrow> rf_get idx (regFiles rf MatRegClass)
     | CCRegClass \<Rightarrow> whole
     | _ \<Rightarrow> Inl Panic)"

definition setRegBytes :: "PhysRegId \<Rightarrow> byte list \<Rightarrow> PhysRegFile \<Rightarrow> PhysRegFile result" where
  "setRegBytes phys_reg val rf =
    (let idx = unat (physIdx phys_reg); whole = setReg phys_reg (val_of_bytes (take 8 val)) rf in
     case physClass phys_reg of
       IntRegClass \<Rightarrow> whole
     | FloatRegClass \<Rightarrow> whole
     | VecRegClass \<Rightarrow> upd_file VecRegClass (rf_set idx val) rf
     | VecElemClass \<Rightarrow> whole
     | VecPredRegClass \<Rightarrow> upd_file VecPredRegClass (rf_set idx val) rf
     | MatRegClass \<Rightarrow> upd_file MatRegClass (rf_set idx val) rf
     | CCRegClass \<Rightarrow> whole
     | _ \<Rightarrow> Inl Panic)"

definition getWritableReg :: "PhysRegId \<Rightarrow> PhysRegFile \<Rightarrow> (RegClassType \<times> nat) result" where
  "getWritableReg phys_reg rf =
    (let idx = unat (physIdx phys_reg) in
     case physClass phys_reg of
       VecRegClass \<Rightarrow> Inr (VecRegClass, rf_ptr (regFiles rf VecRegClass) idx)
     | VecPredRegClass \<Rightarrow> Inr (VecPredRegClass, rf_ptr (regFiles rf VecPredRegClass) idx)
     | MatRegClass \<Rightarrow> Inr (MatRegClass, rf_ptr (regFiles rf MatRegClass) idx)
     | _ \<Rightarrow> Inl Panic)"

subsection \<open>The constructor's loops\<close>

lemma unat_ucast_16_32: "unat (ucast (w :: RegIndex) :: unsigned) = unat w"
proof -
  have "unat w < 2 ^ 32" using unsigned_less [of w, where 'a = nat] by simp
  then show ?thesis by (simp add: unsigned_ucast_eq take_bit_nat_eq_self)
qed

lemma emplace_loop_run:
  assumes "unat num < 2 ^ 16" and "unat p \<le> unat num"
  shows "emplace_loop c num p flat ids =
    Some (ids @ map (\<lambda>i. PhysRegId_new c (p + of_nat i) (flat + of_nat i)) [0..<unat num - unat p],
          flat + of_nat (unat num - unat p))"
  using assms
proof (induction "unat num - unat p" arbitrary: p flat ids)
  case 0
  then have "\<not> (ucast p :: unsigned) < num" by (simp add: word_less_nat_alt unat_ucast_16_32)
  then show ?case using 0 by (subst emplace_loop.simps) simp
next
  case (Suc n)
  then have lt: "unat p < unat num" by linarith
  then have less: "(ucast p :: unsigned) < num" by (simp add: word_less_nat_alt unat_ucast_16_32)
  have p1: "unat (p + 1) = Suc (unat p)" using lt Suc.prems by (intro unat_Suc_word) simp
  have IH: "emplace_loop c num (p + 1) (flat + 1) (ids @ [PhysRegId_new c p flat]) =
    Some ((ids @ [PhysRegId_new c p flat]) @
        map (\<lambda>i. PhysRegId_new c (p + 1 + of_nat i) (flat + 1 + of_nat i)) [0..<unat num - unat (p + 1)],
      flat + 1 + of_nat (unat num - unat (p + 1)))"
    using Suc lt p1 by (intro Suc.hyps) simp_all
  have n: "unat num - unat p = Suc (unat num - unat (p + 1))" using lt p1 by simp
  show ?case
    unfolding n using less IH
    by (subst emplace_loop.simps) (simp add: upt_conv_Cons map_Suc_upt [symmetric] o_def ac_simps del: upt_Suc map_Suc_upt)
qed

lemma emplace_loop_diverges:
  assumes "2 ^ 16 \<le> unat num"
  shows "emplace_loop c num p flat ids = None"
proof (rule ccontr)
  assume "emplace_loop c num p flat ids \<noteq> None"
  then obtain r where r: "emplace_loop c num p flat ids = Some r" by blast
  have "\<not> (\<forall>p :: RegIndex. (ucast p :: unsigned) < num)"
    by (induct rule: emplace_loop.raw_induct [OF _ r]) (auto split: if_splits intro: exI)
  moreover have "(ucast p :: unsigned) < num" for p :: RegIndex
    using assms unsigned_less [of p, where 'a = nat] by (simp add: word_less_nat_alt unat_ucast_16_32)
  ultimately show False by blast
qed

lemma unat_ucast_16_64: "unat (ucast (w :: RegIndex) :: size_t) = unat w"
proof -
  have "unat w < 2 ^ 64" using unsigned_less [of w, where 'a = nat] by simp
  then show ?thesis by (simp add: unsigned_ucast_eq take_bit_nat_eq_self)
qed

lemma misc_loop_run:
  assumes "unat num < 2 ^ 16" and "unat p \<le> unat num"
  shows "misc_loop num p ids =
    Some (ids @ map (\<lambda>i. PhysRegId_new MiscRegClass (p + of_nat i) 0) [0..<unat num - unat p])"
  using assms
proof (induction "unat num - unat p" arbitrary: p ids)
  case 0
  then have "\<not> (ucast p :: size_t) < num" by (simp add: word_less_nat_alt unat_ucast_16_64)
  then show ?case using 0 by (subst misc_loop.simps) simp
next
  case (Suc n)
  then have lt: "unat p < unat num" by linarith
  then have less: "(ucast p :: size_t) < num" by (simp add: word_less_nat_alt unat_ucast_16_64)
  have p1: "unat (p + 1) = Suc (unat p)" using lt Suc.prems by (intro unat_Suc_word) simp
  have IH: "misc_loop num (p + 1) (ids @ [PhysRegId_new MiscRegClass p 0]) =
    Some ((ids @ [PhysRegId_new MiscRegClass p 0]) @
        map (\<lambda>i. PhysRegId_new MiscRegClass (p + 1 + of_nat i) 0) [0..<unat num - unat (p + 1)])"
    using Suc lt p1 by (intro Suc.hyps) simp_all
  have n: "unat num - unat p = Suc (unat num - unat (p + 1))" using lt p1 by simp
  show ?case
    unfolding n using less IH
    by (subst misc_loop.simps) (simp add: upt_conv_Cons map_Suc_upt [symmetric] o_def ac_simps del: upt_Suc map_Suc_upt)
qed

lemma misc_loop_diverges:
  assumes "2 ^ 16 \<le> unat num"
  shows "misc_loop num p ids = None"
proof (rule ccontr)
  assume "misc_loop num p ids \<noteq> None"
  then obtain r where r: "misc_loop num p ids = Some r" by blast
  have "\<not> (\<forall>p :: RegIndex. (ucast p :: size_t) < num)"
    by (induct rule: misc_loop.raw_induct [OF _ r]) (auto split: if_splits intro: exI)
  moreover have "(ucast p :: size_t) < num" for p :: RegIndex
    using assms unsigned_less [of p, where 'a = nat] by (simp add: word_less_nat_alt unat_ucast_16_64)
  ultimately show False by blast
qed

text \<open>The flat index of the first register of a class.\<close>

fun flat_base :: "(RegClassType \<Rightarrow> unsigned) \<Rightarrow> RegClassType list \<Rightarrow> RegClassType \<Rightarrow> nat" where
  "flat_base num [] c = 0"
| "flat_base num (d # ds) c = (if d = c then 0 else unat (num d) + flat_base num ds c)"

lemma build_ids_run:
  assumes "distinct cs" and "\<And>c. c \<in> set cs \<Longrightarrow> unat (num c) < 2 ^ 16"
  shows "build_ids num cs flat m = Some (\<lambda>c. if c \<in> set cs
    then map (\<lambda>i. PhysRegId_new c (of_nat i) (flat + of_nat (flat_base num cs c + i))) [0..<unat (num c)]
    else m c)"
  using assms
proof (induction cs arbitrary: flat m)
  case (Cons d cs)
  have "emplace_loop d (num d) 0 flat [] =
    Some (map (\<lambda>i. PhysRegId_new d (of_nat i) (flat + of_nat i)) [0..<unat (num d)], flat + of_nat (unat (num d)))"
    using emplace_loop_run [of "num d" 0 d flat "[]"] Cons.prems(2) [of d] by simp
  then show ?case
    using Cons.IH Cons.prems by (auto simp: fun_eq_iff ac_simps)
qed simp

lemma build_ids_diverges:
  assumes "c \<in> set cs" and "2 ^ 16 \<le> unat (num c)"
  shows "build_ids num cs flat m = None"
  using assms
  by (induction cs arbitrary: flat m) (auto simp: emplace_loop_diverges split: option.splits)

lemma flat_base_less:
  "c \<in> set cs \<Longrightarrow> i < unat (num c) \<Longrightarrow> flat_base num cs c + i < (\<Sum>c\<leftarrow>cs. unat (num c))"
  by (induction cs) auto

lemma flat_base_inj:
  assumes "c \<in> set cs" and "d \<in> set cs" and "i < unat (num c)" and "j < unat (num d)"
    and "flat_base num cs c + i = flat_base num cs d + j"
  shows "c = d \<and> i = j"
  using assms by (induction cs) (auto split: if_splits)

lemma distinct_batch_classes: "distinct batch_classes"
  by (simp add: batch_classes_def)

lemma batch_classes_iff: "c \<in> set batch_classes \<longleftrightarrow> c \<noteq> MiscRegClass \<and> c \<noteq> InvalidRegClass"
  by (cases c) (simp_all add: batch_classes_def)

text \<open>The register file that a constructor call builds.\<close>

lemma PhysRegFile_new_built:
  assumes "numPhysicalVecElemRegs (counts VecRegClass) info = Inr elems"
    and "num = counts(VecElemClass := elems)"
    and "(\<forall>c \<in> set batch_classes. unat (num c) < 2 ^ 16) \<and> unat (numRegs (info MiscRegClass)) < 2 ^ 16"
  shows "\<exists>rf. PhysRegFile_new counts info = Inr (Some rf) \<and> numPhysical rf = num
       \<and> totalNumRegs rf = (\<Sum>c\<leftarrow>batch_classes. num c)
       \<and> (\<forall>c \<in> set batch_classes. length (regIds rf c) = unat (num c)
           \<and> (\<forall>i < unat (num c). physClass (regIds rf c ! i) = c \<and> unat (physIdx (regIds rf c ! i)) = i))
       \<and> ((\<Sum>c\<leftarrow>batch_classes. unat (num c)) \<le> 2 ^ 16 \<longrightarrow>
           (\<forall>c \<in> set batch_classes. \<forall>i < unat (num c).
             unat (flatIdx (regIds rf c ! i)) < (\<Sum>c\<leftarrow>batch_classes. unat (num c))
             \<and> (\<forall>d \<in> set batch_classes. \<forall>j < unat (num d).
                 flatIdx (regIds rf c ! i) = flatIdx (regIds rf d ! j) \<longrightarrow> c = d \<and> i = j)))"
proof -
  define ids where "ids c = map (\<lambda>i. PhysRegId_new c (of_nat i) (of_nat (flat_base num batch_classes c + i)))
    [0..<unat (num c)]" for c
  have b: "build_ids num batch_classes 0 (\<lambda>_. []) = Some (\<lambda>c. if c \<in> set batch_classes then ids c else [])"
    using build_ids_run [OF distinct_batch_classes, of num 0 "\<lambda>_. []"] assms(3)
    unfolding ids_def add_0_left by blast
  have m: "misc_loop (numRegs (info MiscRegClass)) 0 [] \<noteq> None"
    using misc_loop_run [of "numRegs (info MiscRegClass)" 0 "[]"] assms(3) by simp
  then obtain misc where misc: "misc_loop (numRegs (info MiscRegClass)) 0 [] = Some misc" by blast
  then obtain rf where rf: "PhysRegFile_new counts info = Inr (Some rf)"
    and num: "numPhysical rf = num" "totalNumRegs rf = (\<Sum>c\<leftarrow>batch_classes. num c)"
    and ids: "\<And>c. c \<in> set batch_classes \<Longrightarrow> regIds rf c = ids c"
    using assms(1,2) b by (auto simp: PhysRegFile_new_def Let_def batch_classes_iff fun_upd_def)
  have i16: "unat (of_nat i :: RegIndex) = i" if "i < 2 ^ 16" for i
    using that by (intro unat_of_nat_small) simp
  have one: "physClass (ids c ! i) = c \<and> unat (physIdx (ids c ! i)) = i"
    if "c \<in> set batch_classes" "i < unat (num c)" for c i
    using that assms(3) i16 [of i] by (auto simp: ids_def PhysRegId_new_def)
  have flat: "unat (flatIdx (ids c ! i)) = flat_base num batch_classes c + i"
    if "(\<Sum>c\<leftarrow>batch_classes. unat (num c)) \<le> 2 ^ 16" "c \<in> set batch_classes" "i < unat (num c)" for c i
    using that i16 [of "flat_base num batch_classes c + i"] flat_base_less [where num = num, OF that(2,3)]
    by (simp add: ids_def PhysRegId_new_def del: of_nat_add)
  have inj: "c = d \<and> i = j"
    if "(\<Sum>c\<leftarrow>batch_classes. unat (num c)) \<le> 2 ^ 16" "c \<in> set batch_classes" "i < unat (num c)"
      "d \<in> set batch_classes" "j < unat (num d)" "flatIdx (ids c ! i) = flatIdx (ids d ! j)" for c d i j
    using flat_base_inj [where num = num, OF that(2,4,3,5)] flat [OF that(1,2,3)] flat [OF that(1,4,5)] that(6) by simp
  have len: "length (ids c) = unat (num c)" for c by (simp add: ids_def)
  have less: "unat (flatIdx (ids c ! i)) < (\<Sum>c\<leftarrow>batch_classes. unat (num c))"
    if "(\<Sum>c\<leftarrow>batch_classes. unat (num c)) \<le> 2 ^ 16" "c \<in> set batch_classes" "i < unat (num c)" for c i
    using flat [OF that] flat_base_less [where num = num, OF that(2,3)] by simp
  show ?thesis
    using ids
    by (intro exI [of _ rf] conjI ballI allI impI; simp only: rf num len one less) (use inj in blast)+
qed

lemma PhysRegFile_new_diverges:
  assumes "numPhysicalVecElemRegs (counts VecRegClass) info = Inr elems"
    and "num = counts(VecElemClass := elems)"
    and False: "\<not> ((\<forall>c \<in> set batch_classes. unat (num c) < 2 ^ 16) \<and> unat (numRegs (info MiscRegClass)) < 2 ^ 16)"
  shows "PhysRegFile_new counts info = Inr None"
proof -
  from False have "build_ids num batch_classes 0 (\<lambda>_. []) = None \<or> misc_loop (numRegs (info MiscRegClass)) 0 [] = None"
    using build_ids_diverges [of _ batch_classes num 0 "\<lambda>_. []"] misc_loop_diverges [of "numRegs (info MiscRegClass)" 0 "[]"]
    by (auto simp: not_less)
  then show ?thesis
    using assms by (auto simp: PhysRegFile_new_def Let_def split: option.splits)
qed



subsection \<open>Register values\<close>

text \<open>The classes whose registers hold one \<open>RegVal\<close>.\<close>

definition scalar_class :: "RegClassType \<Rightarrow> bool" where
  "scalar_class c \<longleftrightarrow> c \<in> {IntRegClass, FloatRegClass, VecElemClass, CCRegClass}"

definition files_wf :: "PhysRegFile \<Rightarrow> bool" where
  "files_wf rf \<longleftrightarrow> (\<forall>c. rf_wf (regFiles rf c)) \<and> (\<forall>c. scalar_class c \<longrightarrow> rf_regBytes (regFiles rf c) = 8)"

definition valid_reg :: "PhysRegFile \<Rightarrow> PhysRegId \<Rightarrow> bool" where
  "valid_reg rf p \<longleftrightarrow> unat (physIdx p) < rf_size (regFiles rf (physClass p))"

lemma getReg_scalar:
  assumes "scalar_class (physClass p)"
  shows "getReg p rf = rf_reg (unat (physIdx p)) (regFiles rf (physClass p))"
    and "setReg p v rf = upd_file (physClass p) (rf_reg_assign (unat (physIdx p)) v) rf"
  using assms by (auto simp: getReg_def setReg_def scalar_class_def Let_def)

text \<open>
  C31. Register values read back. On a well-formed register file, writing a 64-bit value to an
  integer, floating-point, vector-element or condition-code register succeeds; the register
  then reads as that value, every other register of these classes is unchanged, and
  the byte-wise accessors agree with the value accessors. Reading a register of any other
  class by value panics.
\<close>

theorem register_values_read_back:
  assumes "files_wf rf" and "scalar_class (physClass p)" and "valid_reg rf p"
  shows "(\<exists>rf'. setReg p v rf = Inr rf' \<and> files_wf rf' \<and> getReg p rf' = Inr v
      \<and> getRegBytes p rf' = Inr (bytes_of_val v) \<and> setRegBytes p (bytes_of_val v) rf = Inr rf'
      \<and> (\<forall>q. scalar_class (physClass q) \<and> valid_reg rf q
          \<and> (physClass q \<noteq> physClass p \<or> physIdx q \<noteq> physIdx p) \<longrightarrow> getReg q rf' = getReg q rf))
    \<and> (\<forall>q. \<not> scalar_class (physClass q) \<longrightarrow> getReg q rf = Inl Panic)"
proof -
  define c where "c = physClass p"
  define i where "i = unat (physIdx p)"
  define f where "f = regFiles rf c"
  have f: "rf_wf f" "rf_regBytes f = 8" "i < rf_size f"
    using assms by (auto simp: files_wf_def f_def c_def valid_reg_def i_def)
  from rf.set_law [OF f(1,3), of "bytes_of_val v"] f(2) obtain f' where
    f': "rf_set i (bytes_of_val v) f = Inr f'" "rf_wf f'" "rf_size f' = rf_size f"
      "rf_regBytes f' = 8" "rf_get i f' = Inr (bytes_of_val v)"
      "\<And>j. j < rf_size f \<Longrightarrow> j \<noteq> i \<Longrightarrow> rf_get j f' = rf_get j f"
    using length_bytes_of_val [of v] by metis
  define rf' where "rf' = rf\<lparr>regFiles := (regFiles rf)(c := f')\<rparr>"
  have set: "setReg p v rf = Inr rf'"
    using getReg_scalar(2) [OF assms(2)] f f'(1) rf_reg_assign_set [OF f(2,3)]
    by (simp add: upd_file_def rf'_def c_def f_def i_def)
  have get: "getReg p rf' = Inr v"
    using getReg_scalar(1) [OF assms(2)] rf_reg_get [of f' i] f' f(3) by (simp add: rf'_def c_def i_def)
  have "files_wf rf'" using assms(1) f' by (auto simp: files_wf_def rf'_def c_def)
  moreover have "getReg q rf' = getReg q rf"
    if "scalar_class (physClass q)" "valid_reg rf q" "physClass q \<noteq> physClass p \<or> physIdx q \<noteq> physIdx p" for q
  proof (cases "physClass q = c")
    case True
    then have j: "unat (physIdx q) < rf_size f" "unat (physIdx q) \<noteq> i"
      using that by (auto simp: valid_reg_def f_def c_def i_def word_unat_eq_iff)
    then show ?thesis
      using getReg_scalar(1) [OF that(1)] True f'(3,4) f'(6) [OF j] f(2)
      by (simp add: rf_reg_get rf'_def f_def [symmetric])
  next
    case False
    then show ?thesis using getReg_scalar(1) [OF that(1)] by (simp add: rf'_def)
  qed
  moreover have "getRegBytes p rf' = Inr (bytes_of_val v)" "setRegBytes p (bytes_of_val v) rf = Inr rf'"
    using assms(2) get set by (auto simp: getRegBytes_def setRegBytes_def scalar_class_def Let_def)
  moreover have "getReg q rf = Inl Panic" if "\<not> scalar_class (physClass q)" for q
    using that by (cases "physClass q") (auto simp: getReg_def scalar_class_def)
  ultimately show ?thesis using set get by blast
qed

theorem register_values_witness:
  "\<exists>rf'. setReg (PhysRegId_new IntRegClass 1 1) 42
      \<lparr>regIds = (\<lambda>_. []), numPhysical = (\<lambda>_. 2), totalNumRegs = 2, regFiles = (\<lambda>_. RegFile_new 8 3 2)\<rparr>
    = Inr rf' \<and> getReg (PhysRegId_new IntRegClass 1 1) rf' = Inr 42"
proof -
  define rf where "rf = \<lparr>regIds = (\<lambda>_. []), numPhysical = (\<lambda>_. 2), totalNumRegs = 2,
    regFiles = (\<lambda>_. RegFile_new 8 3 2)\<rparr>"
  have "files_wf rf" "scalar_class (physClass (PhysRegId_new IntRegClass 1 1))"
    "valid_reg rf (PhysRegId_new IntRegClass 1 1)"
    by (simp_all add: rf_def files_wf_def rf_wf_def RegFile_new_def scalar_class_def valid_reg_def PhysRegId_new_def)
  from register_values_read_back [OF this, of 42] show ?thesis unfolding rf_def by blast
qed

end
