(* ===== verification/RenameMap.thy ===== *)
theory RenameMap
  imports PhysRegFile "HOL-Library.Multiset"
begin

text \<open>
  Register renaming storage: the free lists (\<^verbatim>\<open>src/cpu/o3/free_list.hh\<close>), the rename maps
  (\<^verbatim>\<open>rename_map.cc\<close>, \<^verbatim>\<open>rename_map.hh\<close>), the scoreboard (\<^verbatim>\<open>scoreboard.hh\<close>), and their set-up in
  \<^verbatim>\<open>regfile.cc\<close> and the constructor of the CPU (\<^verbatim>\<open>cpu.cc\<close>).

  \<open>rename_state\<close> gathers what these objects share: the free list of each class, the map of each
  thread and class, the physical register objects by address (they carry the counters of
  pinned writes) and the scoreboard. The history buffers of the rename stage are a field
  as well, so that the operations of the stage act on the same state.
\<close>

record RenameHistory =
  instSeqNum :: InstSeqNum
  archReg :: RegId
  newPhysReg :: PhysRegIdPtr
  prevPhysReg :: PhysRegIdPtr

record rename_state =
  freeLists :: "RegClassType \<Rightarrow> PhysRegIdPtr list"
  renameMap :: "ThreadID \<Rightarrow> RegClassType \<Rightarrow> PhysRegIdPtr list"
  physRegs :: "PhysRegIdPtr \<Rightarrow> PhysRegId"
  regScoreBoard :: "bool list"
  numPhysRegs :: unsigned
  historyBuffer :: "ThreadID \<Rightarrow> RenameHistory list"

subsection \<open>Free lists\<close>

definition fl_addReg :: "PhysRegIdPtr \<Rightarrow> PhysRegIdPtr list \<Rightarrow> PhysRegIdPtr list" where
  "fl_addReg reg fl = fl @ [reg]"

definition fl_addRegs :: "PhysRegIdPtr list \<Rightarrow> PhysRegIdPtr list \<Rightarrow> PhysRegIdPtr list" where
  "fl_addRegs regs fl = fold fl_addReg regs fl"

definition fl_getReg :: "PhysRegIdPtr list \<Rightarrow> (PhysRegIdPtr \<times> PhysRegIdPtr list) result" where
  "fl_getReg fl = checked (fl \<noteq> []) AssertFailed (Inr (hd fl, tl fl))"

definition numFreeRegs :: "PhysRegIdPtr list \<Rightarrow> unsigned" where
  "numFreeRegs fl = of_nat (length fl)"

definition hasFreeRegs :: "PhysRegIdPtr list \<Rightarrow> bool" where
  "hasFreeRegs fl \<longleftrightarrow> fl \<noteq> []"

definition deref :: "PhysRegIdPtr \<Rightarrow> rename_state \<Rightarrow> PhysRegId result" where
  "deref p s = checked (p \<noteq> NullPtr) UndefinedBehaviour (Inr (physRegs s p))"

definition ufl_getReg :: "RegClassType \<Rightarrow> rename_state \<Rightarrow> (PhysRegIdPtr \<times> rename_state) result" where
  "ufl_getReg type s = bindE (fl_getReg (freeLists s type))
    (\<lambda>(r, fl). Inr (r, s\<lparr>freeLists := (freeLists s)(type := fl)\<rparr>))"

definition ufl_addReg :: "PhysRegIdPtr \<Rightarrow> rename_state \<Rightarrow> rename_state result" where
  "ufl_addReg freed_reg s = bindE (deref freed_reg s)
    (\<lambda>obj. let c = physClass obj in
       Inr (s\<lparr>freeLists := (freeLists s)(c := fl_addReg freed_reg (freeLists s c))\<rparr>))"

definition ufl_addRegs :: "PhysRegIdPtr list \<Rightarrow> rename_state \<Rightarrow> rename_state result" where
  "ufl_addRegs regs s = foldE ufl_addReg regs s"

text \<open>\<open>PhysRegFile::initFreeList\<close>: check the indices of each batch, then free it.\<close>

definition initFreeList_class :: "PhysRegFile \<Rightarrow> RegClassType \<Rightarrow> rename_state \<Rightarrow> rename_state result" where
  "initFreeList_class rf c s =
    bindE (foldE (\<lambda>i u. checked (i < length (regIds rf c)) UndefinedBehaviour
                    (checked (unat (physIdx (regIds rf c ! i)) = i) AssertFailed (Inr u)))
             [0..<unat (numPhysical rf c)] ())
      (\<lambda>_. ufl_addRegs (map (PhysPtr c) [0..<length (regIds rf c)]) s)"

definition initFreeList :: "PhysRegFile \<Rightarrow> rename_state \<Rightarrow> rename_state result" where
  "initFreeList rf s = foldE (initFreeList_class rf) batch_classes s"

subsection \<open>Rename maps\<close>

definition map_entry :: "ThreadID \<Rightarrow> RegClassType \<Rightarrow> nat \<Rightarrow> PhysRegIdPtr \<Rightarrow> rename_state \<Rightarrow> rename_state" where
  "map_entry tid c i p s = s\<lparr>renameMap := (renameMap s)(tid := (renameMap s tid)(c := (renameMap s tid c)[i := p]))\<rparr>"

definition upd_obj :: "PhysRegIdPtr \<Rightarrow> (PhysRegId \<Rightarrow> PhysRegId) \<Rightarrow> rename_state \<Rightarrow> rename_state" where
  "upd_obj p f s = s\<lparr>physRegs := (physRegs s)(p := f (physRegs s p))\<rparr>"

definition SimpleRenameMap_init :: "ThreadID \<Rightarrow> RegClassType \<Rightarrow> RegClassInfo \<Rightarrow> rename_state \<Rightarrow> rename_state result" where
  "SimpleRenameMap_init tid c info s =
    checked (renameMap s tid c = []) AssertFailed
      (Inr (s\<lparr>renameMap := (renameMap s)(tid := (renameMap s tid)(c := replicate (unat (numRegs info)) NullPtr))\<rparr>))"

definition SimpleRenameMap_rename ::
  "ThreadID \<Rightarrow> RegClassType \<Rightarrow> RegId \<Rightarrow> rename_state \<Rightarrow> ((PhysRegIdPtr \<times> PhysRegIdPtr) \<times> rename_state) result" where
  "SimpleRenameMap_rename tid c arch_reg s =
    (let m = renameMap s tid c; i = unat (regIdx arch_reg); prev_reg = m ! i in
     checked (i < length m) UndefinedBehaviour
       (bindE (deref prev_reg s) (\<lambda>prev.
         if regClassOf arch_reg = InvalidRegClass
         then checked (physClass prev = InvalidRegClass) AssertFailed (Inr ((prev_reg, prev_reg), s))
         else if physPinnedWrites prev > 0
         then checked (numPinnedWrites arch_reg = 0) AssertFailed
                (Inr ((prev_reg, prev_reg), upd_obj prev_reg decrNumPinnedWrites s))
         else bindE (ufl_getReg c s) (\<lambda>(renamed_reg, s1).
           bindE (deref renamed_reg s1) (\<lambda>_.
             Inr ((renamed_reg, prev_reg),
               upd_obj renamed_reg
                 (\<lambda>r. setNumPinnedWritesToComplete (numPinnedWrites arch_reg + 1)
                        (setNumPinnedWrites (numPinnedWrites arch_reg) r))
                 (map_entry tid c i renamed_reg s1)))))))"

definition SimpleRenameMap_lookup :: "ThreadID \<Rightarrow> RegClassType \<Rightarrow> RegId \<Rightarrow> rename_state \<Rightarrow> PhysRegIdPtr result" where
  "SimpleRenameMap_lookup tid c arch_reg s =
    (let m = renameMap s tid c; i = unat (regIdx arch_reg) in
     checked (i \<le> length m) AssertFailed (checked (i < length m) UndefinedBehaviour (Inr (m ! i))))"

definition SimpleRenameMap_setEntry ::
  "ThreadID \<Rightarrow> RegClassType \<Rightarrow> RegId \<Rightarrow> PhysRegIdPtr \<Rightarrow> rename_state \<Rightarrow> rename_state result" where
  "SimpleRenameMap_setEntry tid c arch_reg phys_reg s =
    (let m = renameMap s tid c; i = unat (regIdx arch_reg) in
     checked (i \<le> length m) AssertFailed
       (checked (i < length m) UndefinedBehaviour (Inr (map_entry tid c i phys_reg s))))"

definition map_lookup :: "ThreadID \<Rightarrow> RegId \<Rightarrow> rename_state \<Rightarrow> PhysRegIdPtr result" where
  "map_lookup tid arch_reg s =
    (let reg_class = regClassOf arch_reg in
     if reg_class = InvalidRegClass then Inr (PhysPtr InvalidRegClass 0)
     else if reg_class = MiscRegClass then Inr (getMiscRegId (regIdx arch_reg))
     else SimpleRenameMap_lookup tid reg_class arch_reg s)"

definition map_rename ::
  "ThreadID \<Rightarrow> RegId \<Rightarrow> rename_state \<Rightarrow> ((PhysRegIdPtr \<times> PhysRegIdPtr) \<times> rename_state) result" where
  "map_rename tid arch_reg s =
    (if \<not> isRenameable arch_reg
     then bindE (map_lookup tid arch_reg s) (\<lambda>phys_reg. Inr ((phys_reg, phys_reg), s))
     else SimpleRenameMap_rename tid (regClassOf arch_reg) arch_reg s)"

definition map_setEntry :: "ThreadID \<Rightarrow> RegId \<Rightarrow> PhysRegIdPtr \<Rightarrow> rename_state \<Rightarrow> rename_state result" where
  "map_setEntry tid arch_reg phys_reg s =
    bindE (deref phys_reg s) (\<lambda>obj.
      checked (physClass obj = regClassOf arch_reg) AssertFailed
        (if \<not> isRenameable arch_reg
         then bindE (map_lookup tid arch_reg s) (\<lambda>cur. checked (phys_reg = cur) AssertFailed (Inr s))
         else SimpleRenameMap_setEntry tid (regClassOf arch_reg) arch_reg phys_reg s))"

definition map_numFreeEntries :: "ThreadID \<Rightarrow> rename_state \<Rightarrow> unsigned" where
  "map_numFreeEntries tid s =
    fold (\<lambda>c m. if renameMap s tid c \<noteq> [] then min m (numFreeRegs (freeLists s c)) else m) batch_classes (- 1)"

definition canRename :: "(RegClassType \<Rightarrow> nat) \<Rightarrow> rename_state \<Rightarrow> bool" where
  "canRename numDestRegs s \<longleftrightarrow>
    list_all (\<lambda>c. \<not> of_nat (numDestRegs c) > numFreeRegs (freeLists s c)) batch_classes"

text \<open>
  The constructor of the CPU maps every architectural register of the active threads to a
  register from the free list. The iteration over a class runs over 16-bit indices up to the
  16-bit value of its size.
\<close>

definition init_class :: "(RegClassType \<Rightarrow> RegClassInfo) \<Rightarrow> ThreadID \<Rightarrow> RegClassType \<Rightarrow> rename_state \<Rightarrow> rename_state result" where
  "init_class info tid c s =
    foldE (\<lambda>i s. bindE (ufl_getReg c s) (\<lambda>(phys_reg, s1).
             map_setEntry tid (RegId_new c (of_nat i)) phys_reg s1))
      [0..<unat (ucast (numRegs (info c)) :: RegIndex)] s"

definition init_maps :: "(RegClassType \<Rightarrow> RegClassInfo) \<Rightarrow> nat \<Rightarrow> rename_state \<Rightarrow> rename_state result" where
  "init_maps info active_threads s =
    foldE (\<lambda>tid. foldE (init_class info tid) batch_classes) [0..<active_threads] s"

subsection \<open>Scoreboard\<close>

definition sb_getReg :: "PhysRegIdPtr \<Rightarrow> rename_state \<Rightarrow> bool result" where
  "sb_getReg p s = bindE (deref p s) (\<lambda>r.
    if isFixedMapping r then Inr True
    else checked (unat (flatIdx r) < unat (numPhysRegs s)) AssertFailed
      (checked (unat (flatIdx r) < length (regScoreBoard s)) UndefinedBehaviour
        (Inr (regScoreBoard s ! unat (flatIdx r)))))"

definition sb_update :: "bool \<Rightarrow> PhysRegIdPtr \<Rightarrow> rename_state \<Rightarrow> rename_state result" where
  "sb_update b p s = bindE (deref p s) (\<lambda>r.
    if isFixedMapping r then Inr s
    else checked (unat (flatIdx r) < unat (numPhysRegs s)) AssertFailed
      (checked (unat (flatIdx r) < length (regScoreBoard s)) UndefinedBehaviour
        (Inr (s\<lparr>regScoreBoard := (regScoreBoard s)[unat (flatIdx r) := b]\<rparr>))))"

definition sb_setReg :: "PhysRegIdPtr \<Rightarrow> rename_state \<Rightarrow> rename_state result" where
  "sb_setReg = sb_update True"

definition sb_unsetReg :: "PhysRegIdPtr \<Rightarrow> rename_state \<Rightarrow> rename_state result" where
  "sb_unsetReg = sb_update False"

end
