(* ===== verification/RenameHistory.thy ===== *)
theory RenameHistory
  imports RenameMap
begin

text \<open>
  Renaming and its undoing, \<^verbatim>\<open>src/cpu/o3/rename.cc\<close>: \<open>renameSrcRegs\<close>, \<open>renameDestRegs\<close>, \<open>doSquash\<close> and
  \<open>removeFromHistory\<close>. Flattening a register id is the ISA's (a parameter). The history buffer
  of a thread is a list with the youngest entry first.

  The invariant \<open>reg_inv\<close>: every physical register of a class is in exactly one place, the free
  list, the map of one thread, or as the overwritten mapping in a history entry; and undoing
  the history entries youngest first goes through the map's current entries.
\<close>

definition renameSrcReg ::
  "(RegId \<Rightarrow> RegId) \<Rightarrow> ThreadID \<Rightarrow> RegId \<Rightarrow> rename_state \<Rightarrow> (PhysRegIdPtr \<times> bool) result" where
  "renameSrcReg flatten tid src_reg s =
    bindE (map_lookup tid (flatten src_reg) s) (\<lambda>renamed_reg.
      bindE (sb_getReg renamed_reg s) (\<lambda>ready. Inr (renamed_reg, ready)))"

fun renameSrcRegs ::
  "(RegId \<Rightarrow> RegId) \<Rightarrow> ThreadID \<Rightarrow> RegId list \<Rightarrow> rename_state \<Rightarrow> (PhysRegIdPtr \<times> bool) list result" where
  "renameSrcRegs flatten tid [] s = Inr []"
| "renameSrcRegs flatten tid (r # rs) s =
    bindE (renameSrcReg flatten tid r s) (\<lambda>x. bindE (renameSrcRegs flatten tid rs s) (\<lambda>xs. Inr (x # xs)))"

definition push_history :: "ThreadID \<Rightarrow> RenameHistory \<Rightarrow> rename_state \<Rightarrow> rename_state" where
  "push_history tid h s = s\<lparr>historyBuffer := (historyBuffer s)(tid := h # historyBuffer s tid)\<rparr>"

definition renameDestReg ::
  "(RegId \<Rightarrow> RegId) \<Rightarrow> ThreadID \<Rightarrow> InstSeqNum \<Rightarrow> RegId \<Rightarrow> rename_state \<Rightarrow> (RenameHistory \<times> rename_state) result" where
  "renameDestReg flatten tid seqNum dest_reg s =
    (let flat_dest_regid = (flatten dest_reg)\<lparr>numPinnedWrites := numPinnedWrites dest_reg\<rparr> in
     bindE (map_rename tid flat_dest_regid s) (\<lambda>((new_reg, prev_reg), s1).
       bindE (sb_unsetReg new_reg s1) (\<lambda>s2.
         let hb_entry = \<lparr>instSeqNum = seqNum, archReg = flat_dest_regid, newPhysReg = new_reg,
                         prevPhysReg = prev_reg\<rparr>
         in Inr (hb_entry, push_history tid hb_entry s2))))"

fun renameDestRegs ::
  "(RegId \<Rightarrow> RegId) \<Rightarrow> ThreadID \<Rightarrow> InstSeqNum \<Rightarrow> RegId list \<Rightarrow> rename_state
    \<Rightarrow> (RenameHistory list \<times> rename_state) result" where
  "renameDestRegs flatten tid seqNum [] s = Inr ([], s)"
| "renameDestRegs flatten tid seqNum (d # ds) s =
    bindE (renameDestReg flatten tid seqNum d s) (\<lambda>(h, s1).
      bindE (renameDestRegs flatten tid seqNum ds s1) (\<lambda>(hs, s2). Inr (h # hs, s2)))"

definition set_history :: "ThreadID \<Rightarrow> RenameHistory list \<Rightarrow> rename_state \<Rightarrow> rename_state" where
  "set_history tid hs s = s\<lparr>historyBuffer := (historyBuffer s)(tid := hs)\<rparr>"

definition undo_entry :: "ThreadID \<Rightarrow> RenameHistory \<Rightarrow> rename_state \<Rightarrow> rename_state result" where
  "undo_entry tid h s =
    (if newPhysReg h \<noteq> prevPhysReg h
     then bindE (map_setEntry tid (archReg h) (prevPhysReg h) s) (ufl_addReg (newPhysReg h))
     else Inr s)"

fun squash_loop :: "InstSeqNum \<Rightarrow> ThreadID \<Rightarrow> RenameHistory list \<Rightarrow> rename_state \<Rightarrow> rename_state result" where
  "squash_loop squashed_seq_num tid [] s = Inr s"
| "squash_loop squashed_seq_num tid (h # hs) s =
    (if instSeqNum h > squashed_seq_num
     then bindE (undo_entry tid h s) (\<lambda>s1. squash_loop squashed_seq_num tid hs (set_history tid hs s1))
     else Inr s)"

definition doSquash :: "InstSeqNum \<Rightarrow> ThreadID \<Rightarrow> rename_state \<Rightarrow> rename_state result" where
  "doSquash squashed_seq_num tid s = squash_loop squashed_seq_num tid (historyBuffer s tid) s"

definition commit_entry :: "RenameHistory \<Rightarrow> rename_state \<Rightarrow> rename_state result" where
  "commit_entry h s = (if newPhysReg h \<noteq> prevPhysReg h then ufl_addReg (prevPhysReg h) s else Inr s)"

text \<open>The committed entries are at the end of the buffer; the loop's argument is the reversed buffer.\<close>

fun commit_loop :: "InstSeqNum \<Rightarrow> ThreadID \<Rightarrow> RenameHistory list \<Rightarrow> rename_state \<Rightarrow> rename_state result" where
  "commit_loop inst_seq_num tid [] s = Inr s"
| "commit_loop inst_seq_num tid (h # hs) s =
    (if instSeqNum h \<le> inst_seq_num
     then bindE (commit_entry h s) (\<lambda>s1. commit_loop inst_seq_num tid hs (set_history tid (rev hs) s1))
     else Inr s)"

definition removeFromHistory :: "InstSeqNum \<Rightarrow> ThreadID \<Rightarrow> rename_state \<Rightarrow> rename_state result" where
  "removeFromHistory inst_seq_num tid s =
    (if historyBuffer s tid = [] then Inr s
     else if instSeqNum (last (historyBuffer s tid)) > inst_seq_num then Inr s
     else commit_loop inst_seq_num tid (rev (historyBuffer s tid)) s)"

subsection \<open>The invariant\<close>

definition own :: "RegClassType \<Rightarrow> RenameHistory \<Rightarrow> bool" where
  "own c h \<longleftrightarrow> newPhysReg h \<noteq> prevPhysReg h \<and> regClassOf (archReg h) = c"

definition prevs :: "RegClassType \<Rightarrow> RenameHistory list \<Rightarrow> PhysRegIdPtr multiset" where
  "prevs c hs = mset (map prevPhysReg (filter (own c) hs))"

definition thread_regs :: "RegClassType \<Rightarrow> ThreadID \<Rightarrow> rename_state \<Rightarrow> PhysRegIdPtr multiset" where
  "thread_regs c t s = mset (renameMap s t c) + prevs c (historyBuffer s t)"

definition all_regs :: "nat \<Rightarrow> RegClassType \<Rightarrow> rename_state \<Rightarrow> PhysRegIdPtr multiset" where
  "all_regs T c s = mset (freeLists s c) + (\<Sum>t<T. thread_regs c t s)"

definition undo_map :: "RenameHistory \<Rightarrow> (RegClassType \<Rightarrow> PhysRegIdPtr list) \<Rightarrow> RegClassType \<Rightarrow> PhysRegIdPtr list" where
  "undo_map h m = (if newPhysReg h \<noteq> prevPhysReg h
    then (let c = regClassOf (archReg h) in m(c := (m c)[unat (regIdx (archReg h)) := prevPhysReg h])) else m)"

fun hist_ok :: "(RegClassType \<Rightarrow> PhysRegIdPtr list) \<Rightarrow> RenameHistory list \<Rightarrow> bool" where
  "hist_ok m [] = True"
| "hist_ok m (h # hs) =
    ((newPhysReg h \<noteq> prevPhysReg h \<longrightarrow>
       isRenameable (archReg h) \<and> unat (regIdx (archReg h)) < length (m (regClassOf (archReg h)))
       \<and> m (regClassOf (archReg h)) ! unat (regIdx (archReg h)) = newPhysReg h)
     \<and> hist_ok (undo_map h m) hs)"

definition pool :: "(RegClassType \<Rightarrow> nat) \<Rightarrow> RegClassType \<Rightarrow> PhysRegIdPtr multiset" where
  "pool N c = mset (map (PhysPtr c) [0..<N c])"

definition reg_inv :: "nat \<Rightarrow> (RegClassType \<Rightarrow> nat) \<Rightarrow> rename_state \<Rightarrow> bool" where
  "reg_inv T N s \<longleftrightarrow>
    (\<forall>c \<in> set batch_classes. all_regs T c s = pool N c)
    \<and> (\<forall>c \<in> set batch_classes. \<forall>i < N c. physClass (physRegs s (PhysPtr c i)) = c)
    \<and> (\<forall>t<T. hist_ok (renameMap s t) (historyBuffer s t))"

lemma isRenameable_batch: "isRenameable r \<longleftrightarrow> regClassOf r \<in> set batch_classes"
  by (simp add: isRenameable_def batch_classes_iff)

lemma pool_mem: "p \<in># pool N c \<Longrightarrow> \<exists>i<N c. p = PhysPtr c i"
  by (auto simp: pool_def)

lemma pool_unique: "count (pool N c) p \<le> 1"
proof -
  have "distinct (map (PhysPtr c) [0..<N c])" by (simp add: distinct_map inj_on_def)
  then show ?thesis unfolding pool_def by (simp add: distinct_count_atmost_1 count_mset_0_iff)
qed

lemma thread_regs_sub: "t < T \<Longrightarrow> thread_regs c t s \<subseteq># (\<Sum>t<T. thread_regs c t s)"
  by (simp add: sum.remove [of "{..<T}" t])

lemma reg_inv_free:
  assumes "reg_inv T N s" and "c \<in> set batch_classes" and "p \<in> set (freeLists s c)"
  shows "\<exists>i<N c. p = PhysPtr c i"
proof -
  have "p \<in># all_regs T c s" using assms(3) by (simp add: all_regs_def)
  then show ?thesis using assms(1,2) by (auto simp: reg_inv_def dest: pool_mem)
qed

lemma reg_inv_thread:
  assumes "reg_inv T N s" and "c \<in> set batch_classes" and "t < T" and "p \<in># thread_regs c t s"
  shows "\<exists>i<N c. p = PhysPtr c i"
proof -
  have "p \<in># all_regs T c s"
    using mset_subset_eqD [OF thread_regs_sub [OF assms(3)] assms(4)] by (simp add: all_regs_def)
  then show ?thesis using assms(1,2) by (auto simp: reg_inv_def dest: pool_mem)
qed

lemma free_not_mapped:
  assumes "reg_inv T N s" and "c \<in> set batch_classes" and "t < T"
    and "p \<in> set (freeLists s c)" and "q \<in> set (renameMap s t c)"
  shows "p \<noteq> q"
proof
  assume "p = q"
  have "q \<in># (\<Sum>t<T. thread_regs c t s)"
    using mset_subset_eqD [OF thread_regs_sub [OF assms(3)], of q c s] assms(5) by (simp add: thread_regs_def)
  then have "1 \<le> count (\<Sum>t<T. thread_regs c t s) q" by simp
  moreover have "1 \<le> count (mset (freeLists s c)) q" using assms(4) \<open>p = q\<close> by (simp add: Suc_le_eq)
  ultimately have "2 \<le> count (all_regs T c s) q" unfolding all_regs_def count_union by linarith
  moreover have "count (all_regs T c s) q \<le> 1" using assms(1,2) pool_unique [of N c q] by (simp add: reg_inv_def)
  ultimately show False by simp
qed

text \<open>A step that moves registers between the free list and one thread keeps the total.\<close>

lemma all_regs_thread:
  assumes "t < T" and "\<And>u. u \<noteq> t \<Longrightarrow> thread_regs c u s' = thread_regs c u s"
    and "mset (freeLists s' c) + thread_regs c t s' = mset (freeLists s c) + thread_regs c t s"
  shows "all_regs T c s' = all_regs T c s"
proof -
  have "(\<Sum>u \<in> {..<T} - {t}. thread_regs c u s') = (\<Sum>u \<in> {..<T} - {t}. thread_regs c u s)"
    using assms(2) by (intro sum.cong) auto
  then have "all_regs T c s' = mset (freeLists s' c) + thread_regs c t s' + (\<Sum>u \<in> {..<T} - {t}. thread_regs c u s)"
    using assms(1) by (simp add: all_regs_def sum.remove [of "{..<T}" t] ac_simps)
  also have "\<dots> = all_regs T c s"
    using assms(1) by (simp add: assms(3) all_regs_def sum.remove [of "{..<T}" t] ac_simps)
  finally show ?thesis .
qed

subsection \<open>What one renaming does\<close>

text \<open>
  The outcome of renaming a destination: either the map, the free lists and the other threads
  are unchanged and the entry has equal registers (a register that is not renameable, or one
  with pinned writes left), or the head of the free list replaces the mapping.
\<close>

definition same_regs :: "rename_state \<Rightarrow> rename_state \<Rightarrow> bool" where
  "same_regs s s' \<longleftrightarrow> freeLists s' = freeLists s \<and> renameMap s' = renameMap s
    \<and> (\<forall>p. physClass (physRegs s' p) = physClass (physRegs s p))"

definition moved :: "ThreadID \<Rightarrow> RenameHistory \<Rightarrow> rename_state \<Rightarrow> rename_state \<Rightarrow> bool" where
  "moved tid h s s' \<longleftrightarrow>
    (let c = regClassOf (archReg h); i = unat (regIdx (archReg h)) in
     isRenameable (archReg h) \<and> i < length (renameMap s tid c) \<and> renameMap s tid c ! i = prevPhysReg h
     \<and> (\<exists>fl. freeLists s c = newPhysReg h # fl \<and> freeLists s' = (freeLists s)(c := fl))
     \<and> renameMap s' = (renameMap s)(tid := (renameMap s tid)(c := (renameMap s tid c)[i := newPhysReg h]))
     \<and> (\<forall>p. physClass (physRegs s' p) = physClass (physRegs s p)))"

lemma sb_update_result:
  assumes "sb_update b p s = Inr s'"
  shows "\<exists>sb. s' = s\<lparr>regScoreBoard := sb\<rparr>"
proof (cases "isFixedMapping (physRegs s p)")
  case True
  then have "s' = s\<lparr>regScoreBoard := regScoreBoard s\<rparr>" using assms
    by (simp add: sb_update_def deref_def checked_def split: if_splits)
  then show ?thesis by (rule exI)
next
  case False
  then show ?thesis using assms
    by (auto simp: sb_update_def deref_def checked_def split: if_splits)
qed

lemma decr_class [simp]: "physClass (decrNumPinnedWrites r) = physClass r"
  by (simp add: decrNumPinnedWrites_def)

lemma set_pinned_class [simp]:
  "physClass (setNumPinnedWrites n r) = physClass r"
  "physClass (setNumPinnedWritesToComplete n r) = physClass r"
  by (simp_all add: setNumPinnedWrites_def setNumPinnedWritesToComplete_def)

lemma SimpleRenameMap_rename_cases:
  assumes "SimpleRenameMap_rename tid c a s = Inr ((new, prev), s')" and "c = regClassOf a" and "isRenameable a"
  shows "(new = prev \<and> same_regs s s' \<and> historyBuffer s' = historyBuffer s)
    \<or> (moved tid \<lparr>instSeqNum = q, archReg = a, newPhysReg = new, prevPhysReg = prev\<rparr> s s'
       \<and> historyBuffer s' = historyBuffer s)"
proof -
  have ni: "regClassOf a \<noteq> InvalidRegClass" using assms(3) by (auto simp: isRenameable_def)
  show ?thesis
  proof (cases "physPinnedWrites (physRegs s (renameMap s tid c ! unat (regIdx a))) > 0")
    case True
    with assms ni show ?thesis
      by (auto simp: SimpleRenameMap_rename_def deref_def checked_def Let_def bindE_def same_regs_def upd_obj_def
          split: if_splits)
  next
    case False
    with assms ni show ?thesis
      by (cases "freeLists s c")
        (auto simp: SimpleRenameMap_rename_def deref_def checked_def Let_def bindE_def upd_obj_def moved_def
          ufl_getReg_def fl_getReg_def map_entry_def split: if_splits sum.splits prod.splits)
  qed
qed

lemma map_rename_cases:
  assumes "map_rename tid a s = Inr ((new, prev), s')"
  shows "(new = prev \<and> same_regs s s' \<and> historyBuffer s' = historyBuffer s)
    \<or> (moved tid \<lparr>instSeqNum = q, archReg = a, newPhysReg = new, prevPhysReg = prev\<rparr> s s'
       \<and> historyBuffer s' = historyBuffer s)"
proof (cases "isRenameable a")
  case True
  then show ?thesis using SimpleRenameMap_rename_cases [of tid "regClassOf a" a s new prev s' q] assms
    by (simp add: map_rename_def)
next
  case False
  then show ?thesis using assms
    by (auto simp: map_rename_def bindE_def same_regs_def split: sum.splits)
qed

lemma renameDestReg_cases:
  assumes "renameDestReg flatten tid q d s = Inr (h, s')"
  shows "instSeqNum h = q
    \<and> historyBuffer s' = (historyBuffer s)(tid := h # historyBuffer s tid)
    \<and> ((newPhysReg h = prevPhysReg h \<and> same_regs s s') \<or> moved tid h s s')"
proof -
  define a where "a = (flatten d)\<lparr>numPinnedWrites := numPinnedWrites d\<rparr>"
  obtain new prev s1 s2 where r: "map_rename tid a s = Inr ((new, prev), s1)"
    and u: "sb_unsetReg new s1 = Inr s2"
    and h: "h = \<lparr>instSeqNum = q, archReg = a, newPhysReg = new, prevPhysReg = prev\<rparr>"
    and s': "s' = push_history tid h s2"
    using assms by (auto simp: renameDestReg_def a_def [symmetric] bindE_def Let_def split: sum.splits)
  obtain sb where s2: "s2 = s1\<lparr>regScoreBoard := sb\<rparr>"
    using sb_update_result [of False new s1 s2] u by (auto simp: sb_unsetReg_def)
  show ?thesis using map_rename_cases [OF r, of q] unfolding h [symmetric]
    by (auto simp: h s' s2 push_history_def same_regs_def moved_def Let_def)
qed

subsection \<open>The invariant is kept\<close>

lemma prevs_simps [simp]:
  "prevs c [] = {#}"
  "prevs c (h # hs) = (if own c h then add_mset (prevPhysReg h) (prevs c hs) else prevs c hs)"
  "prevs c (hs @ hs') = prevs c hs + prevs c hs'"
  by (simp_all add: prevs_def)

lemma reg_inv_class:
  "reg_inv T N s \<Longrightarrow> c \<in> set batch_classes \<Longrightarrow> i < N c \<Longrightarrow> physClass (physRegs s (PhysPtr c i)) = c"
  by (simp add: reg_inv_def)

lemma reg_inv_hist: "reg_inv T N s \<Longrightarrow> t < T \<Longrightarrow> hist_ok (renameMap s t) (historyBuffer s t)"
  by (simp add: reg_inv_def)

text \<open>The shape of all three preservation proofs: one thread and the free lists change.\<close>

lemma reg_inv_step:
  assumes "reg_inv T N s" and t: "tid < T"
    and cl: "\<And>p. physClass (physRegs s' p) = physClass (physRegs s p)"
    and other: "\<And>u. u \<noteq> tid \<Longrightarrow> renameMap s' u = renameMap s u \<and> historyBuffer s' u = historyBuffer s u"
    and tot: "\<And>c. c \<in> set batch_classes \<Longrightarrow>
      mset (freeLists s' c) + thread_regs c tid s' = mset (freeLists s c) + thread_regs c tid s"
    and h: "hist_ok (renameMap s' tid) (historyBuffer s' tid)"
  shows "reg_inv T N s'"
proof -
  have "all_regs T c s' = pool N c" if c: "c \<in> set batch_classes" for c
  proof -
    have "all_regs T c s' = all_regs T c s"
      by (rule all_regs_thread [OF t _ tot [OF c]]) (simp add: thread_regs_def other)
    then show ?thesis using assms(1) c by (simp add: reg_inv_def)
  qed
  moreover have "hist_ok (renameMap s' u) (historyBuffer s' u)" if "u < T" for u
    using other [of u] h reg_inv_hist [OF assms(1) that] by (cases "u = tid") simp_all
  moreover have "physClass (physRegs s' (PhysPtr c i)) = c" if "c \<in> set batch_classes" "i < N c" for c i
    using cl reg_inv_class [OF assms(1) that] by simp
  ultimately show ?thesis by (simp add: reg_inv_def)
qed

lemma moved_undo:
  assumes "moved tid h s s'"
  shows "undo_map h (renameMap s' tid) = (if newPhysReg h = prevPhysReg h then renameMap s' tid else renameMap s tid)"
  using assms by (auto simp: moved_def undo_map_def Let_def list_update_same_conv)

lemma moved_new:
  assumes "reg_inv T N s" and "tid < T" and "moved tid h s s'"
  shows "newPhysReg h \<noteq> prevPhysReg h"
proof (rule free_not_mapped [OF assms(1) _ assms(2)])
  show "regClassOf (archReg h) \<in> set batch_classes"
    using assms(3) by (simp add: moved_def Let_def isRenameable_batch)
  show "newPhysReg h \<in> set (freeLists s (regClassOf (archReg h)))" using assms(3) by (auto simp: moved_def Let_def)
  show "prevPhysReg h \<in> set (renameMap s tid (regClassOf (archReg h)))"
    using assms(3) by (auto simp: moved_def Let_def in_set_conv_nth)
qed

lemma update_total:
  assumes "i < length m" and "m ! i = prev"
  shows "add_mset prev (mset (m[i := new])) = add_mset new (mset m)"
  using assms by (auto simp: mset_update add_mset_commute)

lemma moved_keeps_total:
  assumes m: "moved tid h s s'" and hb: "historyBuffer s' = (historyBuffer s)(tid := h # historyBuffer s tid)"
    and n: "newPhysReg h \<noteq> prevPhysReg h"
  shows "mset (freeLists s' c) + thread_regs c tid s' = mset (freeLists s c) + thread_regs c tid s"
proof (cases "c = regClassOf (archReg h)")
  case True
  define i where "i = unat (regIdx (archReg h))"
  obtain fl where fl: "freeLists s c = newPhysReg h # fl" "freeLists s' c = fl"
    and i: "i < length (renameMap s tid c)" "renameMap s tid c ! i = prevPhysReg h"
    and r: "renameMap s' tid c = (renameMap s tid c)[i := newPhysReg h]"
    using m by (auto simp: moved_def Let_def True i_def)
  show ?thesis using update_total [OF i, of "newPhysReg h"] n
    by (simp add: thread_regs_def fl r hb own_def True [symmetric])
next
  case False
  then show ?thesis using m by (auto simp: moved_def Let_def thread_regs_def hb own_def)
qed

lemma renameDestReg_inv:
  assumes inv: "reg_inv T N s" and t: "tid < T" and r: "renameDestReg flatten tid q d s = Inr (h, s')"
  shows "reg_inv T N s' \<and> undo_map h (renameMap s' tid) = renameMap s tid"
proof -
  note c = renameDestReg_cases [OF r]
  have hb: "historyBuffer s' = (historyBuffer s)(tid := h # historyBuffer s tid)" using c by simp
  consider (same) "newPhysReg h = prevPhysReg h" "same_regs s s'" | (moved) "moved tid h s s'" using c by auto
  then show ?thesis
  proof cases
    case same
    then have u: "undo_map h (renameMap s' tid) = renameMap s tid" by (simp add: undo_map_def same_regs_def)
    have "reg_inv T N s'"
      by (rule reg_inv_step [OF inv t])
        (use same u reg_inv_hist [OF inv t] in
          \<open>simp_all add: same_regs_def thread_regs_def hb own_def\<close>)
    with u show ?thesis by simp
  next
    case moved
    note n = moved_new [OF inv t moved]
    have u: "undo_map h (renameMap s' tid) = renameMap s tid" using moved_undo [OF moved] n by simp
    have "reg_inv T N s'"
      by (rule reg_inv_step [OF inv t _ _ moved_keeps_total [OF moved hb n]])
        (use moved u reg_inv_hist [OF inv t] in \<open>simp_all add: moved_def Let_def hb\<close>)
    with u show ?thesis by simp
  qed
qed

lemma undo_entry_ok:
  assumes inv: "reg_inv T N s" and t: "tid < T" and hb: "historyBuffer s tid = h # hs"
  shows "\<exists>s'. undo_entry tid h s = Inr s' \<and> historyBuffer s' = historyBuffer s
    \<and> physRegs s' = physRegs s
    \<and> renameMap s' = (renameMap s)(tid := undo_map h (renameMap s tid))
    \<and> freeLists s' = (if newPhysReg h = prevPhysReg h then freeLists s
        else (freeLists s)(regClassOf (archReg h) := freeLists s (regClassOf (archReg h)) @ [newPhysReg h]))"
proof (cases "newPhysReg h = prevPhysReg h")
  case True
  then show ?thesis by (auto simp: undo_entry_def undo_map_def)
next
  case False
  define c where "c = regClassOf (archReg h)"
  define i where "i = unat (regIdx (archReg h))"
  have ok: "isRenameable (archReg h)" "i < length (renameMap s tid c)" "renameMap s tid c ! i = newPhysReg h"
    using reg_inv_hist [OF inv t] False by (simp_all add: hb c_def i_def)
  then have c: "c \<in> set batch_classes" by (simp add: isRenameable_batch c_def)
  have "prevPhysReg h \<in># thread_regs c tid s" using False by (simp add: thread_regs_def hb own_def c_def)
  then obtain j where j: "j < N c" "prevPhysReg h = PhysPtr c j" using reg_inv_thread [OF inv c t] by blast
  have "newPhysReg h \<in># thread_regs c tid s" using ok by (auto simp: thread_regs_def in_set_conv_nth)
  then obtain k where k: "k < N c" "newPhysReg h = PhysPtr c k" using reg_inv_thread [OF inv c t] by blast
  have cl: "physClass (physRegs s (PhysPtr c j)) = c" "physClass (physRegs s (PhysPtr c k)) = c"
    using reg_inv_class [OF inv c] j k by simp_all
  show ?thesis using False ok
    by (simp add: undo_entry_def map_setEntry_def deref_def j k cl c_def [symmetric] i_def [symmetric]
        SimpleRenameMap_setEntry_def map_entry_def ufl_addReg_def fl_addReg_def undo_map_def Let_def)
qed

lemma undo_entry_inv:
  assumes inv: "reg_inv T N s" and t: "tid < T" and hb: "historyBuffer s tid = h # hs"
    and s': "undo_entry tid h s = Inr s'"
  shows "reg_inv T N (set_history tid hs s')"
proof -
  have e: "historyBuffer s' = historyBuffer s" "physRegs s' = physRegs s"
    "renameMap s' = (renameMap s)(tid := undo_map h (renameMap s tid))"
    "freeLists s' = (if newPhysReg h = prevPhysReg h then freeLists s
        else (freeLists s)(regClassOf (archReg h) := freeLists s (regClassOf (archReg h)) @ [newPhysReg h]))"
    using undo_entry_ok [OF inv t hb] s' by auto
  have ok: "hist_ok (renameMap s tid) (h # hs)" using reg_inv_hist [OF inv t] by (simp add: hb)
  show ?thesis
  proof (rule reg_inv_step [OF inv t])
    fix c
    show "mset (freeLists (set_history tid hs s') c) + thread_regs c tid (set_history tid hs s')
        = mset (freeLists s c) + thread_regs c tid s"
      using ok update_total [of "unat (regIdx (archReg h))" "renameMap s tid c" "newPhysReg h" "prevPhysReg h"]
      by (auto simp: set_history_def thread_regs_def e hb own_def undo_map_def Let_def)
  qed (use ok in \<open>simp_all add: set_history_def e\<close>)
qed

lemma hist_ok_append:
  "hist_ok m (hs @ hs') \<longleftrightarrow> hist_ok m hs \<and> hist_ok (fold undo_map hs m) hs'"
  by (induction hs arbitrary: m) auto

lemma commit_entry_ok:
  assumes inv: "reg_inv T N s" and t: "tid < T" and hb: "historyBuffer s tid = hs @ [h]"
  shows "\<exists>s'. commit_entry h s = Inr s' \<and> reg_inv T N (set_history tid hs s')
    \<and> historyBuffer s' = historyBuffer s \<and> renameMap s' = renameMap s"
proof (cases "newPhysReg h = prevPhysReg h")
  case True
  have "reg_inv T N (set_history tid hs s)"
    by (rule reg_inv_step [OF inv t])
      (use True reg_inv_hist [OF inv t] in
        \<open>simp_all add: set_history_def thread_regs_def hb own_def hist_ok_append\<close>)
  with True show ?thesis by (simp add: commit_entry_def)
next
  case False
  define c where "c = regClassOf (archReg h)"
  have ok: "hist_ok (renameMap s tid) hs" "isRenameable (archReg h)"
    using reg_inv_hist [OF inv t] False by (simp_all add: hb hist_ok_append)
  then have c: "c \<in> set batch_classes" by (simp add: isRenameable_batch c_def)
  have "prevPhysReg h \<in># thread_regs c tid s" using False by (simp add: thread_regs_def hb own_def c_def)
  then obtain j where j: "j < N c" "prevPhysReg h = PhysPtr c j" using reg_inv_thread [OF inv c t] by blast
  define s' where "s' = s\<lparr>freeLists := (freeLists s)(c := freeLists s c @ [prevPhysReg h])\<rparr>"
  have "commit_entry h s = Inr s'"
    using False reg_inv_class [OF inv c j(1)] by (simp add: commit_entry_def ufl_addReg_def deref_def j s'_def fl_addReg_def)
  moreover have "reg_inv T N (set_history tid hs s')"
    by (rule reg_inv_step [OF inv t])
      (use False ok in \<open>simp_all add: set_history_def s'_def thread_regs_def hb own_def c_def\<close>)
  ultimately show ?thesis by (simp add: s'_def)
qed

lemma set_history_same: "historyBuffer (set_history tid hs s) tid = hs"
  by (simp add: set_history_def)

lemma squash_loop_ok:
  assumes "reg_inv T N s" and "tid < T" and "historyBuffer s tid = hs"
  shows "\<exists>s'. squash_loop q tid hs s = Inr s' \<and> reg_inv T N s'
    \<and> historyBuffer s' = (historyBuffer s)(tid := dropWhile (\<lambda>h. q < instSeqNum h) hs)
    \<and> renameMap s' = (renameMap s)(tid := fold undo_map (takeWhile (\<lambda>h. q < instSeqNum h) hs) (renameMap s tid))"
  using assms
proof (induction hs arbitrary: s)
  case Nil
  then show ?case by auto
next
  case (Cons h hs)
  show ?case
  proof (cases "q < instSeqNum h")
    case False
    with Cons.prems show ?thesis by auto
  next
    case True
    obtain s1 where s1: "undo_entry tid h s = Inr s1" "historyBuffer s1 = historyBuffer s"
        "renameMap s1 = (renameMap s)(tid := undo_map h (renameMap s tid))"
      using undo_entry_ok [OF Cons.prems] by blast
    let ?s = "set_history tid hs s1"
    have "reg_inv T N ?s" by (rule undo_entry_inv [OF Cons.prems s1(1)])
    then obtain s2 where "squash_loop q tid hs ?s = Inr s2" "reg_inv T N s2"
        "historyBuffer s2 = (historyBuffer ?s)(tid := dropWhile (\<lambda>h. q < instSeqNum h) hs)"
        "renameMap s2 = (renameMap ?s)(tid := fold undo_map (takeWhile (\<lambda>h. q < instSeqNum h) hs) (renameMap ?s tid))"
      using Cons.IH [OF _ Cons.prems(2) set_history_same] by blast
    then show ?thesis using True s1 by (intro exI [of _ s2]) (simp add: set_history_def)
  qed
qed

lemma doSquash_ok:
  assumes "reg_inv T N s" and "tid < T"
  shows "\<exists>s'. doSquash q tid s = Inr s' \<and> reg_inv T N s'
    \<and> historyBuffer s' = (historyBuffer s)(tid := dropWhile (\<lambda>h. q < instSeqNum h) (historyBuffer s tid))
    \<and> renameMap s' = (renameMap s)(tid :=
        fold undo_map (takeWhile (\<lambda>h. q < instSeqNum h) (historyBuffer s tid)) (renameMap s tid))"
  using squash_loop_ok [OF assms refl] by (simp add: doSquash_def)

lemma commit_loop_ok:
  assumes "reg_inv T N s" and "tid < T" and "historyBuffer s tid = rev hs"
  shows "\<exists>s'. commit_loop q tid hs s = Inr s' \<and> reg_inv T N s' \<and> renameMap s' = renameMap s
    \<and> historyBuffer s' = (historyBuffer s)(tid := rev (dropWhile (\<lambda>h. instSeqNum h \<le> q) hs))"
  using assms
proof (induction hs arbitrary: s)
  case Nil
  then show ?case by auto
next
  case (Cons h hs)
  show ?case
  proof (cases "instSeqNum h \<le> q")
    case False
    with Cons.prems show ?thesis by auto
  next
    case True
    obtain s1 where s1: "commit_entry h s = Inr s1" "reg_inv T N (set_history tid (rev hs) s1)"
        "historyBuffer s1 = historyBuffer s" "renameMap s1 = renameMap s"
      using commit_entry_ok [OF Cons.prems(1,2)] Cons.prems(3) by auto
    let ?s = "set_history tid (rev hs) s1"
    obtain s2 where "commit_loop q tid hs ?s = Inr s2" "reg_inv T N s2" "renameMap s2 = renameMap ?s"
        "historyBuffer s2 = (historyBuffer ?s)(tid := rev (dropWhile (\<lambda>h. instSeqNum h \<le> q) hs))"
      using Cons.IH [OF s1(2) Cons.prems(2) set_history_same] by blast
    then show ?thesis using True s1 by (intro exI [of _ s2]) (simp add: set_history_def)
  qed
qed

lemma removeFromHistory_ok:
  assumes "reg_inv T N s" and "tid < T"
  shows "\<exists>s'. removeFromHistory q tid s = Inr s' \<and> reg_inv T N s' \<and> renameMap s' = renameMap s
    \<and> historyBuffer s' = (historyBuffer s)(tid := rev (dropWhile (\<lambda>h. instSeqNum h \<le> q) (rev (historyBuffer s tid))))"
proof (cases "historyBuffer s tid" rule: rev_cases)
  case Nil
  with assms(1) show ?thesis by (auto simp: removeFromHistory_def)
next
  case (snoc hs h)
  show ?thesis
  proof (cases "instSeqNum h \<le> q")
    case True
    then have "\<not> q < instSeqNum h" by simp
    then show ?thesis using commit_loop_ok [OF assms, of "rev (historyBuffer s tid)" q] snoc
      by (simp add: removeFromHistory_def)
  next
    case False
    then have "removeFromHistory q tid s = Inr s" using snoc by (simp add: removeFromHistory_def)
    with False show ?thesis using assms(1) snoc by auto
  qed
qed

lemma renameDestRegs_inv:
  assumes "reg_inv T N s" and "tid < T" and "renameDestRegs flatten tid q ds s = Inr (hs, s')"
  shows "reg_inv T N s' \<and> historyBuffer s' = (historyBuffer s)(tid := rev hs @ historyBuffer s tid)
    \<and> list_all (\<lambda>h. instSeqNum h = q) hs
    \<and> fold undo_map (rev hs) (renameMap s' tid) = renameMap s tid
    \<and> (\<forall>u. u \<noteq> tid \<longrightarrow> renameMap s' u = renameMap s u)"
  using assms
proof (induction ds arbitrary: s hs)
  case Nil
  then show ?case by auto
next
  case (Cons d ds)
  obtain h s1 hs' where r: "renameDestReg flatten tid q d s = Inr (h, s1)"
    and rs: "renameDestRegs flatten tid q ds s1 = Inr (hs', s')" and hs: "hs = h # hs'"
    using Cons.prems(3) by (auto simp: bindE_def split: sum.splits)
  have u: "renameMap s1 v = renameMap s v" if "v \<noteq> tid" for v
    using renameDestReg_cases [OF r] that by (auto simp: same_regs_def moved_def Let_def)
  show ?case
    using Cons.IH [OF _ Cons.prems(2) rs] renameDestReg_inv [OF Cons.prems(1,2) r] renameDestReg_cases [OF r] u
    by (auto simp: hs)
qed

end
