(* ===== verification/RenameInit.thy ===== *)
theory RenameInit
  imports RenameHistory
begin

text \<open>
  The set-up of renaming in the constructor of the CPU (\<^verbatim>\<open>src/cpu/o3/cpu.cc\<close>): the register file
  fills the free lists, the maps of all threads get their size, and the maps of the active
  threads get registers from the free list. The result satisfies \<open>reg_inv\<close>, and so does every
  state that renaming, squashing, committing and waking up registers reach from it.
\<close>

definition UnifiedRenameMap_init ::
  "(RegClassType \<Rightarrow> RegClassInfo) \<Rightarrow> ThreadID \<Rightarrow> rename_state \<Rightarrow> rename_state result" where
  "UnifiedRenameMap_init info tid s = foldE (\<lambda>c. SimpleRenameMap_init tid c (info c)) batch_classes s"

definition empty_rename_state :: "PhysRegFile \<Rightarrow> rename_state" where
  "empty_rename_state rf = \<lparr>freeLists = (\<lambda>_. []), renameMap = (\<lambda>_ _. []), physRegs = ptr_obj rf,
    regScoreBoard = replicate (unat (totalNumRegs rf)) True, numPhysRegs = totalNumRegs rf,
    historyBuffer = (\<lambda>_. [])\<rparr>"

text \<open>The assertions on the number of physical registers; vector elements are not among them.\<close>

definition enough_regs :: "(RegClassType \<Rightarrow> RegClassInfo) \<Rightarrow> PhysRegFile \<Rightarrow> nat \<Rightarrow> bool" where
  "enough_regs info rf numThreads \<longleftrightarrow>
    list_all (\<lambda>c. of_nat numThreads * numRegs (info c) \<le> ucast (numPhysical rf c))
      [IntRegClass, FloatRegClass, VecRegClass, VecPredRegClass, MatRegClass, CCRegClass]"

definition rename_setup ::
  "(RegClassType \<Rightarrow> RegClassInfo) \<Rightarrow> PhysRegFile \<Rightarrow> nat \<Rightarrow> nat \<Rightarrow> rename_state result" where
  "rename_setup info rf numThreads active_threads =
    bindE (initFreeList rf (empty_rename_state rf)) (\<lambda>s.
      checked (numThreads \<noteq> 0) AssertFailed
        (checked (enough_regs info rf numThreads) AssertFailed
          (bindE (foldE (UnifiedRenameMap_init info) [0..<numThreads] s)
            (init_maps info active_threads))))"

subsection \<open>Filling the free lists\<close>

definition file_regs :: "(RegClassType \<Rightarrow> nat) \<Rightarrow> RegClassType \<Rightarrow> PhysRegIdPtr list" where
  "file_regs N c = map (PhysPtr c) [0..<N c]"

definition objs_ok :: "(RegClassType \<Rightarrow> nat) \<Rightarrow> rename_state \<Rightarrow> bool" where
  "objs_ok N s \<longleftrightarrow> (\<forall>c \<in> set batch_classes. \<forall>i < N c. physClass (physRegs s (PhysPtr c i)) = c)"

definition file_ok :: "(RegClassType \<Rightarrow> nat) \<Rightarrow> PhysRegFile \<Rightarrow> bool" where
  "file_ok N rf \<longleftrightarrow> (\<forall>c \<in> set batch_classes. length (regIds rf c) = N c \<and> unat (numPhysical rf c) = N c
    \<and> (\<forall>i < N c. physClass (regIds rf c ! i) = c \<and> unat (physIdx (regIds rf c ! i)) = i))"

lemma ufl_addRegs_class:
  assumes "list_all (\<lambda>p. p \<noteq> NullPtr \<and> physClass (physRegs s p) = c) ps"
  shows "ufl_addRegs ps s = Inr (s\<lparr>freeLists := (freeLists s)(c := freeLists s c @ ps)\<rparr>)"
  using assms
proof (induction ps arbitrary: s)
  case Nil
  then show ?case by (simp add: ufl_addRegs_def)
next
  case (Cons p ps)
  have "ufl_addReg p s = Inr (s\<lparr>freeLists := (freeLists s)(c := freeLists s c @ [p])\<rparr>)"
    using Cons.prems by (simp add: ufl_addReg_def deref_def fl_addReg_def)
  with Cons.IH [of "s\<lparr>freeLists := (freeLists s)(c := freeLists s c @ [p])\<rparr>"] Cons.prems
  show ?case by (simp add: ufl_addRegs_def)
qed

lemma initFreeList_class_ok:
  assumes "file_ok N rf" and "objs_ok N s" and "c \<in> set batch_classes"
  shows "initFreeList_class rf c s = Inr (s\<lparr>freeLists := (freeLists s)(c := freeLists s c @ file_regs N c)\<rparr>)"
proof -
  have "\<exists>u. foldE (\<lambda>i u. checked (i < length (regIds rf c)) UndefinedBehaviour
                    (checked (unat (physIdx (regIds rf c ! i)) = i) AssertFailed (Inr u)))
             [0..<unat (numPhysical rf c)] () = Inr u \<and> True"
    using assms by (intro foldE_total) (auto simp: file_ok_def)
  moreover have "list_all (\<lambda>p. p \<noteq> NullPtr \<and> physClass (physRegs s p) = c) (file_regs N c)"
    using assms(2,3) by (auto simp: file_regs_def list_all_iff objs_ok_def)
  moreover have "length (regIds rf c) = N c" using assms(1,3) by (simp add: file_ok_def)
  ultimately show ?thesis
    by (simp add: initFreeList_class_def ufl_addRegs_class file_regs_def)
qed

lemma initFreeList_ok:
  assumes "file_ok N rf" and "objs_ok N s" and "freeLists s = (\<lambda>_. [])"
  shows "initFreeList rf s =
    Inr (s\<lparr>freeLists := (\<lambda>c. if c \<in> set batch_classes then file_regs N c else [])\<rparr>)"
proof -
  let ?I = "\<lambda>cs u. u = s\<lparr>freeLists := (\<lambda>c. if c \<in> set cs then file_regs N c else [])\<rparr>"
  have "\<exists>u. foldE (initFreeList_class rf) batch_classes s = Inr u \<and> ?I batch_classes u"
  proof (rule foldE_prefix [where I = ?I])
    show "?I [] s" using assms(3) by simp
  next
    fix ys y zs u
    assume e: "batch_classes = ys @ y # zs" and I: "?I ys u"
    have y: "y \<in> set batch_classes" "y \<notin> set ys" using distinct_batch_classes unfolding e by auto
    have "objs_ok N u" using assms(2) by (simp add: I objs_ok_def)
    from initFreeList_class_ok [OF assms(1) this y(1)] y(2)
    show "\<exists>u'. initFreeList_class rf y u = Inr u' \<and> ?I (ys @ [y]) u'"
      by (auto simp: I fun_eq_iff)
  qed
  then show ?thesis by (simp add: initFreeList_def)
qed

subsection \<open>Sizing and filling the maps\<close>

lemma UnifiedRenameMap_init_ok:
  assumes "renameMap s tid = (\<lambda>_. [])"
  shows "UnifiedRenameMap_init info tid s = Inr (s\<lparr>renameMap := (renameMap s)(tid :=
    (\<lambda>c. if c \<in> set batch_classes then replicate (unat (numRegs (info c))) NullPtr else []))\<rparr>)"
proof -
  let ?I = "\<lambda>cs u. u = s\<lparr>renameMap := (renameMap s)(tid :=
    (\<lambda>c. if c \<in> set cs then replicate (unat (numRegs (info c))) NullPtr else []))\<rparr>"
  have "\<exists>u. foldE (\<lambda>c. SimpleRenameMap_init tid c (info c)) batch_classes s = Inr u \<and> ?I batch_classes u"
  proof (rule foldE_prefix [where I = ?I])
    show "?I [] s" using assms by (simp add: fun_upd_idem)
  next
    fix ys y zs u
    assume e: "batch_classes = ys @ y # zs" and I: "?I ys u"
    have y: "y \<notin> set ys" using distinct_batch_classes unfolding e by auto
    then show "\<exists>u'. SimpleRenameMap_init tid y (info y) u = Inr u' \<and> ?I (ys @ [y]) u'"
      by (auto simp: I SimpleRenameMap_init_def fun_eq_iff)
  qed
  then show ?thesis by (simp add: UnifiedRenameMap_init_def)
qed

lemma size_maps_ok:
  assumes "renameMap s = (\<lambda>_ _. [])"
  shows "foldE (UnifiedRenameMap_init info) [0..<k] s = Inr (s\<lparr>renameMap :=
    (\<lambda>t c. if t < k \<and> c \<in> set batch_classes then replicate (unat (numRegs (info c))) NullPtr else [])\<rparr>)"
proof (induction k)
  case 0
  with assms show ?case by simp
next
  case (Suc k)
  let ?s = "s\<lparr>renameMap :=
    (\<lambda>t c. if t < k \<and> c \<in> set batch_classes then replicate (unat (numRegs (info c))) NullPtr else [])\<rparr>"
  have "renameMap ?s k = (\<lambda>_. [])" by simp
  from UnifiedRenameMap_init_ok [OF this, of info] Suc show ?case
    by (simp add: foldE_append fun_upd_def) (auto simp: fun_eq_iff less_Suc_eq intro!: arg_cong2 [where f = renameMap_update])
qed

lemma init_class_ok:
  assumes o: "objs_ok N s" and c: "c \<in> set batch_classes" and n: "unat (numRegs (info c)) = n" "n < 2 ^ 16"
    and m: "length (renameMap s tid c) = n" and fl: "freeLists s c = fl" "n \<le> length fl" "set fl \<subseteq> set (file_regs N c)"
  shows "init_class info tid c s = Inr (s\<lparr>freeLists := (freeLists s)(c := drop n fl),
    renameMap := (renameMap s)(tid := (renameMap s tid)(c := take n fl))\<rparr>)"
proof -
  let ?I = "\<lambda>is u. u = s\<lparr>freeLists := (freeLists s)(c := drop (length is) fl),
    renameMap := (renameMap s)(tid := (renameMap s tid)(c := take (length is) fl @ drop (length is) (renameMap s tid c)))\<rparr>"
  have n16: "unat (ucast (numRegs (info c)) :: RegIndex) = n"
    using n by (simp add: unsigned_ucast_eq take_bit_nat_eq_self)
  have "\<exists>u. foldE (\<lambda>i s. bindE (ufl_getReg c s) (\<lambda>(phys_reg, s1).
             map_setEntry tid (RegId_new c (of_nat i)) phys_reg s1)) [0..<n] s = Inr u \<and> ?I [0..<n] u"
  proof (rule foldE_prefix [where I = ?I])
    show "?I [] s" using fl(1) by (simp add: fun_upd_idem)
  next
    fix ys y zs u
    assume "[0..<n] = ys @ y # zs" and I: "?I ys u"
    then have y: "ys = [0..<y]" "y < n" using upt_split by auto
    have yf: "y < length fl" using y(2) fl(2) by simp
    then have d: "drop y fl = fl ! y # drop (Suc y) fl" by (rule Cons_nth_drop_Suc [symmetric])
    obtain i where i: "i < N c" "fl ! y = PhysPtr c i"
      using fl(3) nth_mem [OF yf] by (auto simp: file_regs_def)
    have u: "unat (of_nat y :: RegIndex) = y" using y(2) n(2) by (intro unat_of_nat_small) simp
    have "(take y fl @ drop y (renameMap s tid c))[y := fl ! y] = take (Suc y) fl @ drop (Suc y) (renameMap s tid c)"
      using y(2) m yf by (simp add: list_update_append take_Suc_conv_app_nth Cons_nth_drop_Suc [symmetric, of y "renameMap s tid c"])
    then show "\<exists>u'. bindE (ufl_getReg c u) (\<lambda>(phys_reg, s1).
             map_setEntry tid (RegId_new c (of_nat y)) phys_reg s1) = Inr u' \<and> ?I (ys @ [y]) u'"
      using o c y i u m yf
      by (simp add: I ufl_getReg_def fl_getReg_def d map_setEntry_def deref_def objs_ok_def RegId_new_def isRenameable_batch
          SimpleRenameMap_setEntry_def map_entry_def Let_def)
  qed
  then show ?thesis using m fl(2) by (simp add: init_class_def n16)
qed

lemma init_thread_ok:
  fixes n :: "RegClassType \<Rightarrow> nat"
  assumes o: "objs_ok N s" and n: "\<And>c. c \<in> set batch_classes \<Longrightarrow> unat (numRegs (info c)) = n c \<and> n c < 2 ^ 16"
    and m: "\<And>c. c \<in> set batch_classes \<Longrightarrow> length (renameMap s tid c) = n c"
    and fl: "\<And>c. c \<in> set batch_classes \<Longrightarrow> n c \<le> length (freeLists s c) \<and> set (freeLists s c) \<subseteq> set (file_regs N c)"
  shows "foldE (init_class info tid) batch_classes s = Inr (s\<lparr>
    freeLists := (\<lambda>c. if c \<in> set batch_classes then drop (n c) (freeLists s c) else freeLists s c),
    renameMap := (renameMap s)(tid :=
      (\<lambda>c. if c \<in> set batch_classes then take (n c) (freeLists s c) else renameMap s tid c))\<rparr>)"
proof -
  let ?I = "\<lambda>cs u. u = s\<lparr>
    freeLists := (\<lambda>c. if c \<in> set cs then drop (n c) (freeLists s c) else freeLists s c),
    renameMap := (renameMap s)(tid :=
      (\<lambda>c. if c \<in> set cs then take (n c) (freeLists s c) else renameMap s tid c))\<rparr>"
  have "\<exists>u. foldE (init_class info tid) batch_classes s = Inr u \<and> ?I batch_classes u"
  proof (rule foldE_prefix [where I = ?I])
    show "?I [] s" by (simp add: fun_upd_idem)
  next
    fix ys y zs u
    assume e: "batch_classes = ys @ y # zs" and I: "?I ys u"
    have y: "y \<in> set batch_classes" "y \<notin> set ys" using distinct_batch_classes unfolding e by auto
    have u: "objs_ok N u" "length (renameMap u tid y) = n y" "freeLists u y = freeLists s y"
      using o m [OF y(1)] y(2) by (simp_all add: I objs_ok_def)
    have "init_class info tid y u = Inr (u\<lparr>freeLists := (freeLists u)(y := drop (n y) (freeLists s y)),
        renameMap := (renameMap u)(tid := (renameMap u tid)(y := take (n y) (freeLists s y)))\<rparr>)"
      using n [OF y(1)] fl [OF y(1)] by (intro init_class_ok [OF u(1) y(1) _ _ u(2,3)]) auto
    then show "\<exists>u'. init_class info tid y u = Inr u' \<and> ?I (ys @ [y]) u'"
      by (auto simp: I fun_eq_iff)
  qed
  then show ?thesis by simp
qed

lemma init_maps_ok:
  fixes n :: "RegClassType \<Rightarrow> nat"
  assumes o: "objs_ok N s" and n: "\<And>c. c \<in> set batch_classes \<Longrightarrow> unat (numRegs (info c)) = n c \<and> n c < 2 ^ 16"
    and m: "\<And>c t. c \<in> set batch_classes \<Longrightarrow> t < T \<Longrightarrow> length (renameMap s t c) = n c"
    and fl: "\<And>c. c \<in> set batch_classes \<Longrightarrow> freeLists s c = file_regs N c \<and> T * n c \<le> N c"
  shows "\<exists>s'. init_maps info T s = Inr s' \<and> physRegs s' = physRegs s \<and> historyBuffer s' = historyBuffer s
    \<and> (\<forall>c \<in> set batch_classes. freeLists s' c = drop (T * n c) (file_regs N c)
        \<and> (\<forall>t<T. renameMap s' t c = take (n c) (drop (t * n c) (file_regs N c))))"
proof -
  let ?I = "\<lambda>ts (u :: rename_state). physRegs u = physRegs s \<and> historyBuffer u = historyBuffer s
    \<and> (\<forall>t\<ge>length ts. renameMap u t = renameMap s t)
    \<and> (\<forall>c \<in> set batch_classes. freeLists u c = drop (length ts * n c) (file_regs N c)
        \<and> (\<forall>t<length ts. renameMap u t c = take (n c) (drop (t * n c) (file_regs N c))))"
  have "\<exists>u. foldE (\<lambda>tid. foldE (init_class info tid) batch_classes) [0..<T] s = Inr u \<and> ?I [0..<T] u"
  proof (rule foldE_prefix [where I = ?I])
    show "?I [] s" using fl by simp
  next
    fix ys y zs u
    assume "[0..<T] = ys @ y # zs" and I: "?I ys u"
    then have y: "ys = [0..<y]" "y < T" using upt_split by auto
    have u: "objs_ok N u" using o I by (simp add: objs_ok_def)
    have mu: "length (renameMap u y c) = n c" if "c \<in> set batch_classes" for c using m [OF that y(2)] I y by simp
    have flu: "n c \<le> length (freeLists u c) \<and> set (freeLists u c) \<subseteq> set (file_regs N c)"
      if "c \<in> set batch_classes" for c
    proof -
      have "Suc y * n c \<le> T * n c" using y(2) by (intro mult_le_mono1) simp
      then have "y * n c + n c \<le> N c" using fl [OF that] by simp
      then show ?thesis using I that y set_drop_subset [of "y * n c" "file_regs N c"] by (simp add: file_regs_def)
    qed
    let ?u = "u\<lparr>
      freeLists := (\<lambda>c. if c \<in> set batch_classes then drop (n c) (freeLists u c) else freeLists u c),
      renameMap := (renameMap u)(y :=
        (\<lambda>c. if c \<in> set batch_classes then take (n c) (freeLists u c) else renameMap u y c))\<rparr>"
    have "?I (ys @ [y]) ?u"
    proof (intro conjI ballI allI impI)
      fix c t
      assume c: "c \<in> set batch_classes" and t: "t < length (ys @ [y])"
      show "renameMap ?u t c = take (n c) (drop (t * n c) (file_regs N c))"
        using I c t y by (cases "t = y") simp_all
    qed (use I y in \<open>simp_all add: ac_simps\<close>)
    then show "\<exists>u'. foldE (init_class info y) batch_classes u = Inr u' \<and> ?I (ys @ [y]) u'"
      using init_thread_ok [OF u n mu flu] by blast
  qed
  then show ?thesis by (auto simp: init_maps_def)
qed

lemma chunks_total:
  "T * n \<le> length P \<Longrightarrow> mset (drop (T * n) P) + (\<Sum>t<T. mset (take n (drop (t * n) P))) = mset P"
proof (induction T)
  case 0
  then show ?case by simp
next
  case (Suc T)
  have "drop (T * n) P = take n (drop (T * n) P) @ drop (Suc T * n) P" 
    using append_take_drop_id [of n "drop (T * n) P"] by simp
  from arg_cong [OF this, of mset]
  have "mset (drop (T * n) P) = mset (take n (drop (T * n) P)) + mset (drop (Suc T * n) P)" by simp
  with Suc show ?case by (simp add: ac_simps)
qed

lemma rename_setup_inv:
  assumes f: "file_ok N rf" and n: "\<forall>c \<in> set batch_classes. unat (numRegs (info c)) < 2 ^ 16
      \<and> numThreads * unat (numRegs (info c)) \<le> N c"
    and e: "enough_regs info rf numThreads" and t: "0 < numThreads" "active \<le> numThreads"
  shows "\<exists>s. rename_setup info rf numThreads active = Inr s \<and> reg_inv active N s
    \<and> physRegs s = ptr_obj rf \<and> (\<forall>t. historyBuffer s t = [])"
proof -
  let ?filled = "(empty_rename_state rf)\<lparr>freeLists := (\<lambda>c. if c \<in> set batch_classes then file_regs N c else [])\<rparr>"
  let ?sized = "?filled\<lparr>renameMap := (\<lambda>t c. if t < numThreads \<and> c \<in> set batch_classes
    then replicate (unat (numRegs (info c))) NullPtr else [])\<rparr>"
  have o: "objs_ok N (empty_rename_state rf)"
    using f by (auto simp: objs_ok_def empty_rename_state_def ptr_obj_def file_ok_def batch_classes_iff)
  then have o': "objs_ok N ?sized" by (simp add: objs_ok_def)
  have "initFreeList rf (empty_rename_state rf) = Inr ?filled"
    by (rule initFreeList_ok [OF f o]) (simp add: empty_rename_state_def)
  moreover have "foldE (UnifiedRenameMap_init info) [0..<numThreads] ?filled = Inr ?sized"
    by (subst size_maps_ok) (simp_all add: empty_rename_state_def)
  moreover have "\<exists>s'. init_maps info active ?sized = Inr s' \<and> physRegs s' = physRegs ?sized \<and> historyBuffer s' = historyBuffer ?sized
    \<and> (\<forall>c \<in> set batch_classes. freeLists s' c = drop (active * unat (numRegs (info c))) (file_regs N c)
        \<and> (\<forall>t<active. renameMap s' t c = take (unat (numRegs (info c))) (drop (t * unat (numRegs (info c))) (file_regs N c))))"
    using n t(2) by (intro init_maps_ok [OF o']) (auto intro: order_trans [OF mult_le_mono1])
  then obtain s' where s': "init_maps info active ?sized = Inr s'" "physRegs s' = physRegs ?sized" "historyBuffer s' = historyBuffer ?sized"
    and c: "\<And>c. c \<in> set batch_classes \<Longrightarrow> freeLists s' c = drop (active * unat (numRegs (info c))) (file_regs N c)"
      "\<And>c t. c \<in> set batch_classes \<Longrightarrow> t < active \<Longrightarrow>
        renameMap s' t c = take (unat (numRegs (info c))) (drop (t * unat (numRegs (info c))) (file_regs N c))"
    by blast
  ultimately have "rename_setup info rf numThreads active = Inr s'" using e t by (simp add: rename_setup_def)
  moreover have "reg_inv active N s'"
  proof -
    have "all_regs active c s' = pool N c" if b: "c \<in> set batch_classes" for c
    proof -
      have "active * unat (numRegs (info c)) \<le> length (file_regs N c)"
        using n b t(2) by (auto simp: file_regs_def intro: order_trans [OF mult_le_mono1])
      from chunks_total [OF this] show ?thesis
        using c b s' by (simp add: all_regs_def thread_regs_def pool_def file_regs_def empty_rename_state_def)
    qed
    then show ?thesis using o' s' by (simp add: reg_inv_def objs_ok_def empty_rename_state_def)
  qed
  ultimately show ?thesis using s' by (intro exI [of _ s']) (simp add: empty_rename_state_def)
qed

end
