(* ===== verification/RenameProps.thy ===== *)
theory RenameProps
  imports RenameInit
begin

text \<open>
  Properties of renaming: conservation of the physical registers over every run from the
  constructor, squashing as the inverse of renaming, and that the check \<open>canRename\<close> of the
  rename stage is enough for renaming not to abort.
\<close>

subsection \<open>Runs\<close>

inductive rename_step :: "nat \<Rightarrow> (RegId \<Rightarrow> RegId) \<Rightarrow> rename_state \<Rightarrow> rename_state \<Rightarrow> bool"
  for T flatten where
  rename: "t < T \<Longrightarrow> renameDestRegs flatten t q ds s = Inr (hs, s') \<Longrightarrow> rename_step T flatten s s'"
| squash: "t < T \<Longrightarrow> doSquash q t s = Inr s' \<Longrightarrow> rename_step T flatten s s'"
| commit: "t < T \<Longrightarrow> removeFromHistory q t s = Inr s' \<Longrightarrow> rename_step T flatten s s'"
| wakeup: "sb_setReg p s = Inr s' \<Longrightarrow> rename_step T flatten s s'"

lemma wakeup_inv:
  assumes "reg_inv T N s" and "sb_setReg p s = Inr s'"
  shows "reg_inv T N s'"
proof -
  obtain sb where "s' = s\<lparr>regScoreBoard := sb\<rparr>"
    using sb_update_result [of True p s s'] assms(2) by (auto simp: sb_setReg_def)
  with assms(1) show ?thesis by (simp add: reg_inv_def all_regs_def thread_regs_def)
qed

lemma rename_step_inv: "rename_step T flatten s s' \<Longrightarrow> reg_inv T N s \<Longrightarrow> reg_inv T N s'"
proof (induction rule: rename_step.induct)
  case (rename t q ds s hs s')
  then show ?case using renameDestRegs_inv by blast
next
  case (squash t q s s')
  then show ?case using doSquash_ok [of T N s t q] by auto
next
  case (commit t q s s')
  then show ?case using removeFromHistory_ok [of T N s t q] by auto
next
  case (wakeup p s s')
  then show ?case using wakeup_inv by blast
qed

lemma rename_run_inv: "rtranclp (rename_step T flatten) s s' \<Longrightarrow> reg_inv T N s \<Longrightarrow> reg_inv T N s'"
  by (induction rule: rtranclp_induct) (auto intro: rename_step_inv)

lemma PhysRegFile_new_file_ok:
  assumes "PhysRegFile_new counts info = Inr (Some rf)"
  shows "file_ok (\<lambda>c. unat (numPhysical rf c)) rf"
proof -
  obtain elems where e: "numPhysicalVecElemRegs (counts VecRegClass) info = Inr elems"
    using assms by (cases "numPhysicalVecElemRegs (counts VecRegClass) info") (auto simp: PhysRegFile_new_def)
  define num where "num = counts(VecElemClass := elems)"
  have "(\<forall>c \<in> set batch_classes. unat (num c) < 2 ^ 16) \<and> unat (numRegs (info MiscRegClass)) < 2 ^ 16"
    using PhysRegFile_new_diverges [OF e num_def] assms by force
  from PhysRegFile_new_built [OF e num_def this] assms show ?thesis by (auto simp: file_ok_def)
qed

text \<open>The checks of the constructor are enough for every class but the vector elements.\<close>

definition classes_fit :: "(RegClassType \<Rightarrow> RegClassInfo) \<Rightarrow> PhysRegFile \<Rightarrow> nat \<Rightarrow> bool" where
  "classes_fit info rf numThreads \<longleftrightarrow>
    list_all (\<lambda>c. unat (numRegs (info c)) < 2 ^ 16 \<and> numThreads * unat (numRegs (info c)) \<le> unat (numPhysical rf c))
      batch_classes"

lemma setup_inv:
  assumes "PhysRegFile_new counts info = Inr (Some rf)" and "classes_fit info rf numThreads"
    and "active \<le> numThreads" and "rename_setup info rf numThreads active = Inr s"
  shows "reg_inv active (\<lambda>c. unat (numPhysical rf c)) s"
proof -
  note f = PhysRegFile_new_file_ok [OF assms(1)]
  have "initFreeList rf (empty_rename_state rf) = Inr t \<Longrightarrow> numThreads \<noteq> 0 \<and> enough_regs info rf numThreads" for t
    using assms(4) by (simp add: rename_setup_def result_simps)
  then have "0 < numThreads" "enough_regs info rf numThreads"
    using assms(4) by (auto simp: rename_setup_def bindE_def split: sum.splits)
  with rename_setup_inv [OF f _ _ _ assms(3), of info] assms(2,4) show ?thesis
    by (auto simp: classes_fit_def list_all_iff)
qed


subsection \<open>Squash undoes rename\<close>

text \<open>Renaming the destinations of a sequence of instructions.\<close>

fun rename_insts ::
  "(RegId \<Rightarrow> RegId) \<Rightarrow> ThreadID \<Rightarrow> (InstSeqNum \<times> RegId list) list \<Rightarrow> rename_state \<Rightarrow> rename_state result" where
  "rename_insts flatten tid [] s = Inr s"
| "rename_insts flatten tid ((q, ds) # insts) s =
    bindE (renameDestRegs flatten tid q ds s) (\<lambda>(_, s1). rename_insts flatten tid insts s1)"

lemma rename_insts_inv:
  assumes "reg_inv T N s" and "tid < T" and "rename_insts flatten tid insts s = Inr s'"
    and "list_all (\<lambda>(q, _). q0 < q) insts"
  shows "\<exists>hs. reg_inv T N s' \<and> historyBuffer s' = (historyBuffer s)(tid := hs @ historyBuffer s tid)
    \<and> list_all (\<lambda>h. q0 < instSeqNum h) hs
    \<and> fold undo_map hs (renameMap s' tid) = renameMap s tid
    \<and> (\<forall>u. u \<noteq> tid \<longrightarrow> renameMap s' u = renameMap s u)"
  using assms
proof (induction insts arbitrary: s)
  case Nil
  then show ?case by (intro exI [of _ "[]"]) simp
next
  case (Cons i insts)
  obtain q ds hs1 s1 where i: "i = (q, ds)" and r: "renameDestRegs flatten tid q ds s = Inr (hs1, s1)"
    and rs: "rename_insts flatten tid insts s1 = Inr s'"
    using Cons.prems(3) by (cases i) (auto simp: bindE_def split: sum.splits)
  note one = renameDestRegs_inv [OF Cons.prems(1,2) r]
  obtain hs where hs: "reg_inv T N s'" "historyBuffer s' = (historyBuffer s1)(tid := hs @ historyBuffer s1 tid)"
    "list_all (\<lambda>h. q0 < instSeqNum h) hs" "fold undo_map hs (renameMap s' tid) = renameMap s1 tid"
    "\<forall>u. u \<noteq> tid \<longrightarrow> renameMap s' u = renameMap s1 u"
    using Cons.IH [OF conjunct1 [OF one] Cons.prems(2) rs conjunct2 [OF Cons.prems(4) [unfolded list.pred_inject]]]
    by blast
  show ?case
  proof (intro exI [of _ "hs @ rev hs1"] conjI)
    show "list_all (\<lambda>h. q0 < instSeqNum h) (hs @ rev hs1)"
      using hs(3) one Cons.prems(4) i by (auto simp: list_all_iff)
    show "reg_inv T N s'" by (rule hs(1))
    show "historyBuffer s' = (historyBuffer s)(tid := (hs @ rev hs1) @ historyBuffer s tid)" using hs(2) one by simp
    show "fold undo_map (hs @ rev hs1) (renameMap s' tid) = renameMap s tid" using hs(4) one by simp
    show "\<forall>u. u \<noteq> tid \<longrightarrow> renameMap s' u = renameMap s u" using hs(5) one by simp
  qed
qed

lemma takeWhile_young:
  assumes "list_all (\<lambda>h. q < instSeqNum h) hs" and "list_all (\<lambda>h. instSeqNum h \<le> q) old"
  shows "takeWhile (\<lambda>h. q < instSeqNum h) (hs @ old) = hs"
    and "dropWhile (\<lambda>h. q < instSeqNum h) (hs @ old) = old"
proof -
  have old: "takeWhile (\<lambda>h. q < instSeqNum h) old = []" "dropWhile (\<lambda>h. q < instSeqNum h) old = old"
    using assms(2) by (cases old; auto dest: leD)+
  show "takeWhile (\<lambda>h. q < instSeqNum h) (hs @ old) = hs" using assms(1) by (induction hs) (simp_all add: old)
  show "dropWhile (\<lambda>h. q < instSeqNum h) (hs @ old) = old" using assms(1) by (induction hs) (simp_all add: old)
qed

lemma free_of_rest:
  assumes "reg_inv T N s" and "reg_inv T N s'" and "c \<in> set batch_classes"
    and "renameMap s' = renameMap s" and "historyBuffer s' = historyBuffer s"
  shows "mset (freeLists s' c) = mset (freeLists s c)"
proof -
  have "all_regs T c s' = all_regs T c s" using assms(1-3) by (simp add: reg_inv_def)
  then show ?thesis using assms(4,5) by (simp add: all_regs_def thread_regs_def)
qed

text \<open>
  C6. Squashing undoes renaming. Take a state in which the invariant holds and the history of a
  thread has no entry younger than sequence number \<open>q\<close>, rename the destinations of any sequence
  of younger instructions, and squash the thread to \<open>q\<close>. The squash succeeds, every rename map
  and history buffer is exactly what it was before, each free list holds the same registers
  (in another order), and the invariant holds again.
\<close>

theorem squash_undoes_rename:
  assumes "reg_inv T N s" and "tid < T" and "list_all (\<lambda>h. instSeqNum h \<le> q) (historyBuffer s tid)"
    and "list_all (\<lambda>(q', _). q < q') insts" and "rename_insts flatten tid insts s = Inr s1"
  shows "\<exists>s2. doSquash q tid s1 = Inr s2 \<and> renameMap s2 = renameMap s \<and> historyBuffer s2 = historyBuffer s
    \<and> (\<forall>c \<in> set batch_classes. mset (freeLists s2 c) = mset (freeLists s c)) \<and> reg_inv T N s2"
proof -
  obtain hs where inv1: "reg_inv T N s1" and hb: "historyBuffer s1 = (historyBuffer s)(tid := hs @ historyBuffer s tid)"
    and y: "list_all (\<lambda>h. q < instSeqNum h) hs"
    and m: "fold undo_map hs (renameMap s1 tid) = renameMap s tid"
    and o: "\<forall>u. u \<noteq> tid \<longrightarrow> renameMap s1 u = renameMap s u"
    using rename_insts_inv [OF assms(1,2,5,4)] by blast
  obtain s2 where s2: "doSquash q tid s1 = Inr s2" "reg_inv T N s2"
    "historyBuffer s2 = (historyBuffer s1)(tid := dropWhile (\<lambda>h. q < instSeqNum h) (historyBuffer s1 tid))"
    "renameMap s2 = (renameMap s1)(tid :=
        fold undo_map (takeWhile (\<lambda>h. q < instSeqNum h) (historyBuffer s1 tid)) (renameMap s1 tid))"
    using doSquash_ok [OF inv1 assms(2)] by blast
  have "historyBuffer s2 = historyBuffer s" by (simp add: s2(3) hb takeWhile_young(2) [OF y assms(3)])
  moreover have "renameMap s2 = renameMap s"
    using o unfolding fun_eq_iff by (simp add: s2(4) hb takeWhile_young(1) [OF y assms(3)] m)
  ultimately show ?thesis using s2 free_of_rest [OF assms(1) s2(2)] by blast
qed

subsection \<open>Renaming does not abort\<close>

definition sb_ok :: "(RegClassType \<Rightarrow> nat) \<Rightarrow> rename_state \<Rightarrow> bool" where
  "sb_ok N s \<longleftrightarrow> length (regScoreBoard s) = unat (numPhysRegs s)
    \<and> (\<forall>c \<in> set batch_classes. \<forall>i < N c. unat (flatIdx (physRegs s (PhysPtr c i))) < unat (numPhysRegs s))"

definition same_idents :: "rename_state \<Rightarrow> rename_state \<Rightarrow> bool" where
  "same_idents s s' \<longleftrightarrow> numPhysRegs s' = numPhysRegs s
    \<and> (\<forall>p. physClass (physRegs s' p) = physClass (physRegs s p) \<and> flatIdx (physRegs s' p) = flatIdx (physRegs s p))"

lemma pinned_flat [simp]:
  "flatIdx (setNumPinnedWrites n r) = flatIdx r"
  "flatIdx (setNumPinnedWritesToComplete n r) = flatIdx r"
  "flatIdx (decrNumPinnedWrites r) = flatIdx r"
  by (simp_all add: setNumPinnedWrites_def setNumPinnedWritesToComplete_def decrNumPinnedWrites_def)

text \<open>What the remaining free registers and the map sizes are after one renaming.\<close>

definition uses_at_most :: "ThreadID \<Rightarrow> RegClassType \<Rightarrow> rename_state \<Rightarrow> rename_state \<Rightarrow> bool" where
  "uses_at_most tid c s s' \<longleftrightarrow>
    (\<forall>c'. length (renameMap s' tid c') = length (renameMap s tid c'))
    \<and> (\<forall>c'. length (freeLists s c') \<le> length (freeLists s' c') + (if c' = c then 1 else 0))"

lemma map_rename_ok:
  assumes inv: "reg_inv T N s" and t: "tid < T" and a: "isRenameable a" "numPinnedWrites a = 0"
    and i: "unat (regIdx a) < length (renameMap s tid (regClassOf a))" and f: "freeLists s (regClassOf a) \<noteq> []"
  shows "\<exists>new prev s'. map_rename tid a s = Inr ((new, prev), s') \<and> (\<exists>k<N (regClassOf a). new = PhysPtr (regClassOf a) k)
    \<and> same_idents s s' \<and> regScoreBoard s' = regScoreBoard s \<and> uses_at_most tid (regClassOf a) s s'"
proof -
  define c where "c = regClassOf a"
  define prev where "prev = renameMap s tid c ! unat (regIdx a)"
  have c: "c \<in> set batch_classes" "c \<noteq> InvalidRegClass" using a by (auto simp: batch_classes_iff c_def isRenameable_def)
  have "prev \<in># thread_regs c tid s" using i by (simp add: thread_regs_def prev_def c_def)
  then obtain k where k: "k < N c" "prev = PhysPtr c k" using reg_inv_thread [OF inv c(1) t] by blast
  obtain new fl where fl: "freeLists s c = new # fl" using f by (cases "freeLists s c") (auto simp: c_def)
  then obtain l where l: "l < N c" "new = PhysPtr c l" using reg_inv_free [OF inv c(1), of new] by auto
  show ?thesis
  proof (cases "physPinnedWrites (physRegs s prev) > 0")
    case True
    then show ?thesis using a(1,2) i c k
      by (simp add: map_rename_def SimpleRenameMap_rename_def c_def [symmetric] prev_def [symmetric] deref_def
          same_idents_def upd_obj_def uses_at_most_def Let_def)
  next
    case False
    then show ?thesis using a(1) i c k l fl
      by (simp add: map_rename_def SimpleRenameMap_rename_def c_def [symmetric] prev_def [symmetric] deref_def
          ufl_getReg_def fl_getReg_def map_entry_def same_idents_def upd_obj_def uses_at_most_def Let_def)
  qed
qed

lemma nth_update_False: "i < length xs \<Longrightarrow> \<not> xs ! i \<Longrightarrow> \<not> xs[j := False] ! i"
  by (cases "i = j") simp_all

lemma sb_unsetReg_ok:
  assumes "sb_ok N s" and "c \<in> set batch_classes" and "k < N c" and "physClass (physRegs s (PhysPtr c k)) = c"
  shows "\<exists>s'. sb_unsetReg (PhysPtr c k) s = Inr s' \<and> s' = s\<lparr>regScoreBoard := regScoreBoard s'\<rparr> \<and> sb_ok N s'
    \<and> sb_getReg (PhysPtr c k) s' = Inr False \<and> (\<forall>p. sb_getReg p s = Inr False \<longrightarrow> sb_getReg p s' = Inr False)"
proof -
  have nf: "\<not> isFixedMapping (physRegs s (PhysPtr c k))"
    using assms(2,4) by (auto simp: isFixedMapping_def batch_classes_iff)
  have fl: "unat (flatIdx (physRegs s (PhysPtr c k))) < unat (numPhysRegs s)"
    "length (regScoreBoard s) = unat (numPhysRegs s)" using assms(1-3) by (simp_all add: sb_ok_def)
  define s' where "s' = s\<lparr>regScoreBoard := (regScoreBoard s)[unat (flatIdx (physRegs s (PhysPtr c k))) := False]\<rparr>"
  have "sb_unsetReg (PhysPtr c k) s = Inr s'"
    using nf fl by (simp add: sb_unsetReg_def sb_update_def deref_def s'_def)
  moreover have "sb_ok N s'" using assms(1) by (simp add: sb_ok_def s'_def)
  moreover have "sb_getReg (PhysPtr c k) s' = Inr False" using nf fl by (simp add: sb_getReg_def deref_def s'_def)
  moreover have "sb_getReg p s' = Inr False" if "sb_getReg p s = Inr False" for p
    using that by (auto simp: sb_getReg_def deref_def s'_def checked_def nth_update_False split: if_splits)
  ultimately show ?thesis by (intro exI [of _ s']) (simp add: s'_def)
qed

lemma sb_getReg_cong:
  assumes "same_idents s s'" and "regScoreBoard s' = regScoreBoard s"
  shows "sb_getReg p s' = sb_getReg p s"
  using assms by (simp add: sb_getReg_def deref_def same_idents_def isFixedMapping_def checked_def)

definition dest_ok :: "(RegId \<Rightarrow> RegId) \<Rightarrow> ThreadID \<Rightarrow> rename_state \<Rightarrow> RegId \<Rightarrow> bool" where
  "dest_ok flatten tid s d \<longleftrightarrow> isRenameable (flatten d) \<and> numPinnedWrites d = 0
    \<and> unat (regIdx (flatten d)) < length (renameMap s tid (regClassOf (flatten d)))"

lemma renameDestReg_ok:
  assumes inv: "reg_inv T N s" and t: "tid < T" and sb: "sb_ok N s" and d: "dest_ok flatten tid s d"
    and f: "freeLists s (regClassOf (flatten d)) \<noteq> []"
  shows "\<exists>h s'. renameDestReg flatten tid q d s = Inr (h, s') \<and> sb_ok N s'
    \<and> uses_at_most tid (regClassOf (flatten d)) s s'
    \<and> sb_getReg (newPhysReg h) s' = Inr False \<and> (\<forall>p. sb_getReg p s = Inr False \<longrightarrow> sb_getReg p s' = Inr False)"
proof -
  define a where "a = (flatten d)\<lparr>numPinnedWrites := numPinnedWrites d\<rparr>"
  define c where "c = regClassOf (flatten d)"
  have a: "isRenameable a" "numPinnedWrites a = 0" "regClassOf a = c" "regIdx a = regIdx (flatten d)"
    using d by (simp_all add: a_def c_def dest_ok_def isRenameable_def)
  then have c: "c \<in> set batch_classes" by (simp add: isRenameable_batch)
  obtain k prev s1 where r: "map_rename tid a s = Inr ((PhysPtr c k, prev), s1)" and k: "k < N c"
    and s1: "same_idents s s1" "regScoreBoard s1 = regScoreBoard s" "uses_at_most tid c s s1"
    using map_rename_ok [OF inv t a(1,2)] d f by (auto simp: a(3,4) dest_ok_def c_def)
  have "sb_ok N s1" using sb s1 by (simp add: sb_ok_def same_idents_def)
  moreover have "physClass (physRegs s1 (PhysPtr c k)) = c"
    using reg_inv_class [OF inv c k] s1(1) by (simp add: same_idents_def)
  ultimately obtain s2 where s2: "sb_unsetReg (PhysPtr c k) s1 = Inr s2" "s2 = s1\<lparr>regScoreBoard := regScoreBoard s2\<rparr>"
    "sb_ok N s2" "sb_getReg (PhysPtr c k) s2 = Inr False" "\<forall>p. sb_getReg p s1 = Inr False \<longrightarrow> sb_getReg p s2 = Inr False"
    using sb_unsetReg_ok [where N = N and c = c and k = k, OF _ c k] by blast
  define h where "h = \<lparr>instSeqNum = q, archReg = a, newPhysReg = PhysPtr c k, prevPhysReg = prev\<rparr>"
  have "renameDestReg flatten tid q d s = Inr (h, push_history tid h s2)"
    using r s2(1) by (simp add: renameDestReg_def a_def [symmetric] h_def Let_def)
  moreover have p: "sb_getReg p (push_history tid h s2) = sb_getReg p s2" for p
    by (rule sb_getReg_cong) (simp_all add: same_idents_def push_history_def)
  moreover have "renameMap s2 = renameMap s1" "freeLists s2 = freeLists s1" by (subst s2(2), simp)+
  then have "uses_at_most tid c s (push_history tid h s2)"
    using s1(3) by (simp add: uses_at_most_def push_history_def)
  moreover have "sb_ok N (push_history tid h s2)" using s2(3) by (simp add: sb_ok_def push_history_def)
  ultimately show ?thesis using s2(4,5) sb_getReg_cong [OF s1(1,2)] by (auto simp: h_def c_def)
qed

text \<open>The number of destinations of each class.\<close>

definition dests_of :: "(RegId \<Rightarrow> RegId) \<Rightarrow> RegId list \<Rightarrow> RegClassType \<Rightarrow> nat" where
  "dests_of flatten ds c = length (filter (\<lambda>d. regClassOf (flatten d) = c) ds)"

lemma renameDestRegs_ok:
  assumes "reg_inv T N s" and "tid < T" and "sb_ok N s" and "list_all (dest_ok flatten tid s) ds"
    and "\<And>c. c \<in> set batch_classes \<Longrightarrow> dests_of flatten ds c \<le> length (freeLists s c)"
  shows "\<exists>hs s'. renameDestRegs flatten tid q ds s = Inr (hs, s') \<and> length hs = length ds
    \<and> list_all (\<lambda>h. sb_getReg (newPhysReg h) s' = Inr False) hs
    \<and> (\<forall>p. sb_getReg p s = Inr False \<longrightarrow> sb_getReg p s' = Inr False)"
  using assms
proof (induction ds arbitrary: s)
  case Nil
  then show ?case by simp
next
  case (Cons d ds)
  let ?c = "regClassOf (flatten d)"
  have d: "dest_ok flatten tid s d" and ds: "list_all (dest_ok flatten tid s) ds" using Cons.prems(4) by simp_all
  have c: "?c \<in> set batch_classes" using d by (simp add: dest_ok_def isRenameable_batch)
  have f: "freeLists s ?c \<noteq> []" using Cons.prems(5) [OF c] by (auto simp: dests_of_def)
  obtain h s1 where r: "renameDestReg flatten tid q d s = Inr (h, s1)" and s1: "sb_ok N s1" "uses_at_most tid ?c s s1"
    "sb_getReg (newPhysReg h) s1 = Inr False" "\<forall>p. sb_getReg p s = Inr False \<longrightarrow> sb_getReg p s1 = Inr False"
    using renameDestReg_ok [OF Cons.prems(1-3) d f] by blast
  have inv1: "reg_inv T N s1" using renameDestReg_inv [OF Cons.prems(1,2) r] by simp
  have ds1: "list_all (dest_ok flatten tid s1) ds"
    using ds s1(2) by (simp add: dest_ok_def uses_at_most_def list_all_iff)
  have len1: "dests_of flatten ds c \<le> length (freeLists s1 c)" if "c \<in> set batch_classes" for c
    using Cons.prems(5) [OF that] s1(2) [unfolded uses_at_most_def, THEN conjunct2, rule_format, of c]
    by (auto simp: dests_of_def split: if_splits)
  from Cons.IH [OF inv1 Cons.prems(2) s1(1) ds1 len1] r s1 show ?case by auto
qed

lemma canRename_enough:
  assumes "reg_inv T N s" and "canRename nd s" and "c \<in> set batch_classes" and "N c < 2 ^ 32" and "nd c < 2 ^ 32"
  shows "nd c \<le> length (freeLists s c)"
proof -
  have "mset (freeLists s c) \<subseteq># pool N c"
    using assms(1,3) unfolding reg_inv_def all_regs_def by (metis mset_subset_eq_add_left)
  from size_mset_mono [OF this] have "length (freeLists s c) \<le> N c" by (simp add: pool_def)
  then have "unat (numFreeRegs (freeLists s c)) = length (freeLists s c)"
    using assms(4) unfolding numFreeRegs_def by (intro unat_of_nat_small) simp
  moreover have "unat (of_nat (nd c) :: unsigned) = nd c" using assms(5) by (intro unat_of_nat_small) simp
  moreover have "unat (of_nat (nd c) :: unsigned) \<le> unat (numFreeRegs (freeLists s c))"
    using assms(2,3) by (auto simp: canRename_def list_all_iff not_less word_le_nat_alt)
  ultimately show ?thesis by simp
qed


end
