(* ===== verification/RenameWitnesses.thy ===== *)
theory RenameWitnesses
  imports RenameProps
begin

text \<open>The properties of renaming at concrete inputs: a set-up with two registers per class, and
  a state with one integer register mapped and two free.\<close>

definition demo_info :: "RegClassType \<Rightarrow> RegClassInfo" where
  "demo_info c = \<lparr>numRegs = 1, regBytes = 8, regShift = 3\<rparr>"

lemma demo_setup:
  "\<exists>rf s. PhysRegFile_new (\<lambda>_. 2) demo_info = Inr (Some rf) \<and> classes_fit demo_info rf 1
    \<and> numPhysical rf = (\<lambda>_. 2) \<and> rename_setup demo_info rf 1 1 = Inr s"
proof -
  have e: "numPhysicalVecElemRegs 2 demo_info = Inr 2"
    unfolding numPhysicalVecElemRegs_def demo_info_def by code_simp
  have n: "(\<lambda>_. 2) = (\<lambda>_. 2)(VecElemClass := 2 :: unsigned)" by auto
  have "(\<forall>c \<in> set batch_classes. unat ((\<lambda>_. 2 :: unsigned) c) < 2 ^ 16) \<and> unat (numRegs (demo_info MiscRegClass)) < 2 ^ 16"
    by (simp add: demo_info_def)
  from PhysRegFile_new_built [of "\<lambda>_. 2", OF e n this] obtain rf where
    rf: "PhysRegFile_new (\<lambda>_. 2) demo_info = Inr (Some rf)" "numPhysical rf = (\<lambda>_. 2)" by blast
  have fit: "classes_fit demo_info rf 1" by (simp add: classes_fit_def demo_info_def rf(2) list_all_iff)
  have "enough_regs demo_info rf 1" unfolding enough_regs_def rf(2) demo_info_def by simp
  with rename_setup_inv [OF PhysRegFile_new_file_ok [OF rf(1)], of demo_info 1 1] fit
  have "\<exists>s. rename_setup demo_info rf 1 1 = Inr s" by (auto simp: classes_fit_def list_all_iff)
  with rf fit show ?thesis by blast
qed


definition demo_state :: rename_state where
  "demo_state = \<lparr>freeLists = (\<lambda>c. if c = IntRegClass then [PhysPtr IntRegClass 1, PhysPtr IntRegClass 2] else []),
    renameMap = (\<lambda>t c. if c = IntRegClass then [PhysPtr IntRegClass 0] else []),
    physRegs = (\<lambda>p. case p of PhysPtr c i \<Rightarrow> PhysRegId_new c (of_nat i) (of_nat i) | NullPtr \<Rightarrow> invalidPhysRegId),
    regScoreBoard = [True, True, True], numPhysRegs = 3, historyBuffer = (\<lambda>_. [])\<rparr>"

definition demo_regs :: "RegClassType \<Rightarrow> nat" where
  "demo_regs c = (if c = IntRegClass then 3 else 0)"

lemma demo_inv: "reg_inv 1 demo_regs demo_state"
  by (simp add: reg_inv_def demo_state_def all_regs_def thread_regs_def pool_def demo_regs_def
      PhysRegId_new_def numeral_3_eq_3 upt_rec)

lemma demo_sb: "sb_ok demo_regs demo_state"
  by (simp add: sb_ok_def demo_state_def demo_regs_def PhysRegId_new_def unat_of_nat_small less_imp_le)

lemma demo_rename:
  "rename_insts id 0 [(7, [RegId_new IntRegClass 0])] demo_state = Inr
    (push_history 0 \<lparr>instSeqNum = 7, archReg = RegId_new IntRegClass 0, newPhysReg = PhysPtr IntRegClass 1,
        prevPhysReg = PhysPtr IntRegClass 0\<rparr>
      (demo_state\<lparr>freeLists := (\<lambda>c. if c = IntRegClass then [PhysPtr IntRegClass 2] else []),
        renameMap := (renameMap demo_state)(0 := (\<lambda>c. if c = IntRegClass then [PhysPtr IntRegClass 1] else [])),
        physRegs := (physRegs demo_state)(PhysPtr IntRegClass 1 :=
          setNumPinnedWritesToComplete 1 (setNumPinnedWrites 0 (physRegs demo_state (PhysPtr IntRegClass 1)))),
        regScoreBoard := [True, False, True]\<rparr>))"
  by (simp add: renameDestReg_def map_rename_def SimpleRenameMap_rename_def isRenameable_def RegId_new_def demo_state_def
      deref_def ufl_getReg_def fl_getReg_def Let_def map_entry_def upd_obj_def sb_unsetReg_def sb_update_def
      isFixedMapping_def PhysRegId_new_def setNumPinnedWritesToComplete_def setNumPinnedWrites_def push_history_def
      fun_upd_def cong: if_cong PhysRegIdPtr.case_cong)

theorem squash_undoes_rename_witness:
  "\<exists>s1 s2. rename_insts id 0 [(7, [RegId_new IntRegClass 0])] demo_state = Inr s1
    \<and> renameMap s1 0 IntRegClass = [PhysPtr IntRegClass 1]
    \<and> doSquash 6 0 s1 = Inr s2 \<and> renameMap s2 = renameMap demo_state"
proof -
  have "list_all (\<lambda>h. instSeqNum h \<le> 6) (historyBuffer demo_state 0)" by (simp add: demo_state_def)
  from squash_undoes_rename [OF demo_inv _ this _ demo_rename] show ?thesis
    unfolding demo_rename by (simp add: push_history_def) blast
qed


end
