(* ===== verification/ReorderBuffer.thy ===== *)
theory ReorderBuffer
  imports Prelude
begin

text \<open>
  The reorder buffer, \<^verbatim>\<open>src/cpu/o3/rob.cc\<close> and \<^verbatim>\<open>rob.hh\<close>: per-thread lists of instructions, the
  counters of the partitions, the iterators to the oldest and the youngest instruction, and
  the squash that walks a list from its tail over several cycles.

  An iterator into the list of a thread is a position; erasing the front of a list shifts the
  positions and leaves an iterator to the erased element dangling. The status bits of an
  instruction that the buffer reads or writes are the fields of \<open>RobInst\<close>; the counters of
  pinned registers that \<open>DynInst::setSquashed\<close> also updates belong to the register objects and
  are not part of this state. \<open>cpu->isThreadExiting\<close> is an argument; the instruction that
  \<open>retireHead\<close> hands to \<open>cpu->removeFrontInst\<close> is its result.
\<close>

datatype SMTQueuePolicy = Dynamic | Partitioned | Threshold

datatype RobStatus = RobRunning | RobIdle | ROBSquashing

datatype InstIt = ItEnd ThreadID | ItAt ThreadID nat | ItDangling

record RobInst =
  seqNum :: InstSeqNum
  threadNumber :: ThreadID
  canCommit :: bool
  squashed :: bool
  inROB :: bool
  committed :: bool

record ROB =
  robStatus :: "ThreadID \<Rightarrow> RobStatus"
  robPolicy :: SMTQueuePolicy
  activeThreads :: "ThreadID list"
  numEntries :: unsigned
  threadEntries :: "ThreadID \<Rightarrow> unsigned"
  maxEntries :: "ThreadID \<Rightarrow> unsigned"
  instList :: "ThreadID \<Rightarrow> RobInst list"
  squashWidth :: unsigned
  rob_tail :: InstIt
  rob_head :: InstIt
  squashIt :: "ThreadID \<Rightarrow> InstIt"
  numInstsInROB :: int
  squashedSeqNum :: "ThreadID \<Rightarrow> InstSeqNum"
  doneSquashing :: "ThreadID \<Rightarrow> bool"
  rob_numThreads :: nat

definition MaxThreads :: nat where
  "MaxThreads = 4"

subsection \<open>Set-up\<close>

definition rob_resetState :: "ROB \<Rightarrow> ROB" where
  "rob_resetState r = r\<lparr>
    threadEntries := (\<lambda>tid. if tid < MaxThreads then 0 else threadEntries r tid),
    squashIt := (\<lambda>tid. if tid < MaxThreads then ItEnd tid else squashIt r tid),
    squashedSeqNum := (\<lambda>tid. if tid < MaxThreads then 0 else squashedSeqNum r tid),
    doneSquashing := (\<lambda>tid. if tid < MaxThreads then True else doneSquashing r tid),
    numInstsInROB := 0, rob_head := ItEnd 0, rob_tail := ItEnd 0\<rparr>"

definition initial_max :: "SMTQueuePolicy \<Rightarrow> unsigned \<Rightarrow> unsigned \<Rightarrow> nat \<Rightarrow> unsigned" where
  "initial_max policy entries threshold threads =
    (case policy of Dynamic \<Rightarrow> entries | Partitioned \<Rightarrow> entries div of_nat threads | Threshold \<Rightarrow> threshold)"

text \<open>The status of the threads is not initialised; it is an argument.\<close>

definition ROB_new ::
  "(ThreadID \<Rightarrow> RobStatus) \<Rightarrow> SMTQueuePolicy \<Rightarrow> unsigned \<Rightarrow> unsigned \<Rightarrow> unsigned \<Rightarrow> nat \<Rightarrow> ThreadID list \<Rightarrow> ROB result" where
  "ROB_new st policy entries width threshold threads active =
    checked (policy = Partitioned \<longrightarrow> threads \<noteq> 0) UndefinedBehaviour
      (checked (threads \<le> MaxThreads) UndefinedBehaviour
        (Inr (rob_resetState \<lparr>robStatus = st, robPolicy = policy, activeThreads = active, numEntries = entries,
          threadEntries = (\<lambda>_. 0),
          maxEntries = (\<lambda>tid. if tid < threads then initial_max policy entries threshold threads else 0),
          instList = (\<lambda>_. []), squashWidth = width, rob_tail = ItEnd 0, rob_head = ItEnd 0, squashIt = ItEnd,
          numInstsInROB = 0, squashedSeqNum = (\<lambda>_. 0), doneSquashing = (\<lambda>_. True), rob_numThreads = threads\<rparr>)))"

definition reset_entry :: "nat \<Rightarrow> ThreadID \<Rightarrow> ROB \<Rightarrow> ROB" where
  "reset_entry active tid r =
    (if robPolicy r = Partitioned then r\<lparr>maxEntries := (maxEntries r)(tid := of_nat (unat (numEntries r) div active))\<rparr>
     else if robPolicy r = Threshold \<and> active = 1 then r\<lparr>maxEntries := (maxEntries r)(tid := numEntries r)\<rparr>
     else r)"

definition rob_resetEntries :: "ROB \<Rightarrow> ROB" where
  "rob_resetEntries r =
    (if robPolicy r \<noteq> Dynamic \<or> rob_numThreads r > 1
     then fold (reset_entry (length (activeThreads r))) (activeThreads r) r else r)"

definition entryAmount :: "nat \<Rightarrow> ROB \<Rightarrow> unsigned result" where
  "entryAmount num_threads r =
    (if robPolicy r = Partitioned
     then checked (num_threads \<noteq> 0) UndefinedBehaviour (Inr (numEntries r div of_nat num_threads))
     else Inr 0)"

definition rob_countInsts :: "ROB \<Rightarrow> nat" where
  "rob_countInsts r = (\<Sum>tid<rob_numThreads r. length (instList r tid))"

definition rob_isFull :: "ROB \<Rightarrow> bool" where
  "rob_isFull r \<longleftrightarrow> word_of_int (numInstsInROB r) = numEntries r"

definition rob_isFull_thread :: "ThreadID \<Rightarrow> ROB \<Rightarrow> bool" where
  "rob_isFull_thread tid r \<longleftrightarrow> threadEntries r tid = numEntries r"

definition rob_isEmpty :: "ROB \<Rightarrow> bool" where
  "rob_isEmpty r \<longleftrightarrow> numInstsInROB r = 0"

definition rob_isEmpty_thread :: "ThreadID \<Rightarrow> ROB \<Rightarrow> bool" where
  "rob_isEmpty_thread tid r \<longleftrightarrow> threadEntries r tid = 0"

definition rob_numFreeEntries :: "ROB \<Rightarrow> unsigned" where
  "rob_numFreeEntries r = numEntries r - word_of_int (numInstsInROB r)"

definition rob_numFreeEntries_thread :: "ThreadID \<Rightarrow> ROB \<Rightarrow> unsigned" where
  "rob_numFreeEntries_thread tid r = maxEntries r tid - threadEntries r tid"

definition rob_drainSanityCheck :: "ROB \<Rightarrow> unit result" where
  "rob_drainSanityCheck r =
    checked (list_all (\<lambda>tid. instList r tid = []) [0..<rob_numThreads r] \<and> rob_isEmpty r) AssertFailed (Inr ())"

definition rob_setActiveThreads :: "ThreadID list \<Rightarrow> ROB \<Rightarrow> ROB" where
  "rob_setActiveThreads at r = r\<lparr>activeThreads := at\<rparr>"

definition rob_takeOverFrom :: "ROB \<Rightarrow> ROB" where
  "rob_takeOverFrom r = rob_resetState r"

subsection \<open>Oldest and youngest instruction\<close>

definition head_step :: "ROB \<Rightarrow> ThreadID \<Rightarrow> InstIt \<times> InstSeqNum \<times> bool \<Rightarrow> InstIt \<times> InstSeqNum \<times> bool" where
  "head_step r tid = (\<lambda>(h, lowest_num, first_valid).
    if instList r tid = [] then (h, lowest_num, first_valid)
    else let n = seqNum (hd (instList r tid)) in
      if first_valid then (ItAt tid 0, n, False)
      else if n < lowest_num then (ItAt tid 0, n, False)
      else (h, lowest_num, False))"

definition updateHead :: "ROB \<Rightarrow> ROB" where
  "updateHead r =
    (let (h, lowest_num, first_valid) = fold (head_step r) (activeThreads r) (rob_head r, 0, True)
     in r\<lparr>rob_head := if first_valid then ItEnd 0 else h\<rparr>)"

definition last_it :: "ThreadID \<Rightarrow> ROB \<Rightarrow> InstIt" where
  "last_it tid r = ItAt tid (length (instList r tid) - 1)"

definition it_seqNum :: "ROB \<Rightarrow> InstIt \<Rightarrow> InstSeqNum" where
  "it_seqNum r it = (case it of ItAt tid p \<Rightarrow> seqNum (instList r tid ! p) | _ \<Rightarrow> 0)"

definition tail_step :: "ROB \<Rightarrow> ThreadID \<Rightarrow> InstIt \<times> bool \<Rightarrow> InstIt \<times> bool" where
  "tail_step r tid = (\<lambda>(t, first_valid).
    if instList r tid = [] then (t, first_valid)
    else if first_valid then (last_it tid r, False)
    else if it_seqNum r (last_it tid r) > it_seqNum r t then (last_it tid r, False)
    else (t, False))"

definition updateTail :: "ROB \<Rightarrow> ROB" where
  "updateTail r = r\<lparr>rob_tail := fst (fold (tail_step r) (activeThreads r) (ItEnd 0, True))\<rparr>"

subsection \<open>Insertion and retirement\<close>

definition insertInst :: "RobInst \<Rightarrow> ROB \<Rightarrow> ROB result" where
  "insertInst inst r =
    (let tid = threadNumber inst; l = instList r tid in
     checked (\<not> rob_isFull r) AssertFailed
       (checked (tid < MaxThreads) UndefinedBehaviour
         (checked (numInstsInROB r = 0 \<longrightarrow> l = []) AssertFailed
           (Inr (r\<lparr>instList := (instList r)(tid := l @ [inst\<lparr>inROB := True\<rparr>]),
             rob_head := (if numInstsInROB r = 0 then ItAt tid 0 else rob_head r),
             rob_tail := ItAt tid (length l),
             numInstsInROB := numInstsInROB r + 1,
             threadEntries := (threadEntries r)(tid := threadEntries r tid + 1)\<rparr>)))))"

text \<open>What erasing the front of the list of a thread does to an iterator.\<close>

definition shift_it :: "ThreadID \<Rightarrow> InstIt \<Rightarrow> InstIt" where
  "shift_it tid it = (case it of
     ItAt t p \<Rightarrow> if t = tid then (if p = 0 then ItDangling else ItAt t (p - 1)) else it
   | _ \<Rightarrow> it)"

definition retireHead :: "ThreadID \<Rightarrow> ROB \<Rightarrow> (RobInst \<times> ROB) result" where
  "retireHead tid r =
    checked (numInstsInROB r > 0) AssertFailed
      (checked (tid < MaxThreads \<and> instList r tid \<noteq> []) UndefinedBehaviour
        (let head_inst = hd (instList r tid) in
         checked (canCommit head_inst) AssertFailed
           (Inr (head_inst\<lparr>inROB := False, committed := True\<rparr>,
             updateHead (r\<lparr>instList := (instList r)(tid := tl (instList r tid)),
               numInstsInROB := numInstsInROB r - 1,
               threadEntries := (threadEntries r)(tid := threadEntries r tid - 1),
               rob_head := shift_it tid (rob_head r), rob_tail := shift_it tid (rob_tail r),
               squashIt := (\<lambda>t. shift_it tid (squashIt r t))\<rparr>)))))"

definition isHeadReady :: "ThreadID \<Rightarrow> ROB \<Rightarrow> bool result" where
  "isHeadReady tid r =
    (if threadEntries r tid \<noteq> 0
     then checked (instList r tid \<noteq> []) UndefinedBehaviour (Inr (canCommit (hd (instList r tid))))
     else Inr False)"

fun canCommit_loop :: "ThreadID list \<Rightarrow> ROB \<Rightarrow> bool result" where
  "canCommit_loop [] r = Inr False"
| "canCommit_loop (tid # threads) r = bindE (isHeadReady tid r) (\<lambda>b. if b then Inr True else canCommit_loop threads r)"

definition rob_canCommit :: "ROB \<Rightarrow> bool result" where
  "rob_canCommit r = canCommit_loop (activeThreads r) r"

text \<open>\<open>None\<close> is the dummy instruction.\<close>

definition readHeadInst :: "ThreadID \<Rightarrow> ROB \<Rightarrow> RobInst option result" where
  "readHeadInst tid r =
    (if threadEntries r tid \<noteq> 0
     then checked (instList r tid \<noteq> []) UndefinedBehaviour
       (checked (inROB (hd (instList r tid))) AssertFailed (Inr (Some (hd (instList r tid)))))
     else Inr None)"

definition readTailInst :: "ThreadID \<Rightarrow> ROB \<Rightarrow> RobInst result" where
  "readTailInst tid r = checked (instList r tid \<noteq> []) UndefinedBehaviour (Inr (last (instList r tid)))"

definition findInst :: "ThreadID \<Rightarrow> InstSeqNum \<Rightarrow> ROB \<Rightarrow> RobInst option" where
  "findInst tid squash_inst r = find (\<lambda>i. seqNum i = squash_inst) (instList r tid)"

subsection \<open>Squashing\<close>

definition mark_squashed :: "RobInst \<Rightarrow> RobInst" where
  "mark_squashed i = i\<lparr>squashed := True, canCommit := True\<rparr>"

text \<open>
  The loop of \<open>doSquash\<close>: the budget, the limit, the position of \<open>squashIt\<close>, the list and whether
  the tail was squashed. \<open>None\<close> as position: the loop returned at the head of the list.
\<close>

fun rob_squash_loop ::
  "nat \<Rightarrow> InstSeqNum \<Rightarrow> nat \<Rightarrow> RobInst list \<Rightarrow> bool \<Rightarrow> RobInst list \<times> nat option \<times> bool" where
  "rob_squash_loop 0 q p l upd = (l, Some p, upd)"
| "rob_squash_loop (Suc n) q p l upd =
    (if seqNum (l ! p) > q
     then let l' = l[p := mark_squashed (l ! p)] in
       if p = 0 then (l', None, upd)
       else rob_squash_loop n q (p - 1) l' (upd \<or> p = length l - 1)
     else (l, Some p, upd))"

definition rob_doSquash :: "bool \<Rightarrow> ThreadID \<Rightarrow> ROB \<Rightarrow> ROB result" where
  "rob_doSquash exiting tid r =
    (let finish = (\<lambda>r. r\<lparr>squashIt := (squashIt r)(tid := ItEnd tid), doneSquashing := (doneSquashing r)(tid := True)\<rparr>);
         q = squashedSeqNum r tid; l = instList r tid
     in case squashIt r tid of
       ItEnd _ \<Rightarrow> Inl AssertFailed
     | ItDangling \<Rightarrow> Inl UndefinedBehaviour
     | ItAt t p \<Rightarrow>
       checked (t = tid \<and> p < length l) UndefinedBehaviour
         (if seqNum (l ! p) < q then Inr (finish r)
          else let numInstsToSquash = (if exiting then unat (numEntries r) else unat (squashWidth r));
                   (l', pos, robTailUpdate) = rob_squash_loop numInstsToSquash q p l False;
                   r1 = r\<lparr>instList := (instList r)(tid := l')\<rparr>
          in case pos of
               None \<Rightarrow> Inr (finish r1)
             | Some p' \<Rightarrow>
               let r2 = r1\<lparr>squashIt := (squashIt r)(tid := ItAt tid p')\<rparr>;
                   r3 = (if seqNum (l' ! p') \<le> q then finish r2 else r2)
               in Inr (if robTailUpdate then updateTail r3 else r3)))"

definition rob_squash :: "bool \<Rightarrow> InstSeqNum \<Rightarrow> ThreadID \<Rightarrow> ROB \<Rightarrow> ROB result" where
  "rob_squash exiting squash_num tid r =
    (if rob_isEmpty_thread tid r then Inr r
     else let r1 = r\<lparr>robStatus := (robStatus r)(tid := ROBSquashing), doneSquashing := (doneSquashing r)(tid := False),
                     squashedSeqNum := (squashedSeqNum r)(tid := squash_num)\<rparr>
          in if instList r tid \<noteq> []
             then rob_doSquash exiting tid (r1\<lparr>squashIt := (squashIt r)(tid := last_it tid r)\<rparr>)
             else Inr r1)"

subsection \<open>A squash over several cycles\<close>

text \<open>
  What \<open>Commit::tick\<close> does in the following cycles: while the thread is not done squashing, another
  call of \<open>doSquash\<close>.
\<close>

fun continue_squash :: "nat \<Rightarrow> bool \<Rightarrow> ThreadID \<Rightarrow> ROB \<Rightarrow> ROB result" where
  "continue_squash 0 exiting tid r = Inr r"
| "continue_squash (Suc n) exiting tid r =
    (if doneSquashing r tid then Inr r
     else bindE (rob_doSquash exiting tid r) (continue_squash n exiting tid))"

definition mark_above :: "nat \<Rightarrow> RobInst list \<Rightarrow> RobInst list" where
  "mark_above k l = take k l @ map mark_squashed (drop k l)"

lemma length_mark_above [simp]: "length (mark_above k l) = length l"
  by (simp add: mark_above_def)

lemma nth_mark_above:
  "i < length l \<Longrightarrow> mark_above k l ! i = (if i < k then l ! i else mark_squashed (l ! i))"
  by (simp add: mark_above_def nth_append min_def)

lemma mark_above_step:
  assumes "p < length l"
  shows "(mark_above (Suc p) l)[p := mark_squashed (l ! p)] = mark_above p l"
  using assms by (intro nth_equalityI) (auto simp: nth_mark_above nth_list_update less_Suc_eq)

lemma seqNum_mark [simp]: "seqNum (mark_squashed i) = seqNum i"
  by (simp add: mark_squashed_def)

text \<open>\<open>j\<close> splits a list at a sequence number: the instructions from position \<open>j\<close> on are younger.\<close>

definition split_at :: "InstSeqNum \<Rightarrow> nat \<Rightarrow> RobInst list \<Rightarrow> bool" where
  "split_at q j l \<longleftrightarrow> j \<le> length l \<and> (\<forall>i < length l. q < seqNum (l ! i) \<longleftrightarrow> j \<le> i)"

lemma rob_squash_loop_run:
  assumes "split_at q j l" and "p < length l" and "j \<le> Suc p"
  shows "\<exists>upd'. rob_squash_loop n q p (mark_above (Suc p) l) upd =
    (let y = Suc p - j in
     if y \<le> n \<and> j = 0 \<and> 0 < n then (mark_above 0 l, None, upd')
     else (mark_above (Suc p - min n y) l, Some (p - min n y), upd'))"
  using assms(2,3)
proof (induction n arbitrary: p upd)
  case 0
  then show ?case by auto
next
  case (Suc n)
  note Suc_n = Suc
  have at: "seqNum (mark_above (Suc p) l ! p) = seqNum (l ! p)" "mark_above (Suc p) l ! p = l ! p"
    using Suc.prems by (simp_all add: nth_mark_above)
  show ?case
  proof (cases "j \<le> p")
    case False
    then have j: "j = Suc p" using Suc.prems by simp
    then have "\<not> q < seqNum (l ! p)" using assms(1) Suc.prems by (simp add: split_at_def)
    then show ?thesis using j by (auto simp: at)
  next
    case True
    then have q: "q < seqNum (l ! p)" using assms(1) Suc.prems by (simp add: split_at_def)
    show ?thesis
    proof (cases p)
      case 0
      then show ?thesis using q Suc.prems True mark_above_step [of p l] by (auto simp: at [unfolded 0] Let_def)
    next
      case (Suc k)
      have step: "(mark_above (Suc p) l)[p := mark_squashed (l ! p)] = mark_above (Suc k) l"
        using mark_above_step Suc_n(2) Suc by simp
      have m: "Suc p - min (Suc n) (Suc p - j) = Suc k - min n (Suc k - j)"
        "p - min (Suc n) (Suc p - j) = k - min n (Suc k - j)"
        using True Suc by (simp_all add: min_def Suc_diff_le)
      have "k < length l" "j \<le> Suc k" using Suc_n(2) True Suc by simp_all
      from Suc_n(1) [OF this, of "upd \<or> p = length (mark_above (Suc p) l) - 1"] obtain upd' where
        "rob_squash_loop n q k (mark_above (Suc k) l) (upd \<or> p = length (mark_above (Suc p) l) - 1) =
          (let y = Suc k - j in
           if y \<le> n \<and> j = 0 \<and> 0 < n then (mark_above 0 l, None, upd')
           else (mark_above (Suc k - min n y) l, Some (k - min n y), upd'))" by blast
      moreover have "Suc k - j \<le> n \<and> j = 0 \<and> 0 < n \<longleftrightarrow> Suc k - j \<le> n \<and> j = 0" by auto
      ultimately show ?thesis using q True Suc
        by (intro exI [of _ upd'])
          (auto simp: at [unfolded Suc] step [unfolded Suc] m [unfolded Suc] Let_def Suc_diff_le)
    qed
  qed
qed

text \<open>What a squash of a thread leaves alone.\<close>

definition rest_of :: "ROB \<Rightarrow> ROB \<Rightarrow> ROB" where
  "rest_of r r' = r'\<lparr>instList := instList r, squashIt := squashIt r, doneSquashing := doneSquashing r,
    rob_tail := rob_tail r\<rparr>"

definition squash_frame :: "ThreadID \<Rightarrow> ROB \<Rightarrow> ROB \<Rightarrow> bool" where
  "squash_frame tid r r' \<longleftrightarrow> rest_of r r' = r
    \<and> (\<forall>t. t \<noteq> tid \<longrightarrow> instList r' t = instList r t \<and> squashIt r' t = squashIt r t
        \<and> doneSquashing r' t = doneSquashing r t)"

lemma squash_frame_trans:
  assumes "squash_frame tid r r'" and "squash_frame tid r' r''"
  shows "squash_frame tid r r''"
proof -
  have "rest_of r r'' = rest_of r (rest_of r' r'')" by (simp add: rest_of_def)
  with assms show ?thesis by (simp add: squash_frame_def)
qed

text \<open>
  The state of a squash in progress: of the list \<open>l\<close> at its start the instructions from position
  \<open>k\<close> on are marked, and \<open>squashIt\<close> is just below.
\<close>

definition squashing :: "InstSeqNum \<Rightarrow> nat \<Rightarrow> ThreadID \<Rightarrow> RobInst list \<Rightarrow> nat \<Rightarrow> ROB \<Rightarrow> bool" where
  "squashing q j tid l k r \<longleftrightarrow> instList r tid = mark_above k l \<and> squashIt r tid = ItAt tid (k - 1)
    \<and> 1 \<le> k \<and> k \<le> length l \<and> j \<le> k \<and> squashedSeqNum r tid = q \<and> split_at q j l"

definition squash_budget :: "bool \<Rightarrow> ROB \<Rightarrow> nat" where
  "squash_budget exiting r = (if exiting then unat (numEntries r) else unat (squashWidth r))"

lemma updateTail_frame: "\<exists>t. updateTail r = r\<lparr>rob_tail := t\<rparr>"
  by (auto simp: updateTail_def)

lemma rob_doSquash_run:
  assumes sq: "squashing q j tid l k r" and nd: "\<not> doneSquashing r tid" and n: "0 < squash_budget exiting r"
  shows "\<exists>r'. rob_doSquash exiting tid r = Inr r' \<and> squash_frame tid r r'
    \<and> (if k - j \<le> squash_budget exiting r then doneSquashing r' tid \<and> instList r' tid = mark_above j l
       else \<not> doneSquashing r' tid \<and> squashing q j tid l (k - squash_budget exiting r) r')"
proof -
  let ?n = "squash_budget exiting r"
  let ?fin = "\<lambda>r. r\<lparr>squashIt := (squashIt r)(tid := ItEnd tid), doneSquashing := (doneSquashing r)(tid := True)\<rparr>"
  obtain p where p: "k = Suc p" using sq by (cases k) (auto simp: squashing_def)
  have l: "instList r tid = mark_above (Suc p) l" "squashIt r tid = ItAt tid p" "p < length l" "j \<le> Suc p"
    "squashedSeqNum r tid = q" and sp: "split_at q j l"
    using sq by (auto simp: squashing_def p)
  have at: "seqNum (mark_above (Suc p) l ! p) = seqNum (l ! p)" using l by (simp add: nth_mark_above)
  show ?thesis
  proof (cases "seqNum (l ! p) < q")
    case True
    then have "j = Suc p" using sp l by (auto simp: split_at_def not_le)
    then show ?thesis using True l nd
      by (intro exI [of _ "?fin r"]) (simp add: rob_doSquash_def at p squash_frame_def rest_of_def Let_def)
  next
    case False
    obtain upd where run: "rob_squash_loop ?n q p (mark_above (Suc p) l) False =
      (if Suc p - j \<le> ?n \<and> j = 0 then (mark_above 0 l, None, upd)
       else (mark_above (Suc p - min ?n (Suc p - j)) l, Some (p - min ?n (Suc p - j)), upd))"
      using rob_squash_loop_run [OF sp l(3,4), of ?n False] n by (auto simp: Let_def)
    show ?thesis
    proof (cases "Suc p - j \<le> ?n \<and> j = 0")
      case True
      define r' where "r' = ?fin (r\<lparr>instList := (instList r)(tid := mark_above 0 l)\<rparr>)"
      have "rob_squash_loop ?n q p (mark_above (Suc p) l) False = (mark_above 0 l, None, upd)"
        unfolding run if_P [OF True] ..
      then have "rob_doSquash exiting tid r = Inr r'"
        using False l by (simp add: rob_doSquash_def at r'_def squash_budget_def [symmetric])
      moreover have "squash_frame tid r r'" by (simp add: squash_frame_def rest_of_def r'_def)
      ultimately show ?thesis using True by (intro exI [of _ r']) (auto simp: r'_def p)
    next
      case nf: False
      define k' where "k' = Suc p - min ?n (Suc p - j)"
      define l' where "l' = mark_above k' l"
      have k': "1 \<le> k'" "k' \<le> length l" "p - min ?n (Suc p - j) = k' - 1" "j \<le> k'"
        using nf l by (auto simp: k'_def min_def)
      have y: "seqNum (l' ! (k' - 1)) = seqNum (l ! (k' - 1))" using k' by (simp add: l'_def nth_mark_above)
      have done_iff: "seqNum (l ! (k' - 1)) \<le> q \<longleftrightarrow> Suc p - j \<le> ?n"
      proof -
        have "q < seqNum (l ! (k' - 1)) \<longleftrightarrow> j \<le> k' - 1" using sp k' unfolding split_at_def by simp
        then have "seqNum (l ! (k' - 1)) \<le> q \<longleftrightarrow> \<not> j \<le> k' - 1" by (metis not_less)
        also have "\<dots> \<longleftrightarrow> Suc p - j \<le> ?n" using l k' by (auto simp: k'_def min_def split: if_splits)
        finally show ?thesis .
      qed
      define r2 where "r2 = r\<lparr>instList := (instList r)(tid := l'), squashIt := (squashIt r)(tid := ItAt tid (k' - 1))\<rparr>"
      define r3 where "r3 = (if seqNum (l ! (k' - 1)) \<le> q then ?fin r2 else r2)"
      have ds: "rob_doSquash exiting tid r = Inr (if upd then updateTail r3 else r3)"
      proof -
        have "rob_squash_loop ?n q p (mark_above (Suc p) l) False = (l', Some (k' - 1), upd)"
          unfolding run if_not_P [OF nf] by (simp only: k'(3) k'_def [symmetric] l'_def)
        then show ?thesis using False l y
          by (simp add: rob_doSquash_def at squash_budget_def [symmetric] r2_def r3_def Let_def)
      qed
      obtain t where t: "(if upd then updateTail r3 else r3) = r3\<lparr>rob_tail := t\<rparr>"
      proof (cases upd)
        case True
        with updateTail_frame [of r3] show thesis by (auto intro: that)
      next
        case False
        show thesis by (rule that [of "rob_tail r3"]) (simp add: False)
      qed
      have "squash_frame tid r (r3\<lparr>rob_tail := t\<rparr>)" by (simp add: squash_frame_def rest_of_def r3_def r2_def)
      moreover have "if Suc p - j \<le> ?n then doneSquashing r3 tid \<and> instList r3 tid = mark_above j l
        else \<not> doneSquashing r3 tid \<and> squashing q j tid l (Suc p - ?n) r3"
      proof (cases "Suc p - j \<le> ?n")
        case True
        then have "k' = j" using l(4) by (simp add: k'_def)
        then show ?thesis using True done_iff by (simp add: r3_def r2_def l'_def)
      next
        case c: False
        then have k'_eq: "k' = Suc p - ?n" by (simp add: k'_def min_def)
        have "r3 = r2" using c done_iff by (simp add: r3_def)
        then show ?thesis using c nd sp l(5) k' unfolding k'_eq [symmetric]
          by (simp add: r2_def squashing_def l'_def)
      qed
      then have "if Suc p - j \<le> ?n then doneSquashing (r3\<lparr>rob_tail := t\<rparr>) tid \<and> instList (r3\<lparr>rob_tail := t\<rparr>) tid = mark_above j l
        else \<not> doneSquashing (r3\<lparr>rob_tail := t\<rparr>) tid \<and> squashing q j tid l (Suc p - ?n) (r3\<lparr>rob_tail := t\<rparr>)"
        by (simp add: squashing_def split: if_splits)
      ultimately show ?thesis unfolding p ds t by (intro exI [of _ "r3\<lparr>rob_tail := t\<rparr>"] conjI refl)
    qed
  qed
qed

lemma continue_squash_run:
  assumes "squashing q j tid l k r" and "\<not> doneSquashing r tid" and "0 < squash_budget exiting r"
    and "k - j \<le> n * squash_budget exiting r" and "0 < n"
  shows "\<exists>r'. continue_squash n exiting tid r = Inr r' \<and> squash_frame tid r r'
    \<and> doneSquashing r' tid \<and> instList r' tid = mark_above j l"
  using assms
proof (induction n arbitrary: r k)
  case 0
  then show ?case by simp
next
  case (Suc n)
  let ?b = "squash_budget exiting r"
  obtain r1 where r1: "rob_doSquash exiting tid r = Inr r1" "squash_frame tid r r1"
    "if k - j \<le> ?b then doneSquashing r1 tid \<and> instList r1 tid = mark_above j l
     else \<not> doneSquashing r1 tid \<and> squashing q j tid l (k - ?b) r1"
    using rob_doSquash_run [OF Suc.prems(1-3)] by blast
  have b: "squash_budget exiting r1 = ?b"
  proof -
    have "squash_budget exiting (rest_of r r1) = squash_budget exiting r1" by (simp add: squash_budget_def rest_of_def)
    then show ?thesis using r1(2) by (simp add: squash_frame_def)
  qed
  show ?case
  proof (cases "k - j \<le> ?b")
    case True
    then have d: "doneSquashing r1 tid" "instList r1 tid = mark_above j l" using r1(3) by simp_all
    then have "continue_squash n exiting tid r1 = Inr r1" by (cases n) simp_all
    with r1 d Suc.prems(2) show ?thesis by auto
  next
    case False
    then have s: "\<not> doneSquashing r1 tid" "squashing q j tid l (k - ?b) r1" using r1(3) by simp_all
    have "0 < n" using False Suc.prems(4) by (cases n) simp_all
    moreover have "k - ?b - j \<le> n * squash_budget exiting r1" using Suc.prems(4) b by simp
    ultimately obtain r' where "continue_squash n exiting tid r1 = Inr r'" "squash_frame tid r1 r'"
      "doneSquashing r' tid" "instList r' tid = mark_above j l"
      using Suc.IH [OF s(2,1)] Suc.prems(3) b by auto
    then show ?thesis using r1(1,2) Suc.prems(2) squash_frame_trans by auto
  qed
qed

definition young :: "InstSeqNum \<Rightarrow> RobInst list \<Rightarrow> nat" where
  "young q l = length (filter (\<lambda>i. q < seqNum i) l)"

definition in_order :: "RobInst list \<Rightarrow> bool" where
  "in_order l \<longleftrightarrow> sorted_wrt (\<lambda>a b. seqNum a < seqNum b) l"

lemma in_order_split:
  assumes "in_order l"
  shows "split_at q (length l - young q l) l"
    and "mark_above (length l - young q l) l = map (\<lambda>i. if q < seqNum i then mark_squashed i else i) l"
proof -
  have "split_at q (length l - young q l) l
    \<and> mark_above (length l - young q l) l = map (\<lambda>i. if q < seqNum i then mark_squashed i else i) l"
    using assms
  proof (induction l)
    case Nil
    then show ?case by (simp add: split_at_def mark_above_def)
  next
    case (Cons a l)
    have y: "young q l \<le> length l" by (simp add: young_def)
    have IH: "split_at q (length l - young q l) l"
      "mark_above (length l - young q l) l = map (\<lambda>i. if q < seqNum i then mark_squashed i else i) l"
      using Cons by (simp_all add: in_order_def)
    show ?case
    proof (cases "q < seqNum a")
      case True
      then have all: "q < seqNum i" if "i \<in> set l" for i
        using Cons.prems that by (auto simp: in_order_def)
      then have "young q l = length l" by (simp add: young_def)
      then show ?thesis using True all
        by (auto simp: split_at_def mark_above_def young_def nth_Cons' )
    next
      case False
      then have "length (a # l) - young q (a # l) = Suc (length l - young q l)"
        using y by (simp add: young_def Suc_diff_le)
      moreover have "q < seqNum ((a # l) ! i) \<longleftrightarrow> Suc (length l - young q l) \<le> i" if "i < length (a # l)" for i
        using that False IH(1) by (cases i) (simp_all add: split_at_def)
      ultimately show ?thesis using False IH(2) y by (simp add: split_at_def mark_above_def)
    qed
  qed
  then show "split_at q (length l - young q l) l"
    and "mark_above (length l - young q l) l = map (\<lambda>i. if q < seqNum i then mark_squashed i else i) l"
    by simp_all
qed

text \<open>
  C7. A squash of the reorder buffer ends and is exact. Take a thread whose list is in program
  order and not empty, and a squash width \<open>w > 0\<close> (the buffer size, when the thread is exiting).
  If at most \<open>(k + 1) * w\<close> instructions are younger than the squash number, then the call of
  \<open>squash\<close> and \<open>k\<close> further cycles of \<open>doSquash\<close> never abort and end with the thread done: exactly
  the younger instructions are marked squashed and ready to commit, in place, and nothing
  else changes but the iterators, the status and the squash number of that thread.
\<close>

theorem rob_squash_exact:
  assumes "in_order (instList r tid)" and "instList r tid \<noteq> []" and "threadEntries r tid \<noteq> 0"
    and "0 < squash_budget exiting r" and "young q (instList r tid) \<le> (k + 1) * squash_budget exiting r"
  shows "\<exists>r'. bindE (rob_squash exiting q tid r) (continue_squash k exiting tid) = Inr r'
    \<and> doneSquashing r' tid \<and> robStatus r' tid = ROBSquashing \<and> squashedSeqNum r' tid = q
    \<and> instList r' = (instList r)(tid := map (\<lambda>i. if q < seqNum i then mark_squashed i else i) (instList r tid))
    \<and> threadEntries r' = threadEntries r \<and> numInstsInROB r' = numInstsInROB r \<and> rob_head r' = rob_head r"
proof -
  let ?l = "instList r tid"
  let ?j = "length ?l - young q ?l"
  define r0 where "r0 = r\<lparr>robStatus := (robStatus r)(tid := ROBSquashing), doneSquashing := (doneSquashing r)(tid := False),
    squashedSeqNum := (squashedSeqNum r)(tid := q), squashIt := (squashIt r)(tid := last_it tid r)\<rparr>"
  have m: "mark_above (length ?l) ?l = ?l" by (simp add: mark_above_def)
  have sq: "squashing q ?j tid ?l (length ?l) r0"
    using in_order_split(1) [OF assms(1), of q] assms(2)
    by (auto simp: squashing_def r0_def last_it_def m Suc_le_eq)
  have b: "squash_budget exiting r0 = squash_budget exiting r" by (simp add: squash_budget_def r0_def)
  have "length ?l - ?j \<le> Suc k * squash_budget exiting r0"
    using assms(5) by (simp add: b young_def)
  moreover have "\<not> doneSquashing r0 tid" by (simp add: r0_def)
  ultimately obtain r' where
    r': "continue_squash (Suc k) exiting tid r0 = Inr r'" "squash_frame tid r0 r'" "doneSquashing r' tid"
    "instList r' tid = mark_above ?j ?l"
    using continue_squash_run [OF sq, of exiting "Suc k"] assms(4) b by auto
  have "bindE (rob_squash exiting q tid r) (continue_squash k exiting tid) = Inr r'"
    using r'(1) assms(2,3) by (simp add: rob_squash_def rob_isEmpty_thread_def r0_def Let_def)
  moreover have "rest_of r0 r' = r0" using r'(2) by (simp add: squash_frame_def)
  from arg_cong [OF this, of robStatus] arg_cong [OF this, of squashedSeqNum] arg_cong [OF this, of threadEntries]
    arg_cong [OF this, of numInstsInROB] arg_cong [OF this, of rob_head]
  have "robStatus r' = robStatus r0" "squashedSeqNum r' = squashedSeqNum r0" "threadEntries r' = threadEntries r0"
    "numInstsInROB r' = numInstsInROB r0" "rob_head r' = rob_head r0" by (simp_all add: rest_of_def)
  moreover have "instList r' = (instList r0)(tid := instList r' tid)"
    using r'(2) by (auto simp: squash_frame_def)
  ultimately show ?thesis
    using r'(3,4) in_order_split(2) [OF assms(1), of q] by (intro exI [of _ r']) (simp add: r0_def)
qed

end
