(* ===== verification/ReorderBufferInv.thy ===== *)
theory ReorderBufferInv
  imports ReorderBuffer
begin

text \<open>
  The invariant of the reorder buffer over every run of its operations: the counters are exact,
  the lists are in program order, a squash in progress has a valid iterator, and the head
  iterator points to the oldest instruction of all threads.
\<close>

text \<open>
  The steps: instructions enter in the order of their global sequence numbers, from active
  threads; an instruction completes (\<open>Commit::markCompletedInsts\<close>); the head of a thread that is not
  squashing retires; a thread starts a squash; a thread that is not done continues it.
\<close>

definition complete_inst :: "ThreadID \<Rightarrow> nat \<Rightarrow> ROB \<Rightarrow> ROB" where
  "complete_inst tid p r =
    r\<lparr>instList := (instList r)(tid := (instList r tid)[p := (instList r tid ! p)\<lparr>canCommit := True\<rparr>])\<rparr>"

inductive rob_step :: "ROB \<Rightarrow> ROB \<Rightarrow> bool" where
  insert: "insertInst i r = Inr r' \<Longrightarrow> threadNumber i \<in> set (activeThreads r)
    \<Longrightarrow> (\<And>t j. j \<in> set (instList r t) \<Longrightarrow> seqNum j < seqNum i) \<Longrightarrow> rob_step r r'"
| complete: "p < length (instList r tid) \<Longrightarrow> rob_step r (complete_inst tid p r)"
| retire: "retireHead tid r = Inr (i, r') \<Longrightarrow> doneSquashing r tid \<Longrightarrow> rob_step r r'"
| start: "rob_squash exiting q tid r = Inr r' \<Longrightarrow> rob_step r r'"
| continue: "rob_doSquash exiting tid r = Inr r' \<Longrightarrow> \<not> doneSquashing r tid \<Longrightarrow> rob_step r r'"

definition total_insts :: "ROB \<Rightarrow> nat" where
  "total_insts r = (\<Sum>t<MaxThreads. length (instList r t))"

definition head_ok :: "ROB \<Rightarrow> bool" where
  "head_ok r \<longleftrightarrow> numInstsInROB r = 0 \<or> (\<exists>t. rob_head r = ItAt t 0 \<and> instList r t \<noteq> []
    \<and> (\<forall>u. \<forall>i \<in> set (instList r u). seqNum (hd (instList r t)) \<le> seqNum i))"

definition squash_ok :: "ROB \<Rightarrow> bool" where
  "squash_ok r \<longleftrightarrow> (\<forall>t. doneSquashing r t \<or> (\<exists>p < length (instList r t). squashIt r t = ItAt t p))"

definition counts_ok :: "ROB \<Rightarrow> bool" where
  "counts_ok r \<longleftrightarrow> (\<forall>t. unat (threadEntries r t) = length (instList r t)) \<and> (\<forall>t\<ge>MaxThreads. instList r t = [])
    \<and> numInstsInROB r = int (total_insts r) \<and> total_insts r \<le> unat (numEntries r)"

definition lists_ok :: "ROB \<Rightarrow> bool" where
  "lists_ok r \<longleftrightarrow> (\<forall>t. in_order (instList r t) \<and> list_all (\<lambda>i. threadNumber i = t \<and> inROB i) (instList r t)
    \<and> (instList r t \<noteq> [] \<longrightarrow> t \<in> set (activeThreads r)))"

definition rob_inv :: "ROB \<Rightarrow> bool" where
  "rob_inv r \<longleftrightarrow> counts_ok r \<and> lists_ok r \<and> squash_ok r \<and> head_ok r"

lemma total_upd:
  assumes "tid < MaxThreads"
  shows "(\<Sum>t<MaxThreads. length ((f(tid := l)) t)) + length (f tid) = (\<Sum>t<MaxThreads. length (f t)) + length l"
proof -
  have "(\<Sum>t\<in>{..<MaxThreads} - {tid}. length ((f(tid := l)) t)) = (\<Sum>t\<in>{..<MaxThreads} - {tid}. length (f t))"
    by (intro sum.cong) auto
  with assms show ?thesis by (simp add: sum.remove [of "{..<MaxThreads}" tid])
qed

lemma length_le_total: "tid < MaxThreads \<Longrightarrow> length (instList r tid) \<le> total_insts r"
  by (simp add: total_insts_def sum.remove [of "{..<MaxThreads}" tid])

text \<open>The counters as numbers.\<close>

lemma numInsts_word:
  assumes "counts_ok r"
  shows "unat (word_of_int (numInstsInROB r) :: unsigned) = total_insts r"
proof -
  have "total_insts r < 2 ^ 32" using assms unsigned_less [where 'a = nat, of "numEntries r"] by (auto simp: counts_ok_def)
  then show ?thesis using assms unat_of_nat_small [of "total_insts r", where 'a = 32] by (simp add: counts_ok_def)
qed

lemma rob_isFull_iff: "counts_ok r \<Longrightarrow> rob_isFull r \<longleftrightarrow> total_insts r = unat (numEntries r)"
  using numInsts_word [of r] unfolding rob_isFull_def word_eq_iff_unsigned [where 'a = nat] by simp

subsection \<open>Operations that only relabel\<close>

definition ident :: "RobInst \<Rightarrow> InstSeqNum \<times> ThreadID \<times> bool" where
  "ident i = (seqNum i, threadNumber i, inROB i)"

lemma ident_mark [simp]: "ident (mark_squashed i) = ident i"
  by (simp add: ident_def mark_squashed_def)

lemma ident_length: "map ident l' = map ident l \<Longrightarrow> length l' = length l"
  by (metis length_map)

lemma ident_in_order:
  assumes "map ident l' = map ident l"
  shows "in_order l' \<longleftrightarrow> in_order l"
proof -
  have e: "in_order l \<longleftrightarrow> sorted_wrt (<) (map fst (map ident l))" for l
    by (simp add: in_order_def sorted_wrt_map ident_def)
  show ?thesis unfolding e assms ..
qed

lemma ident_list_all:
  assumes "map ident l' = map ident l"
  shows "list_all (\<lambda>i. threadNumber i = t \<and> inROB i) l' \<longleftrightarrow> list_all (\<lambda>i. threadNumber i = t \<and> inROB i) l"
proof -
  have e: "list_all (\<lambda>i. threadNumber i = t \<and> inROB i) l \<longleftrightarrow> list_all (\<lambda>(_, u, b). u = t \<and> b) (map ident l)" for l
    by (simp add: list_all_iff ident_def)
  show ?thesis unfolding e assms ..
qed

lemma ident_seqNums: "map ident l' = map ident l \<Longrightarrow> map seqNum l' = map seqNum l"
proof -
  assume "map ident l' = map ident l"
  then have "map fst (map ident l') = map fst (map ident l)" by simp
  then show ?thesis by (simp add: comp_def ident_def)
qed

lemma ident_hd: "map ident l' = map ident l \<Longrightarrow> l \<noteq> [] \<Longrightarrow> seqNum (hd l') = seqNum (hd l)"
  using ident_seqNums [of l' l] by (cases l; cases l') auto

lemma head_ok_relabel:
  assumes "head_ok r" and lists: "\<And>t. map ident (instList r' t) = map ident (instList r t)"
    and "numInstsInROB r' = numInstsInROB r" and "rob_head r' = rob_head r"
  shows "head_ok r'"
proof (cases "numInstsInROB r = 0")
  case False
  then obtain t where t: "rob_head r = ItAt t 0" "instList r t \<noteq> []"
    "\<And>u i. i \<in> set (instList r u) \<Longrightarrow> seqNum (hd (instList r t)) \<le> seqNum i"
    using assms(1) by (auto simp: head_ok_def)
  have "instList r' t \<noteq> []" using t(2) lists [of t] by auto
  moreover have "seqNum (hd (instList r' t)) \<le> seqNum i" if i: "i \<in> set (instList r' u)" for u i
  proof -
    have "seqNum i \<in> set (map seqNum (instList r' u))" using i by auto
    then have "seqNum i \<in> set (map seqNum (instList r u))" unfolding ident_seqNums [OF lists] .
    then show ?thesis using t(3) ident_hd [OF lists t(2)] by auto
  qed
  ultimately show ?thesis using t(1) assms(4) by (auto simp: head_ok_def)
qed (simp add: head_ok_def assms(3))

lemma rob_inv_relabel:
  assumes inv: "rob_inv r" and lists: "\<And>t. map ident (instList r' t) = map ident (instList r t)"
    and same: "threadEntries r' = threadEntries r" "numInstsInROB r' = numInstsInROB r"
      "numEntries r' = numEntries r" "activeThreads r' = activeThreads r" "rob_head r' = rob_head r"
    and sq: "squash_ok r'"
  shows "rob_inv r'"
proof -
  have len: "length (instList r' t) = length (instList r t)" for t by (rule ident_length [OF lists])
  have nil: "instList r' t = [] \<longleftrightarrow> instList r t = []" for t using len [of t] by auto
  have "counts_ok r'" using inv by (simp add: rob_inv_def counts_ok_def total_insts_def len nil same)
  moreover have "lists_ok r'"
    using inv by (simp add: rob_inv_def lists_ok_def nil same(4) ident_in_order [OF lists] ident_list_all [OF lists])
  moreover have "head_ok r'" by (rule head_ok_relabel [OF _ lists same(2,5)]) (use inv in \<open>simp add: rob_inv_def\<close>)
  ultimately show ?thesis using sq by (simp add: rob_inv_def)
qed

lemma squash_loop_relabel:
  assumes "rob_squash_loop n q p l upd = (l', pos, upd')" and "p < length l"
  shows "map ident l' = map ident l \<and> (case pos of None \<Rightarrow> True | Some p' \<Rightarrow> p' < length l')"
  using assms
proof (induction n q p l upd rule: rob_squash_loop.induct)
  case (2 n q p l upd)
  have e: "map ident (l[p := mark_squashed (l ! p)]) = map ident l"
    using 2(3) by (simp add: map_update list_update_same_conv)
  show ?case
  proof (cases "q < seqNum (l ! p) \<and> p \<noteq> 0")
    case True
    then show ?thesis using 2 e by (auto simp: Let_def split: option.splits)
  next
    case False
    then show ?thesis using 2(2,3) e by (auto simp: Let_def split: if_splits option.splits)
  qed
qed auto

lemma rob_doSquash_cases:
  assumes "rob_doSquash exiting tid r = Inr r'"
  shows "\<exists>l' it d t. r' = r\<lparr>instList := (instList r)(tid := l'), squashIt := (squashIt r)(tid := it),
      doneSquashing := (doneSquashing r)(tid := d), rob_tail := t\<rparr>
    \<and> map ident l' = map ident (instList r tid)
    \<and> (d \<or> (d = doneSquashing r tid \<and> (\<exists>p < length l'. it = ItAt tid p)))"
proof -
  obtain p where p: "squashIt r tid = ItAt tid p" "p < length (instList r tid)"
    using assms by (auto simp: rob_doSquash_def Let_def checked_def split: InstIt.splits if_splits)
  define n where "n = (if exiting then unat (numEntries r) else unat (squashWidth r))"
  obtain l' pos upd where run: "rob_squash_loop n (squashedSeqNum r tid) p (instList r tid) False = (l', pos, upd)"
    by (cases "rob_squash_loop n (squashedSeqNum r tid) p (instList r tid) False") auto
  note rel = squash_loop_relabel [OF run p(2)]
  show ?thesis
  proof (cases "seqNum (instList r tid ! p) < squashedSeqNum r tid")
    case True
    then have "r' = r\<lparr>instList := (instList r)(tid := instList r tid), squashIt := (squashIt r)(tid := ItEnd tid),
        doneSquashing := (doneSquashing r)(tid := True), rob_tail := rob_tail r\<rparr>"
      using assms p by (auto simp: rob_doSquash_def)
    then show ?thesis by blast
  next
    case False
    show ?thesis
    proof (cases pos)
      case None
      then have "r' = r\<lparr>instList := (instList r)(tid := l'), squashIt := (squashIt r)(tid := ItEnd tid),
          doneSquashing := (doneSquashing r)(tid := True), rob_tail := rob_tail r\<rparr>"
        using assms p run False by (auto simp: rob_doSquash_def n_def Let_def)
      then show ?thesis using rel by blast
    next
      case (Some p')
      define fin where "fin \<longleftrightarrow> seqNum (l' ! p') \<le> squashedSeqNum r tid"
      define r3 where "r3 = r\<lparr>instList := (instList r)(tid := l'),
          squashIt := (squashIt r)(tid := if fin then ItEnd tid else ItAt tid p'),
          doneSquashing := (doneSquashing r)(tid := fin \<or> doneSquashing r tid)\<rparr>"
      have "r' = (if upd then updateTail r3 else r3)"
        using assms p run False Some by (auto simp: rob_doSquash_def n_def Let_def fin_def r3_def)
      then have "r' = r3\<lparr>rob_tail := rob_tail r'\<rparr>" using updateTail_frame [of r3] by (cases upd) auto
      then show ?thesis using rel Some
        by (intro exI [of _ l'] exI [of _ "if fin then ItEnd tid else ItAt tid p'"]
            exI [of _ "fin \<or> doneSquashing r tid"] exI [of _ "rob_tail r'"] conjI) (auto simp: r3_def)
    qed
  qed
qed

lemma rob_doSquash_inv:
  assumes inv: "rob_inv r" and run: "rob_doSquash exiting tid r = Inr r'"
  shows "rob_inv r'"
proof -
  obtain l' it d t where r': "r' = r\<lparr>instList := (instList r)(tid := l'), squashIt := (squashIt r)(tid := it),
      doneSquashing := (doneSquashing r)(tid := d), rob_tail := t\<rparr>"
    and l': "map ident l' = map ident (instList r tid)"
    and d: "d \<or> (d = doneSquashing r tid \<and> (\<exists>p < length l'. it = ItAt tid p))"
    using rob_doSquash_cases [OF run] by blast
  show ?thesis
  proof (rule rob_inv_relabel [OF inv])
    show "map ident (instList r' u) = map ident (instList r u)" for u using l' by (simp add: r')
    show "squash_ok r'" using inv d by (auto simp: rob_inv_def squash_ok_def r')
  qed (simp_all add: r')
qed

lemma rob_doSquash_ok:
  assumes "rob_inv r" and "\<not> doneSquashing r tid"
  shows "\<exists>r'. rob_doSquash exiting tid r = Inr r'"
proof -
  obtain p where "squashIt r tid = ItAt tid p" "p < length (instList r tid)"
    using assms by (auto simp: rob_inv_def squash_ok_def)
  then show ?thesis by (auto simp: rob_doSquash_def Let_def split: prod.splits option.splits)
qed

lemma squash_start_inv:
  assumes inv: "rob_inv r" and ne: "instList r tid \<noteq> []"
  shows "rob_inv (r\<lparr>robStatus := (robStatus r)(tid := ROBSquashing), doneSquashing := (doneSquashing r)(tid := False),
    squashedSeqNum := (squashedSeqNum r)(tid := q), squashIt := (squashIt r)(tid := last_it tid r)\<rparr>)"
  by (rule rob_inv_relabel [OF inv])
    (use inv ne in \<open>auto simp: rob_inv_def squash_ok_def last_it_def\<close>)

lemma thread_empty_iff: "counts_ok r \<Longrightarrow> threadEntries r tid = 0 \<longleftrightarrow> instList r tid = []"
proof -
  assume c: "counts_ok r"
  have "threadEntries r tid = 0 \<longleftrightarrow> unat (threadEntries r tid) = 0" by (simp add: unat_eq_0)
  also have "\<dots> \<longleftrightarrow> instList r tid = []" using c by (simp add: counts_ok_def)
  finally show ?thesis .
qed

lemma rob_squash_inv:
  assumes inv: "rob_inv r" and run: "rob_squash exiting q tid r = Inr r'"
  shows "rob_inv r'"
proof (cases "instList r tid = []")
  case True
  then have "threadEntries r tid = 0" using thread_empty_iff inv by (simp add: rob_inv_def)
  then show ?thesis using run inv by (simp add: rob_squash_def rob_isEmpty_thread_def)
next
  case False
  then have "threadEntries r tid \<noteq> 0" using thread_empty_iff inv by (simp add: rob_inv_def)
  then show ?thesis using run False rob_doSquash_inv [OF squash_start_inv [OF inv False]]
    by (simp add: rob_squash_def rob_isEmpty_thread_def Let_def)
qed

lemma complete_inst_inv:
  assumes inv: "rob_inv r" and p: "p < length (instList r tid)"
  shows "rob_inv (complete_inst tid p r)"
proof (rule rob_inv_relabel [OF inv])
  have "ident (i\<lparr>canCommit := True\<rparr>) = ident i" for i by (simp add: ident_def)
  then show "map ident (instList (complete_inst tid p r) t) = map ident (instList r t)" for t
    using p by (simp add: complete_inst_def map_update list_update_same_conv)
  show "squash_ok (complete_inst tid p r)" using inv by (auto simp: rob_inv_def squash_ok_def complete_inst_def)
qed (simp_all add: complete_inst_def)

subsection \<open>The oldest instruction\<close>

definition oldest_head :: "ROB \<Rightarrow> ThreadID list \<Rightarrow> InstIt \<times> InstSeqNum \<times> bool \<Rightarrow> bool" where
  "oldest_head r ts = (\<lambda>(h, low, fv).
    if fv then \<forall>t \<in> set ts. instList r t = []
    else \<exists>t \<in> set ts. h = ItAt t 0 \<and> instList r t \<noteq> [] \<and> low = seqNum (hd (instList r t))
      \<and> (\<forall>u \<in> set ts. instList r u \<noteq> [] \<longrightarrow> low \<le> seqNum (hd (instList r u))))"

lemma head_step_oldest:
  assumes "oldest_head r ts s"
  shows "oldest_head r (ts @ [tid]) (head_step r tid s)"
proof -
  obtain h low fv where s: "s = (h, low, fv)" by (cases s) auto
  show ?thesis
  proof (cases "instList r tid = []")
    case True
    then show ?thesis using assms by (auto simp: s oldest_head_def head_step_def split: if_splits)
  next
    case ne: False
    show ?thesis
    proof (cases "fv \<or> seqNum (hd (instList r tid)) < low")
      case True
      then have "head_step r tid s = (ItAt tid 0, seqNum (hd (instList r tid)), False)"
        using ne by (auto simp: s head_step_def Let_def)
      then show ?thesis using assms ne True
        by (auto simp: s oldest_head_def split: if_splits)
    next
      case False
      then have "head_step r tid s = (h, low, False)" using ne by (auto simp: s head_step_def Let_def)
      then show ?thesis using assms ne False by (auto simp: s oldest_head_def)
    qed
  qed
qed

lemma fold_head_oldest: "oldest_head r ts (fold (head_step r) ts (h, 0, True))"
  by (induction ts rule: rev_induct) (simp_all add: head_step_oldest, simp add: oldest_head_def)

lemma in_order_hd: "in_order l \<Longrightarrow> i \<in> set l \<Longrightarrow> seqNum (hd l) \<le> seqNum i"
  by (cases l) (auto simp: in_order_def)

lemma updateHead_ok:
  assumes "lists_ok r" and "numInstsInROB r \<noteq> 0 \<Longrightarrow> \<exists>t. instList r t \<noteq> []"
  shows "head_ok (updateHead r)"
proof (cases "numInstsInROB r = 0")
  case True
  then show ?thesis by (simp add: head_ok_def updateHead_def split: prod.split)
next
  case False
  obtain h low fv where f: "fold (head_step r) (activeThreads r) (rob_head r, 0, True) = (h, low, fv)"
    by (cases "fold (head_step r) (activeThreads r) (rob_head r, 0, True)") auto
  have o: "oldest_head r (activeThreads r) (h, low, fv)" using fold_head_oldest [of r "activeThreads r" "rob_head r"] by (simp add: f)
  obtain t0 where "instList r t0 \<noteq> []" "t0 \<in> set (activeThreads r)"
    using assms False by (auto simp: lists_ok_def)
  then have fv: "\<not> fv" using o by (auto simp: oldest_head_def)
  then obtain t where t: "h = ItAt t 0" "instList r t \<noteq> []"
    "\<And>u. u \<in> set (activeThreads r) \<Longrightarrow> instList r u \<noteq> [] \<Longrightarrow> seqNum (hd (instList r t)) \<le> seqNum (hd (instList r u))"
    using o by (auto simp: oldest_head_def)
  have "seqNum (hd (instList r t)) \<le> seqNum i" if i: "i \<in> set (instList r u)" for u i
  proof -
    have ne: "instList r u \<noteq> []" using i by auto
    then have u: "u \<in> set (activeThreads r)" "in_order (instList r u)" using assms(1) by (auto simp: lists_ok_def)
    show ?thesis using order_trans [OF t(3) [OF u(1) ne] in_order_hd [OF u(2) i]] .
  qed
  then show ?thesis using t fv by (auto simp: head_ok_def updateHead_def f)
qed

lemma updateHead_same:
  "instList (updateHead r) = instList r" "threadEntries (updateHead r) = threadEntries r"
  "numInstsInROB (updateHead r) = numInstsInROB r" "numEntries (updateHead r) = numEntries r"
  "activeThreads (updateHead r) = activeThreads r" "squashIt (updateHead r) = squashIt r"
  "doneSquashing (updateHead r) = doneSquashing r"
  by (simp_all add: updateHead_def split: prod.split)

lemma updateHead_inv:
  assumes "counts_ok r" and "lists_ok r" and "squash_ok r"
  shows "rob_inv (updateHead r)"
proof -
  have "\<exists>t. instList r t \<noteq> []" if "numInstsInROB r \<noteq> 0"
  proof (rule ccontr)
    assume "\<nexists>t. instList r t \<noteq> []"
    then have "total_insts r = 0" by (simp add: total_insts_def)
    with assms(1) that show False by (simp add: counts_ok_def)
  qed
  from updateHead_ok [OF assms(2) this] assms show ?thesis
    by (simp add: rob_inv_def counts_ok_def lists_ok_def squash_ok_def total_insts_def updateHead_same)
qed

subsection \<open>Insertion and retirement\<close>

lemma insertInst_ok_iff:
  assumes "counts_ok r" and "threadNumber i < MaxThreads"
  shows "(\<exists>r'. insertInst i r = Inr r') \<longleftrightarrow> total_insts r \<noteq> unat (numEntries r)"
proof -
  have "numInstsInROB r = 0 \<longrightarrow> instList r (threadNumber i) = []"
    using length_le_total [OF assms(2), of r] assms(1) by (auto simp: counts_ok_def)
  then show ?thesis using assms by (simp add: insertInst_def rob_isFull_iff Let_def result_simps)
qed

lemma unat_plus_1: "unat (x :: unsigned) < 2 ^ 32 - 1 \<Longrightarrow> unat (x + 1) = Suc (unat x)"
  by (subst unat_add_eq) (simp_all, linarith+)

lemma insertInst_counts:
  assumes c: "counts_ok r" and run: "insertInst i r = Inr r'"
  shows "counts_ok r'"
proof -
  let ?t = "threadNumber i"
  have t: "?t < MaxThreads" and r': "instList r' = (instList r)(?t := instList r ?t @ [i\<lparr>inROB := True\<rparr>])"
    "numInstsInROB r' = numInstsInROB r + 1" "threadEntries r' = (threadEntries r)(?t := threadEntries r ?t + 1)"
    "numEntries r' = numEntries r"
    using run by (auto simp: insertInst_def result_simps Let_def)
  have "total_insts r \<noteq> unat (numEntries r)" using insertInst_ok_iff [OF c t] run by blast
  then have less: "total_insts r < unat (numEntries r)" using c by (simp add: counts_ok_def)
  have total: "total_insts r' = Suc (total_insts r)"
    using total_upd [OF t, of "instList r" "instList r ?t @ [i\<lparr>inROB := True\<rparr>]"]
    unfolding total_insts_def r'(1) by simp
  have "unat (numEntries r) < 2 ^ 32" using unsigned_less [where 'a = nat, of "numEntries r"] by simp
  then have "unat (threadEntries r ?t) < 2 ^ 32 - 1"
    using less length_le_total [OF t, of r] c by (simp add: counts_ok_def)
  then have "unat (threadEntries r ?t + 1) = Suc (unat (threadEntries r ?t))" by (rule unat_plus_1)
  then show ?thesis using c less total t by (simp add: counts_ok_def r')
qed

lemma in_order_snoc:
  "in_order l \<Longrightarrow> (\<And>j. j \<in> set l \<Longrightarrow> seqNum j < seqNum i) \<Longrightarrow> in_order (l @ [i])"
  by (auto simp: in_order_def sorted_wrt_append)

lemma insertInst_inv:
  assumes inv: "rob_inv r" and run: "insertInst i r = Inr r'" and a: "threadNumber i \<in> set (activeThreads r)"
    and y: "\<And>t j. j \<in> set (instList r t) \<Longrightarrow> seqNum j < seqNum i"
  shows "rob_inv r'"
proof -
  let ?t = "threadNumber i"
  let ?i = "i\<lparr>inROB := True\<rparr>"
  have r': "r' = r\<lparr>instList := (instList r)(?t := instList r ?t @ [?i]),
      rob_head := (if numInstsInROB r = 0 then ItAt ?t 0 else rob_head r),
      rob_tail := ItAt ?t (length (instList r ?t)), numInstsInROB := numInstsInROB r + 1,
      threadEntries := (threadEntries r)(?t := threadEntries r ?t + 1)\<rparr>"
    using run by (auto simp: insertInst_def result_simps Let_def)
  have c: "counts_ok r" using inv by (simp add: rob_inv_def)
  have "lists_ok r'" using inv a y in_order_snoc [of "instList r ?t" ?i] by (auto simp: rob_inv_def lists_ok_def r')
  moreover have "squash_ok r'" using inv by (fastforce simp: rob_inv_def squash_ok_def r')
  moreover have "head_ok r'"
  proof (cases "numInstsInROB r = 0")
    case True
    then have "instList r t = []" for t
      using length_le_total [of t r] c by (cases "t < MaxThreads") (auto simp: counts_ok_def)
    then show ?thesis using True by (auto simp: head_ok_def r')
  next
    case False
    then obtain t where t: "rob_head r = ItAt t 0" "instList r t \<noteq> []"
      "\<And>u j. j \<in> set (instList r u) \<Longrightarrow> seqNum (hd (instList r t)) \<le> seqNum j"
      using inv by (auto simp: rob_inv_def head_ok_def)
    have "seqNum (hd (instList r t)) \<le> seqNum i" using y [of "hd (instList r t)" t] t(2) by (simp add: less_imp_le)
    then show ?thesis using t False by (auto simp: head_ok_def r' intro!: exI [of _ t])
  qed
  ultimately show ?thesis using insertInst_counts [OF c run] by (simp add: rob_inv_def)
qed

lemma retireHead_ok_iff:
  assumes "counts_ok r"
  shows "(\<exists>x. retireHead tid r = Inr x) \<longleftrightarrow> instList r tid \<noteq> [] \<and> canCommit (hd (instList r tid))"
proof -
  have "tid < MaxThreads \<and> 0 < numInstsInROB r" if "instList r tid \<noteq> []"
  proof -
    have t: "tid < MaxThreads" using assms that by (auto simp: counts_ok_def not_le [symmetric])
    have "0 < length (instList r tid)" using that by simp
    then have "0 < total_insts r" using length_le_total [OF t, of r] by linarith
    then show ?thesis using t assms by (simp add: counts_ok_def)
  qed
  then show ?thesis by (auto simp: retireHead_def result_simps Let_def)
qed

lemma retireHead_inv:
  assumes inv: "rob_inv r" and run: "retireHead tid r = Inr (i, r')" and d: "doneSquashing r tid"
  shows "rob_inv r'"
proof -
  define r1 where "r1 = r\<lparr>instList := (instList r)(tid := tl (instList r tid)),
     numInstsInROB := numInstsInROB r - 1, threadEntries := (threadEntries r)(tid := threadEntries r tid - 1),
     rob_head := shift_it tid (rob_head r), rob_tail := shift_it tid (rob_tail r),
     squashIt := (\<lambda>t. shift_it tid (squashIt r t))\<rparr>"
  have r': "r' = updateHead r1" and ne: "instList r tid \<noteq> []" and t: "tid < MaxThreads"
    using run by (auto simp: retireHead_def result_simps Let_def r1_def)
  obtain x xs where l: "instList r tid = x # xs" using ne by (cases "instList r tid") auto
  have c: "counts_ok r" using inv by (simp add: rob_inv_def)
  have total: "total_insts r = Suc (total_insts r1)"
    using total_upd [OF t, of "instList r" xs] unfolding total_insts_def by (simp add: r1_def l)
  have "unat (threadEntries r tid) = Suc (length xs)" using c by (simp add: counts_ok_def l)
  then have "unat (threadEntries r tid - 1) = length xs" by (subst unat_sub) (simp_all add: word_le_nat_alt)
  then have "counts_ok r1" using c total by (auto simp: counts_ok_def r1_def l)
  moreover have "lists_ok r1"
    unfolding lists_ok_def
  proof
    fix t
    have "in_order (instList r t) \<and> list_all (\<lambda>i. threadNumber i = t \<and> inROB i) (instList r t)
      \<and> (instList r t \<noteq> [] \<longrightarrow> t \<in> set (activeThreads r))"
      using inv by (simp add: rob_inv_def lists_ok_def)
    then show "in_order (instList r1 t) \<and> list_all (\<lambda>i. threadNumber i = t \<and> inROB i) (instList r1 t)
      \<and> (instList r1 t \<noteq> [] \<longrightarrow> t \<in> set (activeThreads r1))"
      by (cases "t = tid") (simp_all add: r1_def l in_order_def)
  qed
  moreover have "squash_ok r1"
    unfolding squash_ok_def
  proof
    fix t
    have "doneSquashing r t \<or> (\<exists>p < length (instList r t). squashIt r t = ItAt t p)"
      using inv by (simp add: rob_inv_def squash_ok_def)
    then show "doneSquashing r1 t \<or> (\<exists>p < length (instList r1 t). squashIt r1 t = ItAt t p)"
      using d by (cases "t = tid") (auto simp: r1_def shift_it_def)
  qed
  ultimately show ?thesis unfolding r' by (rule updateHead_inv)
qed

subsection \<open>Every run\<close>

lemma rob_step_inv: "rob_step r r' \<Longrightarrow> rob_inv r \<Longrightarrow> rob_inv r'"
  by (induction rule: rob_step.induct)
    (auto intro: insertInst_inv complete_inst_inv retireHead_inv rob_squash_inv rob_doSquash_inv)

lemma ROB_new_inv: "ROB_new st policy entries width threshold threads active = Inr r \<Longrightarrow> rob_inv r"
  by (auto simp: ROB_new_def result_simps rob_resetState_def rob_inv_def counts_ok_def lists_ok_def squash_ok_def
      head_ok_def total_insts_def in_order_def)

lemma rob_run_inv:
  assumes "ROB_new st policy entries width threshold threads active = Inr r0" and "rtranclp rob_step r0 r"
  shows "rob_inv r"
  using assms(2) ROB_new_inv [OF assms(1)] by (induction rule: rtranclp_induct) (auto intro: rob_step_inv)


text \<open>
  The head iterator of the reorder buffer is the oldest instruction. In every state reached
  from the constructor by inserting instructions in the order of their global sequence
  numbers, completing, retiring and squashing them, a buffer that is not empty has its head
  iterator at the front of a non-empty list, and no instruction of any thread is older than
  the one there; each thread's list is in program order.
\<close>

theorem rob_head_oldest:
  assumes "ROB_new st policy entries width threshold threads active = Inr r0" and "rtranclp rob_step r0 r"
  shows "(\<forall>t. in_order (instList r t))
    \<and> (\<not> rob_isEmpty r \<longrightarrow> (\<exists>t. rob_head r = ItAt t 0 \<and> instList r t \<noteq> []
        \<and> (\<forall>u. \<forall>i \<in> set (instList r u). seqNum (hd (instList r t)) \<le> seqNum i)))"
  using rob_run_inv [OF assms] by (auto simp: rob_inv_def lists_ok_def head_ok_def rob_isEmpty_def)

subsection \<open>A concrete run\<close>

definition demo_rob :: ROB where
  "demo_rob = rob_resetState \<lparr>robStatus = (\<lambda>_. RobIdle), robPolicy = Dynamic, activeThreads = [0], numEntries = 4,
     threadEntries = (\<lambda>_. 0), maxEntries = (\<lambda>tid. if tid < 1 then 4 else 0), instList = (\<lambda>_. []), squashWidth = 1,
     rob_tail = ItEnd 0, rob_head = ItEnd 0, squashIt = ItEnd, numInstsInROB = 0, squashedSeqNum = (\<lambda>_. 0),
     doneSquashing = (\<lambda>_. True), rob_numThreads = 1\<rparr>"

lemma demo_rob_new: "ROB_new (\<lambda>_. RobIdle) Dynamic 4 1 0 1 [0] = Inr demo_rob"
  by (simp add: ROB_new_def demo_rob_def initial_max_def MaxThreads_def cong: if_cong)

definition demo_inst :: "InstSeqNum \<Rightarrow> RobInst" where
  "demo_inst n = \<lparr>seqNum = n, threadNumber = 0, canCommit = False, squashed = False, inROB = False, committed = False\<rparr>"

lemma demo_rob_step:
  "\<exists>r. insertInst (demo_inst 5) demo_rob = Inr r \<and> rtranclp rob_step demo_rob r
    \<and> instList r 0 = [(demo_inst 5)\<lparr>inROB := True\<rparr>] \<and> \<not> rob_isEmpty r"
proof -
  obtain r where r: "insertInst (demo_inst 5) demo_rob = Inr r" "instList r 0 = [(demo_inst 5)\<lparr>inROB := True\<rparr>]"
    "\<not> rob_isEmpty r"
    by (simp add: insertInst_def rob_isEmpty_def demo_rob_def demo_inst_def rob_resetState_def MaxThreads_def rob_isFull_def)
  have "rob_step demo_rob r"
    by (rule rob_step.insert [OF r(1)]) (simp_all add: demo_inst_def demo_rob_def rob_resetState_def)
  with r show ?thesis by blast
qed


theorem rob_head_oldest_witness:
  "\<exists>r t. insertInst (demo_inst 5) demo_rob = Inr r \<and> rob_head r = ItAt t 0 \<and> instList r t \<noteq> []"
proof -
  obtain r where r: "insertInst (demo_inst 5) demo_rob = Inr r" "rtranclp rob_step demo_rob r" "\<not> rob_isEmpty r"
    using demo_rob_step by blast
  then show ?thesis using rob_head_oldest [OF demo_rob_new r(2)] by blast
qed

theorem rob_squash_exact_witness:
  "\<exists>r'. bindE (rob_squash False 5 0 (demo_rob\<lparr>instList := (\<lambda>_. [demo_inst 5, demo_inst 6, demo_inst 9]),
      threadEntries := (\<lambda>_. 3)\<rparr>)) (continue_squash 1 False 0) = Inr r' \<and> doneSquashing r' 0
    \<and> instList r' 0 = [demo_inst 5, mark_squashed (demo_inst 6), mark_squashed (demo_inst 9)]"
proof -
  let ?r = "demo_rob\<lparr>instList := (\<lambda>_. [demo_inst 5, demo_inst 6, demo_inst 9]), threadEntries := (\<lambda>_. 3)\<rparr>"
  have "in_order (instList ?r 0)" by (simp add: in_order_def demo_inst_def)
  moreover have "young 5 (instList ?r 0) \<le> (1 + 1) * squash_budget False ?r" "0 < squash_budget False ?r"
    by (simp_all add: young_def demo_inst_def squash_budget_def demo_rob_def rob_resetState_def)
  ultimately have "\<exists>r'. bindE (rob_squash False 5 0 ?r) (continue_squash 1 False 0) = Inr r'
    \<and> doneSquashing r' 0 \<and> robStatus r' 0 = ROBSquashing \<and> squashedSeqNum r' 0 = 5
    \<and> instList r' = (instList ?r)(0 := map (\<lambda>i. if 5 < seqNum i then mark_squashed i else i) (instList ?r 0))
    \<and> threadEntries r' = threadEntries ?r \<and> numInstsInROB r' = numInstsInROB ?r \<and> rob_head r' = rob_head ?r"
    by (intro rob_squash_exact) simp_all
  then obtain r' where r': "bindE (rob_squash False 5 0 ?r) (continue_squash 1 False 0) = Inr r'" "doneSquashing r' 0"
    "instList r' = (instList ?r)(0 := map (\<lambda>i. if 5 < seqNum i then mark_squashed i else i) (instList ?r 0))"
    by blast
  have "instList r' 0 = [demo_inst 5, mark_squashed (demo_inst 6), mark_squashed (demo_inst 9)]"
    unfolding r'(3) by (simp add: demo_inst_def)
  with r' show ?thesis by blast
qed

end
