(* ===== verification/CommitArbiter.thy ===== *)
theory CommitArbiter
  imports ReorderBufferInv
begin

text \<open>
  The choice of the thread that commits, \<^verbatim>\<open>src/cpu/o3/commit.cc\<close>: the round-robin and the
  oldest-ready policies over the reorder buffer. \<open>InvalidThreadID\<close> is \<open>None\<close>. The oldest-ready
  policy keeps the sequence number of its candidate in an \<open>unsigned\<close>, 32 bits wide.
\<close>

datatype ThreadStatus =
  Running | Idle | CommitROBSquashing | TrapPending | FetchTrapPending | SquashAfterPending

datatype CommitPolicy = RoundRobin | OldestReady

definition may_commit :: "ThreadStatus \<Rightarrow> bool" where
  "may_commit st \<longleftrightarrow> st = Running \<or> st = Idle \<or> st = FetchTrapPending"

text \<open>The loop over the priority list; its first argument holds the entries already passed.\<close>

fun roundRobin_loop ::
  "ThreadID list \<Rightarrow> ThreadID list \<Rightarrow> (ThreadID \<Rightarrow> ThreadStatus) \<Rightarrow> ROB \<Rightarrow> (ThreadID option \<times> ThreadID list) result" where
  "roundRobin_loop passed [] commitStatus rob = Inr (None, passed)"
| "roundRobin_loop passed (tid # rest) commitStatus rob =
    (if may_commit (commitStatus tid)
     then bindE (isHeadReady tid rob) (\<lambda>ready.
       if ready then Inr (Some tid, passed @ rest @ [tid])
       else roundRobin_loop (passed @ [tid]) rest commitStatus rob)
     else roundRobin_loop (passed @ [tid]) rest commitStatus rob)"

definition roundRobin ::
  "ThreadID list \<Rightarrow> (ThreadID \<Rightarrow> ThreadStatus) \<Rightarrow> ROB \<Rightarrow> (ThreadID option \<times> ThreadID list) result" where
  "roundRobin priority_list commitStatus rob = roundRobin_loop [] priority_list commitStatus rob"

definition oldest_step ::
  "(ThreadID \<Rightarrow> ThreadStatus) \<Rightarrow> ROB \<Rightarrow> ThreadID \<Rightarrow> ThreadID \<times> unsigned \<times> bool \<Rightarrow> (ThreadID \<times> unsigned \<times> bool) result" where
  "oldest_step commitStatus rob tid = (\<lambda>(oldest, oldest_seq_num, is_first).
    if \<not> rob_isEmpty_thread tid rob \<and> may_commit (commitStatus tid)
    then bindE (isHeadReady tid rob) (\<lambda>ready.
      if ready
      then bindE (readHeadInst tid rob) (\<lambda>head_inst.
        case head_inst of
          None \<Rightarrow> Inr (oldest, oldest_seq_num, is_first)
        | Some i \<Rightarrow>
          if is_first then Inr (tid, ucast (seqNum i), False)
          else if seqNum i < ucast oldest_seq_num then Inr (tid, ucast (seqNum i), False)
          else Inr (oldest, oldest_seq_num, False))
      else Inr (oldest, oldest_seq_num, is_first))
    else Inr (oldest, oldest_seq_num, is_first))"

definition oldestReady :: "(ThreadID \<Rightarrow> ThreadStatus) \<Rightarrow> ROB \<Rightarrow> ThreadID option result" where
  "oldestReady commitStatus rob =
    bindE (foldE (oldest_step commitStatus rob) (activeThreads rob) (0, 0, True))
      (\<lambda>(oldest, _, is_first). Inr (if is_first then None else Some oldest))"

definition getCommittingThread ::
  "CommitPolicy \<Rightarrow> nat \<Rightarrow> ThreadID list \<Rightarrow> (ThreadID \<Rightarrow> ThreadStatus) \<Rightarrow> ROB \<Rightarrow> (ThreadID option \<times> ThreadID list) result" where
  "getCommittingThread policy numThreads priority_list commitStatus rob =
    (if numThreads > 1
     then (case policy of
        RoundRobin \<Rightarrow> roundRobin priority_list commitStatus rob
      | OldestReady \<Rightarrow> bindE (oldestReady commitStatus rob) (\<lambda>t. Inr (t, priority_list)))
     else checked (activeThreads rob \<noteq> []) AssertFailed
       (let tid = hd (activeThreads rob) in
        Inr (if may_commit (commitStatus tid) then Some tid else None, priority_list)))"

subsection \<open>The candidates\<close>

definition ready_thread :: "(ThreadID \<Rightarrow> ThreadStatus) \<Rightarrow> ROB \<Rightarrow> ThreadID \<Rightarrow> bool" where
  "ready_thread commitStatus rob tid \<longleftrightarrow> may_commit (commitStatus tid) \<and> instList rob tid \<noteq> []
    \<and> canCommit (hd (instList rob tid))"

lemma isHeadReady_eq:
  "counts_ok r \<Longrightarrow> isHeadReady tid r = Inr (instList r tid \<noteq> [] \<and> canCommit (hd (instList r tid)))"
  by (auto simp: isHeadReady_def thread_empty_iff)

subsection \<open>Round robin\<close>

lemma roundRobin_loop_eq:
  assumes "counts_ok r"
  shows "roundRobin_loop passed ts st r =
    (case dropWhile (\<lambda>t. \<not> ready_thread st r t) ts of
       [] \<Rightarrow> Inr (None, passed @ ts)
     | t # rest \<Rightarrow> Inr (Some t, passed @ takeWhile (\<lambda>t. \<not> ready_thread st r t) ts @ rest @ [t]))"
proof (induction ts arbitrary: passed)
  case (Cons t ts)
  have step: "roundRobin_loop passed (t # ts) st r =
    (if ready_thread st r t then Inr (Some t, passed @ ts @ [t]) else roundRobin_loop (passed @ [t]) ts st r)"
    by (simp add: isHeadReady_eq [OF assms] ready_thread_def)
  show ?case
  proof (cases "ready_thread st r t")
    case False
    then show ?thesis unfolding step using Cons.IH [of "passed @ [t]"]
      by (cases "dropWhile (\<lambda>t. \<not> ready_thread st r t) ts") (simp_all del: dropWhile_eq_Nil_conv)
  qed (simp add: step del: roundRobin_loop.simps)
qed simp

text \<open>Consecutive choices in changing states.\<close>

fun choices ::
  "((ThreadID \<Rightarrow> ThreadStatus) \<times> ROB) list \<Rightarrow> ThreadID list \<Rightarrow> (ThreadID option list) result" where
  "choices [] prio = Inr []"
| "choices ((st, r) # envs) prio =
    bindE (roundRobin prio st r) (\<lambda>(t, prio'). bindE (choices envs prio') (\<lambda>ts. Inr (t # ts)))"

lemma roundRobin_choice:
  assumes c: "counts_ok r" and ready: "ready_thread st r t" and d: "distinct (before @ t # after)"
  shows "\<exists>u prio'. roundRobin (before @ t # after) st r = Inr (Some u, prio')
    \<and> (u = t \<or> (\<exists>b a. prio' = b @ t # a \<and> length b < length before \<and> distinct prio'))"
proof (cases "\<exists>u \<in> set before. ready_thread st r u")
  case True
  then obtain b u a where b: "before = b @ u # a" "ready_thread st r u" "\<forall>v \<in> set b. \<not> ready_thread st r v"
    using split_list_first_prop [of before "ready_thread st r"] by blast
  have dw: "dropWhile (\<lambda>t. \<not> ready_thread st r t) (before @ t # after) = u # a @ t # after"
    and tw: "takeWhile (\<lambda>t. \<not> ready_thread st r t) (before @ t # after) = b"
    using b by (simp_all add: dropWhile_append takeWhile_append)
  have "roundRobin (before @ t # after) st r = Inr (Some u, (b @ a) @ t # (after @ [u]))"
    by (simp add: roundRobin_def roundRobin_loop_eq [OF c] dw tw)
  moreover have "distinct ((b @ a) @ t # (after @ [u]))" using d b(1) by auto
  moreover have "length (b @ a) < length before" by (simp add: b(1))
  ultimately show ?thesis by blast
next
  case False
  have dw: "dropWhile (\<lambda>t. \<not> ready_thread st r t) (before @ t # after) = t # after"
    using False ready by (subst dropWhile_append2) auto
  show ?thesis by (auto simp: roundRobin_def roundRobin_loop_eq [OF c] dw)
qed

lemma choices_total:
  assumes "list_all (\<lambda>(st, r). counts_ok r) envs"
  shows "\<exists>ts. choices envs prio = Inr ts"
  using assms
proof (induction envs arbitrary: prio)
  case (Cons e envs)
  obtain st r where e: "e = (st, r)" by (cases e) auto
  then have c: "counts_ok r" using Cons.prems by simp
  obtain t prio' where "roundRobin prio st r = Inr (t, prio')"
    by (cases "dropWhile (\<lambda>t. \<not> ready_thread st r t) prio")
      (auto simp: roundRobin_def roundRobin_loop_eq [OF c])
  then show ?case using Cons.IH [of prio'] Cons.prems by (auto simp: e)
qed simp

text \<open>
  C14. Round-robin commit is fair. Let a thread stand at position \<open>p\<close> of the priority list and
  stay able to commit, with its oldest instruction ready, over more than \<open>p\<close> choices, whatever
  the other threads do in between. Then it is chosen within \<open>p + 1\<close> choices; no choice aborts.
\<close>

theorem round_robin_fair:
  assumes "distinct prio" and "p < length prio" and "p < length envs"
    and "list_all (\<lambda>(st, r). counts_ok r \<and> ready_thread st r (prio ! p)) envs"
  shows "\<exists>ts. choices envs prio = Inr ts \<and> Some (prio ! p) \<in> set (take (Suc p) ts)"
  using assms
proof (induction envs arbitrary: prio p)
  case (Cons e envs)
  obtain st r where e: "e = (st, r)" by (cases e) auto
  let ?t = "prio ! p"
  have c: "counts_ok r" "ready_thread st r ?t" "list_all (\<lambda>(st, r). counts_ok r) envs"
    using Cons.prems(4) by (auto simp: e list_all_iff)
  have prio: "prio = take p prio @ ?t # drop (Suc p) prio" using Cons.prems(2) by (simp add: id_take_nth_drop)
  then obtain u prio' where u: "roundRobin prio st r = Inr (Some u, prio')"
    and alt: "u = ?t \<or> (\<exists>b a. prio' = b @ ?t # a \<and> length b < length (take p prio) \<and> distinct prio')"
    using roundRobin_choice [OF c(1,2), of "take p prio" "drop (Suc p) prio"] Cons.prems(1) by metis
  show ?case
  proof (cases "u = ?t")
    case True
    then show ?thesis using choices_total [OF c(3), of prio'] u by (auto simp: e)
  next
    case False
    then obtain b a where b: "prio' = b @ ?t # a" "length b < p" "distinct prio'"
      using alt Cons.prems(2) by auto
    have t: "prio' ! length b = ?t" by (simp add: b(1))
    have "length b < length prio'" by (simp add: b(1))
    moreover have "length b < length envs" using b(2) Cons.prems(3) by simp
    moreover have "list_all (\<lambda>(st, r). counts_ok r \<and> ready_thread st r (prio' ! length b)) envs"
      using Cons.prems(4) by (simp add: t)
    ultimately obtain ts where ts: "choices envs prio' = Inr ts" "Some ?t \<in> set (take (Suc (length b)) ts)"
      using Cons.IH [OF b(3), of "length b"] unfolding t by blast
    have "set (take (Suc (length b)) ts) \<subseteq> set (take p ts)" using b(2) by (intro set_take_subset_set_take) simp
    then show ?thesis using ts u by (auto simp: e)
  qed
qed simp

theorem round_robin_fair_witness:
  "\<exists>ts. choices [((\<lambda>_. Running), demo_rob\<lparr>instList := (\<lambda>t. if t = 0 then [(demo_inst 5)\<lparr>canCommit := True\<rparr>] else []),
      threadEntries := (\<lambda>t. if t = 0 then 1 else 0), numInstsInROB := 1\<rparr>)] [0, 1] = Inr ts \<and> Some 0 \<in> set (take 1 ts)"
proof -
  let ?r = "demo_rob\<lparr>instList := (\<lambda>t. if t = 0 then [(demo_inst 5)\<lparr>canCommit := True\<rparr>] else []),
      threadEntries := (\<lambda>t. if t = 0 then 1 else 0), numInstsInROB := 1\<rparr>"
  have "total_insts ?r = 1" by (simp add: total_insts_def MaxThreads_def lessThan_Suc numeral_eq_Suc)
  then have "counts_ok ?r" by (simp add: counts_ok_def demo_rob_def rob_resetState_def MaxThreads_def)
  then have "list_all (\<lambda>(st, r). counts_ok r \<and> ready_thread st r ([0, 1] ! 0)) [((\<lambda>_. Running), ?r)]"
    by (simp add: ready_thread_def may_commit_def)
  from round_robin_fair [OF _ _ _ this] show ?thesis by simp
qed

subsection \<open>Oldest ready\<close>

lemma readHeadInst_eq:
  assumes "rob_inv r" and "instList r tid \<noteq> []"
  shows "readHeadInst tid r = Inr (Some (hd (instList r tid)))"
proof -
  have "inROB (hd (instList r tid))" using assms by (cases "instList r tid") (auto simp: rob_inv_def lists_ok_def dest: spec [of _ tid])
  then show ?thesis using assms by (simp add: readHeadInst_def thread_empty_iff rob_inv_def)
qed

lemma oldest_step_eq:
  assumes "rob_inv r"
  shows "oldest_step st r tid (cand, s, f) =
    Inr (if ready_thread st r tid
         then (if f \<or> seqNum (hd (instList r tid)) < ucast s then (tid, ucast (seqNum (hd (instList r tid))), False) else (cand, s, False))
         else (cand, s, f))"
  using assms readHeadInst_eq [OF assms] isHeadReady_eq [of r tid] thread_empty_iff [of r tid]
  by (auto simp: oldest_step_def ready_thread_def rob_isEmpty_thread_def rob_inv_def)

text \<open>The candidate after a prefix of the active threads, when no number exceeds 32 bits.\<close>

definition best :: "(ThreadID \<Rightarrow> ThreadStatus) \<Rightarrow> ROB \<Rightarrow> ThreadID list \<Rightarrow> ThreadID \<times> unsigned \<times> bool \<Rightarrow> bool" where
  "best st r ts = (\<lambda>(cand, s, f).
    if f then \<forall>t \<in> set ts. \<not> ready_thread st r t
    else ready_thread st r cand \<and> cand \<in> set ts \<and> ucast s = seqNum (hd (instList r cand))
      \<and> (\<forall>t \<in> set ts. ready_thread st r t \<longrightarrow> seqNum (hd (instList r cand)) \<le> seqNum (hd (instList r t))))"

lemma ucast_32_id:
  assumes "unat (x :: uint64) < 2 ^ 32"
  shows "(ucast (ucast x :: unsigned) :: uint64) = x"
  using assms
  by (simp add: word_eq_iff_unsigned [where 'a = nat] unsigned_ucast_eq unsigned_take_bit_eq take_bit_nat_eq_self)

lemma oldest_fold:
  assumes inv: "rob_inv r" and small: "\<And>t. ready_thread st r t \<Longrightarrow> unat (seqNum (hd (instList r t))) < 2 ^ 32"
  shows "\<exists>x. foldE (oldest_step st r) ts (0, 0, True) = Inr x \<and> best st r ts x"
proof (rule foldE_prefix [where I = "best st r"])
  show "best st r [] (0, 0, True)" by (simp add: best_def)
next
  fix ys y zs x
  assume "best st r ys x"
  obtain cand s f where x: "x = (cand, s, f)" by (cases x) auto
  have y: "ready_thread st r y \<Longrightarrow> ucast (ucast (seqNum (hd (instList r y))) :: unsigned) = seqNum (hd (instList r y))"
    using small by (simp add: ucast_32_id)
  show "\<exists>x'. oldest_step st r y x = Inr x' \<and> best st r (ys @ [y]) x'"
    using \<open>best st r ys x\<close> y unfolding x oldest_step_eq [OF inv]
    by (auto simp: best_def split: if_splits)
qed

text \<open>
  C33. Oldest-ready commit is exact below 32 bits. In a state of the reorder buffer where the
  sequence numbers of the ready heads fit in 32 bits, the policy returns no thread exactly
  when no active thread is ready, and otherwise a ready active thread whose oldest instruction
  is the oldest among them.
\<close>

theorem oldest_ready_exact:
  assumes "rob_inv r" and "\<And>t. ready_thread st r t \<Longrightarrow> unat (seqNum (hd (instList r t))) < 2 ^ 32"
  shows "\<exists>c. oldestReady st r = Inr c
    \<and> (c = None \<longleftrightarrow> (\<forall>t \<in> set (activeThreads r). \<not> ready_thread st r t))
    \<and> (\<forall>t. c = Some t \<longrightarrow> t \<in> set (activeThreads r) \<and> ready_thread st r t
        \<and> (\<forall>u \<in> set (activeThreads r). ready_thread st r u \<longrightarrow>
            seqNum (hd (instList r t)) \<le> seqNum (hd (instList r u))))"
proof -
  obtain cand s f where "foldE (oldest_step st r) (activeThreads r) (0, 0, True) = Inr (cand, s, f)"
    "best st r (activeThreads r) (cand, s, f)"
    using oldest_fold [OF assms] by (metis prod_cases3)
  then show ?thesis by (auto simp: oldestReady_def best_def split: if_splits)
qed

text \<open>Two threads with one ready instruction each.\<close>

definition two_heads :: "InstSeqNum \<Rightarrow> InstSeqNum \<Rightarrow> ROB" where
  "two_heads m n = demo_rob\<lparr>activeThreads := [0, 1],
     instList := (\<lambda>t. if t = 0 then [(demo_inst m)\<lparr>canCommit := True, inROB := True\<rparr>]
       else if t = 1 then [(demo_inst n)\<lparr>canCommit := True, inROB := True, threadNumber := 1\<rparr>] else []),
     threadEntries := (\<lambda>t. if t < 2 then 1 else 0), numInstsInROB := 2,
     rob_head := ItAt (if m \<le> n then 0 else 1) 0\<rparr>"

lemma two_heads_inv: "rob_inv (two_heads m n)"
proof -
  have "total_insts (two_heads m n) = 2"
    by (simp add: total_insts_def two_heads_def MaxThreads_def lessThan_Suc numeral_eq_Suc)
  then show ?thesis
    by (auto simp: rob_inv_def counts_ok_def lists_ok_def squash_ok_def head_ok_def two_heads_def demo_rob_def
        rob_resetState_def MaxThreads_def in_order_def demo_inst_def)
qed

lemma two_heads_ready: "ready_thread (\<lambda>_. Running) (two_heads m n) t \<longleftrightarrow> t = 0 \<or> t = 1"
  by (simp add: ready_thread_def may_commit_def two_heads_def)

theorem oldest_ready_exact_witness: "oldestReady (\<lambda>_. Running) (two_heads 9 7) = Inr (Some 1)"
proof -
  have "\<exists>c. oldestReady (\<lambda>_. Running) (two_heads 9 7) = Inr c
    \<and> (c = None \<longleftrightarrow> (\<forall>t \<in> set (activeThreads (two_heads 9 7)). \<not> ready_thread (\<lambda>_. Running) (two_heads 9 7) t))
    \<and> (\<forall>t. c = Some t \<longrightarrow> t \<in> set (activeThreads (two_heads 9 7)) \<and> ready_thread (\<lambda>_. Running) (two_heads 9 7) t
        \<and> (\<forall>u \<in> set (activeThreads (two_heads 9 7)). ready_thread (\<lambda>_. Running) (two_heads 9 7) u \<longrightarrow>
            seqNum (hd (instList (two_heads 9 7) t)) \<le> seqNum (hd (instList (two_heads 9 7) u))))"
    by (rule oldest_ready_exact [OF two_heads_inv]) (auto simp: two_heads_ready, simp_all add: two_heads_def demo_inst_def)
  then obtain c where "oldestReady (\<lambda>_. Running) (two_heads 9 7) = Inr c" "c \<noteq> None" "c \<noteq> Some 0"
    "\<And>t. c = Some t \<Longrightarrow> t = 0 \<or> t = 1"
    by (auto simp: two_heads_ready) (auto simp: two_heads_def demo_inst_def)
  then show ?thesis by (cases c) auto
qed

lemma two_heads_choice:
  assumes "\<not> n < ucast (ucast m :: unsigned)"
  shows "oldestReady (\<lambda>_. Running) (two_heads m n) = Inr (Some 0)"
proof -
  have "seqNum (hd (instList (two_heads m n) 0)) = m" "seqNum (hd (instList (two_heads m n) 1)) = n"
    "activeThreads (two_heads m n) = [0, 1]"
    by (simp_all add: two_heads_def demo_inst_def)
  then show ?thesis using assms
    by (simp add: oldestReady_def oldest_step_eq [OF two_heads_inv] two_heads_ready del: One_nat_def)
qed


end
