(* ===== verification/StoreSets.thy ===== *)
theory StoreSets
  imports IntMath
begin

unbundle bit_operations_syntax

text \<open>
  The store-set memory dependence predictor, \<^verbatim>\<open>src/cpu/o3/store_set.cc\<close> and \<^verbatim>\<open>store_set.hh\<close>. The
  map of pending stores is ordered by descending sequence number; here it is a list in that
  order. The loop of \<open>squash\<close> does not advance when it meets an entry whose set was last written by
  an older store, so it need not end; \<open>None\<close> is a call that does not return. The table sizes
  are positive and below \<open>2 ^ 31\<close>, so \<open>int\<close> arithmetic on them is exact.
\<close>

record StoreSet =
  SSIT :: "nat list"
  validSSIT :: "bool list"
  LFST :: "InstSeqNum list"
  validLFST :: "bool list"
  storeList :: "(InstSeqNum \<times> nat) list"
  clearPeriod :: uint64
  SSITSize :: nat
  LFSTSize :: nat
  memOpsPred :: int

definition StoreSet_new :: "uint64 \<Rightarrow> nat \<Rightarrow> nat \<Rightarrow> StoreSet result" where
  "StoreSet_new clear_period ssit_size lfst_size =
    checked (isPowerOf2 (of_nat ssit_size)) Fatal
      (checked (isPowerOf2 (of_nat lfst_size)) Fatal
        (Inr \<lparr>SSIT = replicate ssit_size 0, validSSIT = replicate ssit_size False,
          LFST = replicate lfst_size 0, validLFST = replicate lfst_size False, storeList = [],
          clearPeriod = clear_period, SSITSize = ssit_size, LFSTSize = lfst_size, memOpsPred = 0\<rparr>))"

text \<open>\<open>init\<close> resizes the tables of an object; the sets and the pending stores stay.\<close>

definition vec_resize :: "nat \<Rightarrow> 'a \<Rightarrow> 'a list \<Rightarrow> 'a list" where
  "vec_resize n x xs = take n xs @ replicate (n - length xs) x"

definition ss_init :: "uint64 \<Rightarrow> nat \<Rightarrow> nat \<Rightarrow> StoreSet \<Rightarrow> StoreSet" where
  "ss_init clear_period ssit_size lfst_size s =
    s\<lparr>SSITSize := ssit_size, LFSTSize := lfst_size, clearPeriod := clear_period,
      SSIT := vec_resize ssit_size 0 (SSIT s), validSSIT := replicate ssit_size False,
      LFST := replicate lfst_size 0, validLFST := replicate lfst_size False, memOpsPred := 0\<rparr>"

text \<open>\<open>indexMask\<close> is \<open>SSITSize - 1\<close> and \<open>offsetBits\<close> is 2.\<close>

definition calcIndex :: "Addr \<Rightarrow> StoreSet \<Rightarrow> nat" where
  "calcIndex pc s = unat (drop_bit 2 pc AND of_nat (SSITSize s - 1))"

definition calcSSID :: "Addr \<Rightarrow> StoreSet \<Rightarrow> nat" where
  "calcSSID pc s = unat ((pc XOR drop_bit 10 pc) mod of_nat (LFSTSize s))"

definition set_SSIT :: "nat \<Rightarrow> nat \<Rightarrow> StoreSet \<Rightarrow> StoreSet" where
  "set_SSIT index ssid s = s\<lparr>validSSIT := (validSSIT s)[index := True], SSIT := (SSIT s)[index := ssid]\<rparr>"

definition ss_violation :: "Addr \<Rightarrow> Addr \<Rightarrow> StoreSet \<Rightarrow> StoreSet result" where
  "ss_violation store_PC load_PC s =
    (let load_index = calcIndex load_PC s; store_index = calcIndex store_PC s in
     checked (load_index < SSITSize s \<and> store_index < SSITSize s) AssertFailed
       (let valid_load_SSID = validSSIT s ! load_index; valid_store_SSID = validSSIT s ! store_index;
            load_SSID = SSIT s ! load_index; store_SSID = SSIT s ! store_index in
        if \<not> valid_load_SSID \<and> \<not> valid_store_SSID
        then let new_set = calcSSID load_PC s in
          checked (new_set < LFSTSize s) AssertFailed
            (Inr (set_SSIT store_index new_set (set_SSIT load_index new_set s)))
        else if valid_load_SSID \<and> \<not> valid_store_SSID
        then checked (load_SSID < LFSTSize s) AssertFailed (Inr (set_SSIT store_index load_SSID s))
        else if \<not> valid_load_SSID \<and> valid_store_SSID
        then Inr (set_SSIT load_index store_SSID s)
        else checked (load_SSID < LFSTSize s \<and> store_SSID < LFSTSize s) AssertFailed
          (Inr (if store_SSID > load_SSID then s\<lparr>SSIT := (SSIT s)[store_index := load_SSID]\<rparr>
                else s\<lparr>SSIT := (SSIT s)[load_index := store_SSID]\<rparr>))))"

definition ss_clear :: "StoreSet \<Rightarrow> StoreSet" where
  "ss_clear s = s\<lparr>validSSIT := replicate (SSITSize s) False, validLFST := replicate (LFSTSize s) False, storeList := []\<rparr>"

text \<open>\<open>memOpsPred\<close> is an \<open>int\<close>; it is compared with the 64-bit period after conversion.\<close>

definition checkClear :: "StoreSet \<Rightarrow> StoreSet result" where
  "checkClear s =
    checked (memOpsPred s + 1 < 2 ^ 31) UndefinedBehaviour
      (Inr (if word_of_int (memOpsPred s + 1) > clearPeriod s then ss_clear (s\<lparr>memOpsPred := 0\<rparr>)
            else s\<lparr>memOpsPred := memOpsPred s + 1\<rparr>))"

definition ss_insertLoad :: "StoreSet \<Rightarrow> StoreSet result" where
  "ss_insertLoad s = checkClear s"

text \<open>The map with descending keys.\<close>

fun sl_insert :: "InstSeqNum \<Rightarrow> nat \<Rightarrow> (InstSeqNum \<times> nat) list \<Rightarrow> (InstSeqNum \<times> nat) list" where
  "sl_insert n v [] = [(n, v)]"
| "sl_insert n v ((m, w) # l) =
    (if n > m then (n, v) # (m, w) # l else if n = m then (n, v) # l else (m, w) # sl_insert n v l)"

definition ss_insertStore :: "Addr \<Rightarrow> InstSeqNum \<Rightarrow> StoreSet \<Rightarrow> StoreSet result" where
  "ss_insertStore store_PC store_seq_num s0 =
    (let index = calcIndex store_PC s0 in
     bindE (checkClear s0) (\<lambda>s.
       checked (index < SSITSize s) AssertFailed
         (if \<not> validSSIT s ! index then Inr s
          else let store_SSID = SSIT s ! index in
            checked (store_SSID < LFSTSize s) AssertFailed
              (Inr (s\<lparr>LFST := (LFST s)[store_SSID := store_seq_num], validLFST := (validLFST s)[store_SSID := True],
                storeList := sl_insert store_seq_num store_SSID (storeList s)\<rparr>)))))"

definition checkInst :: "Addr \<Rightarrow> StoreSet \<Rightarrow> InstSeqNum result" where
  "checkInst pc s =
    (let index = calcIndex pc s in
     checked (index < SSITSize s) AssertFailed
       (if \<not> validSSIT s ! index then Inr 0
        else let inst_SSID = SSIT s ! index in
          checked (inst_SSID < LFSTSize s) AssertFailed
            (Inr (if \<not> validLFST s ! inst_SSID then 0 else LFST s ! inst_SSID))))"

definition ss_issued :: "Addr \<Rightarrow> InstSeqNum \<Rightarrow> bool \<Rightarrow> StoreSet \<Rightarrow> StoreSet result" where
  "ss_issued issued_PC issued_seq_num is_store s =
    (if \<not> is_store then Inr s
     else let index = calcIndex issued_PC s in
       checked (index < SSITSize s) AssertFailed
         (let s1 = s\<lparr>storeList := filter (\<lambda>(n, _). n \<noteq> issued_seq_num) (storeList s)\<rparr> in
          if \<not> validSSIT s ! index then Inr s1
          else let store_SSID = SSIT s ! index in
            checked (store_SSID < LFSTSize s) AssertFailed
              (Inr (if validLFST s ! store_SSID \<and> LFST s ! store_SSID = issued_seq_num
                    then s1\<lparr>validLFST := (validLFST s)[store_SSID := False]\<rparr> else s1))))"

partial_function (option) ss_squash_loop ::
  "InstSeqNum \<Rightarrow> InstSeqNum list \<Rightarrow> (InstSeqNum \<times> nat) list \<Rightarrow> bool list
    \<Rightarrow> ((InstSeqNum \<times> nat) list \<times> bool list) result option" where
  "ss_squash_loop q lfst l valid =
    (case l of
       [] \<Rightarrow> Some (Inr ([], valid))
     | (n, idx) # rest \<Rightarrow>
       if n \<le> q then Some (Inr (l, valid))
       else if \<not> idx < length lfst then Some (Inl UndefinedBehaviour)
       else let younger = (lfst ! idx > q) in
         if valid ! idx \<and> younger then ss_squash_loop q lfst rest (valid[idx := False])
         else if \<not> valid ! idx \<and> younger then ss_squash_loop q lfst rest valid
         else ss_squash_loop q lfst l valid)"

declare ss_squash_loop.simps [code]

definition ss_squash :: "InstSeqNum \<Rightarrow> StoreSet \<Rightarrow> StoreSet result option" where
  "ss_squash squashed_num s =
    map_option (\<lambda>r. bindE r (\<lambda>(l, valid). Inr (s\<lparr>storeList := l, validLFST := valid\<rparr>)))
      (ss_squash_loop squashed_num (LFST s) (storeList s) (validLFST s))"

subsection \<open>Well-formed tables\<close>

definition ss_wf :: "StoreSet \<Rightarrow> bool" where
  "ss_wf s \<longleftrightarrow> isPowerOf2 (of_nat (SSITSize s)) \<and> isPowerOf2 (of_nat (LFSTSize s))
    \<and> SSITSize s < 2 ^ 31 \<and> LFSTSize s < 2 ^ 31
    \<and> length (SSIT s) = SSITSize s \<and> length (validSSIT s) = SSITSize s
    \<and> length (LFST s) = LFSTSize s \<and> length (validLFST s) = LFSTSize s
    \<and> (\<forall>i < SSITSize s. validSSIT s ! i \<longrightarrow> SSIT s ! i < LFSTSize s)
    \<and> (\<forall>(n, i) \<in> set (storeList s). i < LFSTSize s)
    \<and> sorted_wrt (>) (map fst (storeList s))"

lemma unat_of_nat_31: "n < 2 ^ 31 \<Longrightarrow> unat (of_nat n :: uint64) = n"
  by (intro unat_of_nat_small) simp

lemma calcIndex_less:
  assumes "ss_wf s"
  shows "calcIndex pc s < SSITSize s"
proof -
  have n: "0 < SSITSize s" "SSITSize s < 2 ^ 31"
    using assms by (auto simp: ss_wf_def isPowerOf2_def intro: gr0I)
  have "unat (drop_bit 2 pc AND (of_nat (SSITSize s - 1) :: uint64)) \<le> unat (of_nat (SSITSize s - 1) :: uint64)"
    by (simp add: word_le_nat_alt [symmetric] word_and_le1)
  also have "\<dots> = SSITSize s - 1" using n by (intro unat_of_nat_31) simp
  finally show ?thesis using n by (simp add: calcIndex_def)
qed

lemma calcSSID_less:
  assumes "ss_wf s"
  shows "calcSSID pc s < LFSTSize s"
proof -
  have n: "0 < LFSTSize s" "LFSTSize s < 2 ^ 31"
    using assms by (auto simp: ss_wf_def isPowerOf2_def intro: gr0I)
  have "calcSSID pc s = unat (pc XOR drop_bit 10 pc) mod LFSTSize s"
    using unat_of_nat_31 [OF n(2)] by (simp add: calcSSID_def unat_mod_distrib)
  then show ?thesis using n(1) by simp
qed

subsection \<open>Squash\<close>

text \<open>The entries a squash removes, and what it does to the valid bits.\<close>

definition invalidate :: "(InstSeqNum \<times> nat) list \<Rightarrow> bool list \<Rightarrow> bool list" where
  "invalidate l valid = fold (\<lambda>(_, i) v. v[i := False]) l valid"

lemma ss_squash_loop_run:
  assumes "\<forall>(n, i) \<in> set l. i < length lfst" and "length valid = length lfst"
    and "\<forall>(n, i) \<in> set (takeWhile (\<lambda>(n, _). q < n) l). q < lfst ! i"
  shows "ss_squash_loop q lfst l valid =
    Some (Inr (dropWhile (\<lambda>(n, _). q < n) l, invalidate (takeWhile (\<lambda>(n, _). q < n) l) valid))"
  using assms
proof (induction l arbitrary: valid)
  case Nil
  then show ?case by (subst ss_squash_loop.simps) (simp add: invalidate_def)
next
  case (Cons a l)
  obtain n i where a: "a = (n, i)" by (cases a)
  show ?case
  proof (cases "q < n")
    case False
    then show ?thesis by (subst ss_squash_loop.simps) (auto simp: a invalidate_def dest: leD)
  next
    case True
    then have i: "i < length lfst" "q < lfst ! i" and n: "\<not> n \<le> q" using Cons.prems by (auto simp: a)
    have same: "valid[i := False] = valid" if "\<not> valid ! i"
      using that i Cons.prems(2) by (simp add: list_update_same_conv)
    have "ss_squash_loop q lfst (a # l) valid = ss_squash_loop q lfst l (valid[i := False])"
      using i n same by (subst ss_squash_loop.simps) (auto simp: a Let_def)
    also have "\<dots> = Some (Inr (dropWhile (\<lambda>(n, _). q < n) l, invalidate (takeWhile (\<lambda>(n, _). q < n) l) (valid[i := False])))"
      using Cons.prems True by (intro Cons.IH) (auto simp: a)
    finally show ?thesis using True by (simp add: a invalidate_def)
  qed
qed

lemma ss_squash_loop_returns:
  assumes "ss_squash_loop q lfst l valid = Some r" and "\<forall>(n, i) \<in> set l. i < length lfst"
  shows "\<forall>(n, i) \<in> set (takeWhile (\<lambda>(n, _). q < n) l). q < lfst ! i"
  using assms(2)
proof (induction rule: ss_squash_loop.raw_induct [OF _ assms(1)])
  case (1 loop q lfst l valid r)
  show ?case
  proof (cases l)
    case (Cons a rest)
    obtain n i where a: "a = (n, i)" by (cases a)
    show ?thesis
    proof (cases "n \<le> q")
      case False
      then have "q < n" by simp
      have i: "i < length lfst" and rest: "\<forall>(n, i) \<in> set rest. i < length lfst" using 1(3) by (auto simp: Cons a)
      show ?thesis
      proof (cases "q < lfst ! i")
        case True
        have "loop q lfst rest (if valid ! i then valid[i := False] else valid) = Some r"
          using 1(2) False i True by (auto simp: Cons a split: if_splits)
        from 1(1) [OF this rest] True \<open>q < n\<close> show ?thesis by (simp add: Cons a)
      next
        case c: False
        then have "loop q lfst l valid = Some r" using 1(2) False i by (auto simp: Cons a split: if_splits)
        from 1(1) [OF this 1(3)] show ?thesis .
      qed
    qed (auto simp: Cons a dest: leD)
  qed simp
qed

lemma takeWhile_desc:
  assumes "sorted_wrt (>) (map fst l)"
  shows "takeWhile (\<lambda>(n, _). (q :: InstSeqNum) < n) l = filter (\<lambda>(n, _). q < n) l"
    and "dropWhile (\<lambda>(n, _). q < n) l = filter (\<lambda>(n, _). n \<le> q) l"
proof -
  have "takeWhile (\<lambda>(n, _). q < n) l = filter (\<lambda>(n, _). q < n) l
    \<and> dropWhile (\<lambda>(n, _). q < n) l = filter (\<lambda>(n, _). n \<le> q) l"
    using assms
  proof (induction l)
    case (Cons a l)
    obtain n v where a: "a = (n, v)" by (cases a)
    show ?case
    proof (cases "q < n")
      case False
      then have old: "\<forall>(m, w) \<in> set l. m \<le> q" using Cons.prems by (fastforce simp: a)
      then have "filter (\<lambda>(n, _). q < n) l = []" "filter (\<lambda>(n, _). n \<le> q) l = l"
        unfolding filter_empty_conv filter_id_conv by (auto dest: leD)
      then show ?thesis using False by (auto simp: a dest: leD)
    qed (use Cons in \<open>simp add: a not_le\<close>)
  qed simp
  then show "takeWhile (\<lambda>(n, _). q < n) l = filter (\<lambda>(n, _). q < n) l"
    "dropWhile (\<lambda>(n, _). q < n) l = filter (\<lambda>(n, _). n \<le> q) l" by simp_all
qed

text \<open>
  C35. Exactly when a squash of the store sets returns. On well-formed tables, \<open>squash\<close> returns if
  and only if every pending store younger than the squash number belongs to a set whose last
  fetched store is younger too; then it removes exactly the younger stores and invalidates
  the last-fetched entries of their sets. Otherwise its loop runs forever.
\<close>

theorem store_set_squash_returns:
  assumes "ss_wf s"
  shows "ss_squash q s =
    (if (\<forall>(n, i) \<in> set (storeList s). q < n \<longrightarrow> q < LFST s ! i)
     then Some (Inr (s\<lparr>storeList := filter (\<lambda>(n, _). n \<le> q) (storeList s),
       validLFST := invalidate (filter (\<lambda>(n, _). q < n) (storeList s)) (validLFST s)\<rparr>))
     else None)"
proof -
  have w: "\<forall>(n, i) \<in> set (storeList s). i < length (LFST s)" "length (validLFST s) = length (LFST s)"
    and d: "sorted_wrt (>) (map fst (storeList s))"
    using assms by (auto simp: ss_wf_def)
  note tw = takeWhile_desc [OF d, of q]
  show ?thesis
  proof (cases "\<forall>(n, i) \<in> set (storeList s). q < n \<longrightarrow> q < LFST s ! i")
    case True
    then have "\<forall>(n, i) \<in> set (takeWhile (\<lambda>(n, _). q < n) (storeList s)). q < LFST s ! i" by (auto simp: tw)
    from ss_squash_loop_run [OF w this] show ?thesis unfolding if_P [OF True] by (simp add: ss_squash_def tw)
  next
    case False
    have "ss_squash_loop q (LFST s) (storeList s) (validLFST s) = None"
    proof (rule ccontr)
      assume "ss_squash_loop q (LFST s) (storeList s) (validLFST s) \<noteq> None"
      then obtain r where "ss_squash_loop q (LFST s) (storeList s) (validLFST s) = Some r" by blast
      from ss_squash_loop_returns [OF this w(1)] False show False by (auto simp: tw)
    qed
    then show ?thesis unfolding if_not_P [OF False] by (simp add: ss_squash_def)
  qed
qed

end
