(* ===== verification/FunctionUnits.thy ===== *)
theory FunctionUnits
  imports Prelude
begin

text \<open>
  The pool of functional units, \<^verbatim>\<open>src/cpu/o3/fu_pool.cc\<close> and \<^verbatim>\<open>fu_pool.hh\<close>: per operation class a
  circular queue of the units that provide it, the busy bits, and the units freed at the end
  of a cycle. An operation class is a number. The search of \<open>getUnit\<close> runs until it finds a
  free unit or meets its first unit again; \<open>None\<close> would be a search that does not end. The
  names of the units are not part of the model.
\<close>

record OpDesc =
  opClass :: nat
  opLat :: uint64
  op_pipelined :: bool

record FUDesc =
  fu_number :: nat
  opDescList :: "OpDesc list"

record FUIdxQueue =
  q_idx :: nat
  funcUnitsIdx :: "nat list"

record FuncUnit =
  opLatencies :: "nat \<Rightarrow> unsigned"
  fu_pipelined :: "nat \<Rightarrow> bool"
  fu_capabilityList :: "nat \<Rightarrow> bool"

record FUPool =
  maxOpLatencies :: "nat \<Rightarrow> uint64"
  pipelined :: "nat \<Rightarrow> bool"
  capabilityList :: "nat \<Rightarrow> bool"
  unitBusy :: "bool list"
  unitsToBeFreed :: "nat list"
  fuPerCapList :: "nat \<Rightarrow> FUIdxQueue"
  numFU :: nat
  funcUnits :: "FuncUnit list"

definition FuncUnit_new :: FuncUnit where
  "FuncUnit_new = \<lparr>opLatencies = (\<lambda>_. 0), fu_pipelined = (\<lambda>_. False), fu_capabilityList = (\<lambda>_. False)\<rparr>"

definition addCapability :: "nat \<Rightarrow> unsigned \<Rightarrow> bool \<Rightarrow> FuncUnit \<Rightarrow> FuncUnit result" where
  "addCapability cap oplat pipeline fu = checked (oplat \<noteq> 0) Panic
    (Inr (fu\<lparr>fu_capabilityList := (fu_capabilityList fu)(cap := True), opLatencies := (opLatencies fu)(cap := oplat),
      fu_pipelined := (fu_pipelined fu)(cap := pipeline)\<rparr>))"

definition fu_provides :: "nat \<Rightarrow> FuncUnit \<Rightarrow> bool" where
  "fu_provides capability fu = fu_capabilityList fu capability"

definition addFU :: "nat \<Rightarrow> FUIdxQueue \<Rightarrow> FUIdxQueue" where
  "addFU fu_idx q = q\<lparr>funcUnitsIdx := funcUnitsIdx q @ [fu_idx]\<rparr>"

definition getFU :: "FUIdxQueue \<Rightarrow> (nat \<times> FUIdxQueue) result" where
  "getFU q = checked (q_idx q < length (funcUnitsIdx q)) UndefinedBehaviour
    (Inr (funcUnitsIdx q ! q_idx q,
      q\<lparr>q_idx := if q_idx q + 1 = length (funcUnitsIdx q) then 0 else q_idx q + 1\<rparr>))"

text \<open>The latency, a 64-bit number of cycles, is passed to \<open>addCapability\<close> as an \<open>unsigned\<close>.\<close>

definition add_op :: "nat \<Rightarrow> OpDesc \<Rightarrow> FUPool \<times> FuncUnit \<Rightarrow> (FUPool \<times> FuncUnit) result" where
  "add_op number d = (\<lambda>(p, fu).
    bindE (addCapability (opClass d) (ucast (opLat d)) (op_pipelined d) fu) (\<lambda>fu'. Inr (p\<lparr>
      capabilityList := (capabilityList p)(opClass d := True),
      fuPerCapList := (fuPerCapList p)(opClass d :=
        fold (\<lambda>k. addFU (numFU p + k)) [0..<number] (fuPerCapList p (opClass d))),
      maxOpLatencies := (maxOpLatencies p)(opClass d := max (maxOpLatencies p (opClass d)) (opLat d)),
      pipelined := (pipelined p)(opClass d := pipelined p (opClass d) \<and> op_pipelined d)\<rparr>, fu')))"

definition add_desc :: "FUDesc \<Rightarrow> FUPool \<Rightarrow> FUPool result" where
  "add_desc i p =
    (if fu_number i \<noteq> 0
     then bindE (foldE (add_op (fu_number i)) (opDescList i) (p, FuncUnit_new)) (\<lambda>(p1, fu).
       Inr (p1\<lparr>numFU := numFU p1 + fu_number i, funcUnits := funcUnits p1 @ replicate (fu_number i) fu\<rparr>))
     else Inr p)"

definition empty_pool :: FUPool where
  "empty_pool = \<lparr>maxOpLatencies = (\<lambda>_. 0), pipelined = (\<lambda>_. True), capabilityList = (\<lambda>_. False),
    unitBusy = [], unitsToBeFreed = [], fuPerCapList = (\<lambda>_. \<lparr>q_idx = 0, funcUnitsIdx = []\<rparr>), numFU = 0, funcUnits = []\<rparr>"

definition FUPool_new :: "FUDesc list \<Rightarrow> FUPool result" where
  "FUPool_new paramList =
    bindE (foldE add_desc paramList empty_pool) (\<lambda>p. Inr (p\<lparr>unitBusy := replicate (numFU p) False\<rparr>))"

partial_function (option) fu_search ::
  "bool list \<Rightarrow> nat \<Rightarrow> nat \<Rightarrow> FUIdxQueue \<Rightarrow> (nat option \<times> FUIdxQueue) result option" where
  "fu_search busy start_idx fu_idx q =
    (if \<not> fu_idx < length busy then Some (Inl UndefinedBehaviour)
     else if busy ! fu_idx
     then (case getFU q of
         Inl e \<Rightarrow> Some (Inl e)
       | Inr (fu_idx', q') \<Rightarrow>
         if fu_idx' = start_idx then Some (Inr (None, q')) else fu_search busy start_idx fu_idx' q')
     else Some (Inr (Some fu_idx, q)))"

declare fu_search.simps [code]

definition set_queue :: "nat \<Rightarrow> FUIdxQueue \<Rightarrow> FUPool \<Rightarrow> FUPool" where
  "set_queue c q p = p\<lparr>fuPerCapList := (fuPerCapList p)(c := q)\<rparr>"

definition getUnit :: "nat \<Rightarrow> FUPool \<Rightarrow> (int \<times> FUPool) result option" where
  "getUnit capability p =
    (if \<not> capabilityList p capability then Some (Inr (- 2, p))
     else case getFU (fuPerCapList p capability) of
       Inl e \<Rightarrow> Some (Inl e)
     | Inr (fu_idx, q) \<Rightarrow>
       map_option (\<lambda>r. bindE r (\<lambda>(found, q').
         case found of
           None \<Rightarrow> Inr (- 1, set_queue capability q' p)
         | Some i \<Rightarrow> checked (i < numFU p) AssertFailed
             (Inr (int i, (set_queue capability q' p)\<lparr>unitBusy := (unitBusy p)[i := True]\<rparr>))))
         (fu_search (unitBusy p) fu_idx fu_idx q))"

definition freeUnitNextCycle :: "nat \<Rightarrow> FUPool \<Rightarrow> FUPool result" where
  "freeUnitNextCycle fu_idx p = checked (fu_idx < length (unitBusy p)) UndefinedBehaviour
    (checked (unitBusy p ! fu_idx) AssertFailed (Inr (p\<lparr>unitsToBeFreed := unitsToBeFreed p @ [fu_idx]\<rparr>)))"

text \<open>The units are freed from the back of the list.\<close>

fun free_loop :: "nat list \<Rightarrow> bool list \<Rightarrow> bool list result" where
  "free_loop [] busy = Inr busy"
| "free_loop (i # is) busy = checked (i < length busy) UndefinedBehaviour
    (checked (busy ! i) AssertFailed (free_loop is (busy[i := False])))"

definition processFreeUnits :: "FUPool \<Rightarrow> FUPool result" where
  "processFreeUnits p = bindE (free_loop (rev (unitsToBeFreed p)) (unitBusy p))
    (\<lambda>busy. Inr (p\<lparr>unitBusy := busy, unitsToBeFreed := []\<rparr>))"

definition fu_isDrained :: "FUPool \<Rightarrow> bool" where
  "fu_isDrained p = list_all (\<lambda>i. \<not> unitBusy p ! i) [0..<numFU p]"

subsection \<open>Well-formed pools\<close>

definition queue_ok :: "nat \<Rightarrow> FUIdxQueue \<Rightarrow> bool" where
  "queue_ok n q \<longleftrightarrow> distinct (funcUnitsIdx q) \<and> (\<forall>i \<in> set (funcUnitsIdx q). i < n)
    \<and> (funcUnitsIdx q = [] \<longrightarrow> q_idx q = 0) \<and> (funcUnitsIdx q \<noteq> [] \<longrightarrow> q_idx q < length (funcUnitsIdx q))"

definition pool_ok :: "FUPool \<Rightarrow> bool" where
  "pool_ok p \<longleftrightarrow> length (unitBusy p) = numFU p
    \<and> (\<forall>c. queue_ok (numFU p) (fuPerCapList p c) \<and> (capabilityList p c \<longleftrightarrow> funcUnitsIdx (fuPerCapList p c) \<noteq> []))"

lemma addFU_list: "fold (\<lambda>k. addFU (b + k)) [0..<n] q = q\<lparr>funcUnitsIdx := funcUnitsIdx q @ [b..<b + n]\<rparr>"
  by (induction n) (simp_all add: addFU_def)

text \<open>What the operations of one description add to the queue of a class.\<close>

lemma add_ops_queues:
  assumes "foldE (add_op n) ds (p, fu) = Inr (p', fu')" and "distinct (map opClass ds)"
  shows "numFU p' = numFU p
    \<and> fuPerCapList p' c = (fuPerCapList p c)\<lparr>funcUnitsIdx := funcUnitsIdx (fuPerCapList p c)
        @ (if c \<in> opClass ` set ds then [numFU p..<numFU p + n] else [])\<rparr>
    \<and> (capabilityList p' c \<longleftrightarrow> capabilityList p c \<or> c \<in> opClass ` set ds)"
  using assms
proof (induction ds arbitrary: p fu)
  case Nil
  then show ?case by simp
next
  case (Cons d ds)
  obtain p1 fu1 where one: "add_op n d (p, fu) = Inr (p1, fu1)" and rest: "foldE (add_op n) ds (p1, fu1) = Inr (p', fu')"
    using Cons.prems(1) by (auto simp: result_simps)
  have "numFU p1 = numFU p"
    "fuPerCapList p1 c = (fuPerCapList p c)\<lparr>funcUnitsIdx := funcUnitsIdx (fuPerCapList p c)
       @ (if c = opClass d then [numFU p..<numFU p + n] else [])\<rparr>"
    "capabilityList p1 c \<longleftrightarrow> capabilityList p c \<or> c = opClass d"
    using one by (auto simp: add_op_def result_simps addFU_list)
  with Cons.IH [OF rest] Cons.prems(2) show ?case by auto
qed

definition queues_ok :: "FUPool \<Rightarrow> bool" where
  "queues_ok p \<longleftrightarrow> (\<forall>c. queue_ok (numFU p) (fuPerCapList p c)
    \<and> (capabilityList p c \<longleftrightarrow> funcUnitsIdx (fuPerCapList p c) \<noteq> []) \<and> q_idx (fuPerCapList p c) = 0)"

lemma add_desc_ok:
  assumes "add_desc i p = Inr p'" and "queues_ok p" and "distinct (map opClass (opDescList i))"
  shows "queues_ok p'"
proof (cases "fu_number i = 0")
  case True
  with assms(1,2) show ?thesis by (simp add: add_desc_def)
next
  case False
  then obtain p1 fu where run: "foldE (add_op (fu_number i)) (opDescList i) (p, FuncUnit_new) = Inr (p1, fu)"
    and p': "p' = p1\<lparr>numFU := numFU p1 + fu_number i, funcUnits := funcUnits p1 @ replicate (fu_number i) fu\<rparr>"
    using assms(1) by (auto simp: add_desc_def result_simps)
  note q = add_ops_queues [OF run assms(3)]
  have "queue_ok (numFU p + fu_number i) (fuPerCapList p1 c)
    \<and> (capabilityList p1 c \<longleftrightarrow> funcUnitsIdx (fuPerCapList p1 c) \<noteq> []) \<and> q_idx (fuPerCapList p1 c) = 0" for c
  proof -
    have "queue_ok (numFU p) (fuPerCapList p c)" "capabilityList p c \<longleftrightarrow> funcUnitsIdx (fuPerCapList p c) \<noteq> []"
      "q_idx (fuPerCapList p c) = 0" using assms(2) by (simp_all add: queues_ok_def)
    then show ?thesis using q [of c] False by (auto simp: queue_ok_def)
  qed
  then show ?thesis using q by (simp add: queues_ok_def p')
qed

lemma FUPool_new_ok:
  assumes "FUPool_new descs = Inr p" and "list_all (\<lambda>i. distinct (map opClass (opDescList i))) descs"
  shows "pool_ok p \<and> (\<forall>i < numFU p. \<not> unitBusy p ! i)"
proof -
  obtain p0 where run: "foldE add_desc descs empty_pool = Inr p0" and p: "p = p0\<lparr>unitBusy := replicate (numFU p0) False\<rparr>"
    using assms(1) by (auto simp: FUPool_new_def result_simps)
  have "queues_ok empty_pool" by (simp add: queues_ok_def queue_ok_def empty_pool_def)
  then have "queues_ok p0" using assms(2) add_desc_ok
    by (intro foldE_inv [OF run, of queues_ok]) (auto simp: list_all_iff)
  then show ?thesis by (auto simp: pool_ok_def queues_ok_def p)
qed

subsection \<open>The search\<close>

text \<open>The unit at an offset from the head of a circular queue, and the queue after taking it.\<close>

definition cyc :: "FUIdxQueue \<Rightarrow> nat \<Rightarrow> nat" where
  "cyc q d = funcUnitsIdx q ! ((q_idx q + d) mod length (funcUnitsIdx q))"

definition past :: "FUIdxQueue \<Rightarrow> nat \<Rightarrow> FUIdxQueue" where
  "past q d = q\<lparr>q_idx := (q_idx q + d) mod length (funcUnitsIdx q)\<rparr>"

lemma wrap_mod: "x < n \<Longrightarrow> (if x + 1 = n then 0 else x + 1) = (x + 1) mod (n :: nat)"
  by (auto simp: mod_Suc)

lemma getFU_past:
  assumes "funcUnitsIdx q \<noteq> []"
  shows "getFU (past q d) = Inr (cyc q d, past q (Suc d))"
proof -
  let ?n = "length (funcUnitsIdx q)"
  have less: "(q_idx q + d) mod ?n < ?n" using assms by simp
  have wrap: "(if (q_idx q + d) mod ?n + 1 = ?n then 0 else (q_idx q + d) mod ?n + 1) = (q_idx q + Suc d) mod ?n"
    unfolding wrap_mod [OF less] by (simp add: mod_simps)
  with less show ?thesis by (simp add: getFU_def past_def cyc_def split: if_splits)
qed

lemma cyc_rotate: "d < length (funcUnitsIdx q) \<Longrightarrow> cyc q d = rotate (q_idx q) (funcUnitsIdx q) ! d"
  by (simp add: cyc_def nth_rotate)

lemma cyc_inj:
  assumes "distinct (funcUnitsIdx q)" and "d < length (funcUnitsIdx q)" and "0 < d"
  shows "cyc q d \<noteq> cyc q 0"
  using assms order.strict_trans [OF assms(3,2)] by (simp add: cyc_rotate nth_eq_iff_index_eq)

lemma cyc_set: "set (funcUnitsIdx q) = cyc q ` {..<length (funcUnitsIdx q)}"
proof -
  have "set (funcUnitsIdx q) = set (rotate (q_idx q) (funcUnitsIdx q))" by simp
  also have "\<dots> = cyc q ` {..<length (funcUnitsIdx q)}"
    by (force simp only: set_conv_nth length_rotate cyc_rotate)
  finally show ?thesis .
qed

lemma cyc_round: "cyc q (length (funcUnitsIdx q)) = cyc q 0"
  by (simp add: cyc_def)

lemma fu_search_run:
  assumes q: "distinct (funcUnitsIdx q)" "funcUnitsIdx q \<noteq> []" "\<forall>i \<in> set (funcUnitsIdx q). i < length busy"
    and "d < length (funcUnitsIdx q)"
  shows "fu_search busy (cyc q 0) (cyc q d) (past q (Suc d)) =
    Some (Inr (case find (\<lambda>e. \<not> busy ! cyc q e) [d..<length (funcUnitsIdx q)] of
      Some e \<Rightarrow> (Some (cyc q e), past q (Suc e))
    | None \<Rightarrow> (None, past q (Suc (length (funcUnitsIdx q))))))"
  using assms(4)
proof (induction "length (funcUnitsIdx q) - d" arbitrary: d)
  case 0
  then show ?case by simp
next
  case (Suc k)
  let ?n = "length (funcUnitsIdx q)"
  have in_range: "cyc q d < length busy" using q(2,3) by (simp add: cyc_def)
  have upt: "[d..<?n] = d # [Suc d..<?n]" using Suc.prems by (simp add: upt_conv_Cons)
  show ?case
  proof (cases "busy ! cyc q d")
    case False
    then show ?thesis using in_range by (subst fu_search.simps) (simp add: upt)
  next
    case busy: True
    show ?thesis
    proof (cases "Suc d = ?n")
      case True
      then show ?thesis using busy in_range
        by (subst fu_search.simps) (simp add: upt getFU_past [OF q(2)] cyc_round)
    next
      case False
      then have "Suc d < ?n" using Suc.prems by simp
      moreover have "k = ?n - Suc d" using Suc.hyps(2) by simp
      ultimately have "fu_search busy (cyc q 0) (cyc q (Suc d)) (past q (Suc (Suc d))) =
        Some (Inr (case find (\<lambda>e. \<not> busy ! cyc q e) [Suc d..<?n] of
          Some e \<Rightarrow> (Some (cyc q e), past q (Suc e)) | None \<Rightarrow> (None, past q (Suc ?n))))"
        by (intro Suc.hyps(1))
      then show ?thesis using busy in_range cyc_inj [OF q(1) \<open>Suc d < ?n\<close>]
        by (subst fu_search.simps) (simp add: upt getFU_past [OF q(2)])
    qed
  qed
qed

text \<open>
  C13. \<open>getUnit\<close> returns and is exact. In a well-formed pool the search ends for every operation
  class. It answers \<open>-2\<close> exactly when no unit has the capability, \<open>-1\<close> exactly when all units with it
  are busy, and otherwise the first free unit in circular order from the head of the queue of
  that class, which it marks busy, leaving the head just behind it. Only this unit's busy bit
  and this queue's head change, and the pool stays well-formed.
\<close>

theorem getUnit_exact:
  assumes "pool_ok p"
  shows "\<exists>r p'. getUnit c p = Some (Inr (r, p')) \<and> pool_ok p'
    \<and> (let units = funcUnitsIdx (fuPerCapList p c); q = fuPerCapList p c in
       if units = [] then r = - 2 \<and> p' = p
       else if \<forall>i \<in> set units. unitBusy p ! i then r = - 1 \<and> p' = set_queue c (past q 1) p
       else \<exists>e < length units. r = int (cyc q e) \<and> \<not> unitBusy p ! cyc q e \<and> (\<forall>d < e. unitBusy p ! cyc q d)
         \<and> p' = (set_queue c (past q (Suc e)) p)\<lparr>unitBusy := (unitBusy p)[cyc q e := True]\<rparr>)"
proof -
  define q where "q = fuPerCapList p c"
  let ?n = "length (funcUnitsIdx q)"
  have qok: "queue_ok (numFU p) q" and len: "length (unitBusy p) = numFU p"
    and cap: "capabilityList p c \<longleftrightarrow> funcUnitsIdx q \<noteq> []" using assms by (simp_all add: pool_ok_def q_def)
  have keep: "pool_ok (set_queue c (past q k) p)" if "funcUnitsIdx q \<noteq> []" for k
    using assms that qok cap by (auto simp: pool_ok_def set_queue_def past_def queue_ok_def q_def)
  show ?thesis
  proof (cases "funcUnitsIdx q = []")
    case True
    then show ?thesis using cap assms by (simp add: getUnit_def q_def [symmetric])
  next
    case ne: False
    have range: "\<forall>i \<in> set (funcUnitsIdx q). i < length (unitBusy p)" using qok len by (simp add: queue_ok_def)
    have idx: "past q 0 = q" using qok ne by (simp add: past_def queue_ok_def)
    have dist: "distinct (funcUnitsIdx q)" using qok by (simp add: queue_ok_def)
    have n0: "0 < ?n" using ne by simp
    note get = getFU_past [OF ne, of 0, unfolded idx]
    note run = fu_search_run [OF dist ne range n0]
    show ?thesis
    proof (cases "find (\<lambda>e. \<not> unitBusy p ! cyc q e) [0..<?n]")
      case None
      then have "\<forall>i \<in> set (funcUnitsIdx q). unitBusy p ! i" by (auto simp: find_None_iff cyc_set [of q])
      moreover have "past q (Suc ?n) = past q 1"
        using mod_add_self2 [of "Suc (q_idx q)" ?n] by (simp add: past_def)
      ultimately show ?thesis using None run get ne cap keep [OF ne, of 1]
        by (simp add: getUnit_def q_def [symmetric])
    next
      case (Some e)
      then have e: "e < ?n" "\<not> unitBusy p ! cyc q e" "\<forall>d<e. unitBusy p ! cyc q d"
        by (auto simp: find_Some_iff)
      have i: "cyc q e < numFU p" using range len ne by (simp add: cyc_def)
      have "\<not> (\<forall>i \<in> set (funcUnitsIdx q). unitBusy p ! i)" using e(1,2) by (auto simp: cyc_set [of q])
      moreover have "pool_ok ((set_queue c (past q (Suc e)) p)\<lparr>unitBusy := (unitBusy p)[cyc q e := True]\<rparr>)"
        using keep [OF ne, of "Suc e"] by (simp add: pool_ok_def set_queue_def)
      ultimately show ?thesis using Some run get ne cap e i
        by (simp add: getUnit_def q_def [symmetric]) blast
    qed
  qed
qed

text \<open>A pool of three units of class 1, one of them also of class 2.\<close>

definition demo_pool :: "FUPool result" where
  "demo_pool = FUPool_new [
    \<lparr>fu_number = 2, opDescList = [\<lparr>opClass = 1, opLat = 1, op_pipelined = True\<rparr>]\<rparr>,
    \<lparr>fu_number = 1, opDescList = [\<lparr>opClass = 1, opLat = 3, op_pipelined = False\<rparr>,
      \<lparr>opClass = 2, opLat = 9, op_pipelined = True\<rparr>]\<rparr>]"

theorem getUnit_exact_witness:
  "\<exists>p. demo_pool = Inr p \<and> pool_ok p \<and> getUnit 3 p = Some (Inr (- 2, p))
    \<and> (\<exists>p'. getUnit 2 p = Some (Inr (2, p')) \<and> unitBusy p' = [False, False, True])"
proof -
  have "(case demo_pool of Inl _ \<Rightarrow> False | Inr p \<Rightarrow> fuPerCapList p 2 = \<lparr>q_idx = 0, funcUnitsIdx = [2]\<rparr>
    \<and> funcUnitsIdx (fuPerCapList p 3) = [] \<and> unitBusy p = [False, False, False])" by code_simp
  then obtain p where p: "demo_pool = Inr p" and q: "fuPerCapList p 2 = \<lparr>q_idx = 0, funcUnitsIdx = [2]\<rparr>"
    "funcUnitsIdx (fuPerCapList p 3) = []" "unitBusy p = [False, False, False]" by (auto split: sum.splits)
  have ok: "pool_ok p" using FUPool_new_ok [OF p [unfolded demo_pool_def]] by simp
  have "getUnit 3 p = Some (Inr (- 2, p))
    \<and> (\<exists>p'. getUnit 2 p = Some (Inr (2, p')) \<and> unitBusy p' = [False, False, True])"
    using getUnit_exact [OF ok, of 2] getUnit_exact [OF ok, of 3] by (simp add: q cyc_def Let_def)
  with p ok show ?thesis by blast
qed

end
