(* ===== verification/ReturnStack.thy ===== *)
theory ReturnStack
  imports Prelude
begin

text \<open>
  The return address stack of the branch predictor, \<^verbatim>\<open>src/cpu/pred/ras.cc\<close> and \<^verbatim>\<open>ras.hh\<close>: a ring
  of \<open>numEntries\<close> pointers to return addresses, the index of its top and the number of entries in
  use. A null pointer is \<open>None\<close>. The \<open>unsigned\<close> indices are numbers with their wrap-around written
  out. The stack is abstracted to the list of its used entries, newest first.
\<close>

record 'pc ReturnAddrStack =
  addrStack :: "'pc option list"
  ras_numEntries :: nat
  usedEntries :: nat
  tos :: nat

definition ras_reset :: "'pc ReturnAddrStack \<Rightarrow> 'pc ReturnAddrStack" where
  "ras_reset s = s\<lparr>usedEntries := 0, tos := 0\<rparr>"

definition ras_init :: "nat \<Rightarrow> 'pc ReturnAddrStack" where
  "ras_init n = ras_reset \<lparr>addrStack = replicate n None, ras_numEntries = n, usedEntries = 0, tos = 0\<rparr>"

definition incrTos :: "'pc ReturnAddrStack \<Rightarrow> 'pc ReturnAddrStack" where
  "incrTos s = (let t = (tos s + 1) mod 2 ^ 32 in s\<lparr>tos := if t = ras_numEntries s then 0 else t\<rparr>)"

definition decrTos :: "'pc ReturnAddrStack \<Rightarrow> 'pc ReturnAddrStack" where
  "decrTos s = s\<lparr>tos := if tos s = 0 then (ras_numEntries s + 2 ^ 32 - 1) mod 2 ^ 32 else tos s - 1\<rparr>"

definition ras_top :: "'pc ReturnAddrStack \<Rightarrow> 'pc option result" where
  "ras_top s = checked (tos s < length (addrStack s)) UndefinedBehaviour (Inr (addrStack s ! tos s))"

definition topIdx :: "'pc ReturnAddrStack \<Rightarrow> nat" where
  "topIdx s = tos s"

definition ras_empty :: "'pc ReturnAddrStack \<Rightarrow> bool" where
  "ras_empty s \<longleftrightarrow> usedEntries s = 0"

definition ras_full :: "'pc ReturnAddrStack \<Rightarrow> bool" where
  "ras_full s \<longleftrightarrow> usedEntries s = ras_numEntries s"

text \<open>Both \<open>push\<close> and \<open>restore\<close> write the top entry and count it as used unless all are.\<close>

definition write_top :: "'pc option \<Rightarrow> 'pc ReturnAddrStack \<Rightarrow> 'pc ReturnAddrStack result" where
  "write_top a s = checked (tos s < length (addrStack s)) UndefinedBehaviour
    (Inr (s\<lparr>addrStack := (addrStack s)[tos s := a],
      usedEntries := if usedEntries s \<noteq> ras_numEntries s then (usedEntries s + 1) mod 2 ^ 32 else usedEntries s\<rparr>))"

definition ras_push :: "'pc \<Rightarrow> 'pc ReturnAddrStack \<Rightarrow> 'pc ReturnAddrStack result" where
  "ras_push return_addr s = write_top (Some return_addr) (incrTos s)"

definition ras_pop :: "'pc ReturnAddrStack \<Rightarrow> 'pc ReturnAddrStack" where
  "ras_pop s = decrTos (if usedEntries s > 0 then s\<lparr>usedEntries := usedEntries s - 1\<rparr> else s)"

definition ras_restore :: "nat \<Rightarrow> 'pc option \<Rightarrow> 'pc ReturnAddrStack \<Rightarrow> 'pc ReturnAddrStack result" where
  "ras_restore top_entry_idx restored s = write_top restored (s\<lparr>tos := top_entry_idx\<rparr>)"

subsection \<open>Well-formed stacks and their contents\<close>

definition ras_wf :: "'pc ReturnAddrStack \<Rightarrow> bool" where
  "ras_wf s \<longleftrightarrow> length (addrStack s) = ras_numEntries s \<and> ras_numEntries s < 2 ^ 32
    \<and> tos s < ras_numEntries s \<and> usedEntries s \<le> ras_numEntries s"

text \<open>The entry at a depth below the top, and the used entries.\<close>

definition ras_slot :: "nat \<Rightarrow> nat \<Rightarrow> nat \<Rightarrow> nat" where
  "ras_slot n t k = (if k \<le> t then t - k else t + n - k)"

definition ras_abs :: "'pc ReturnAddrStack \<Rightarrow> 'pc option list" where
  "ras_abs s = map (\<lambda>k. addrStack s ! ras_slot (ras_numEntries s) (tos s) k) [0..<usedEntries s]"

lemma ras_init_wf: "0 < n \<Longrightarrow> n < 2 ^ 32 \<Longrightarrow> ras_wf (ras_init n) \<and> ras_abs (ras_init n) = []"
  by (simp add: ras_wf_def ras_init_def ras_reset_def ras_abs_def)

lemma incrTos_tos:
  assumes "ras_wf s"
  shows "incrTos s = s\<lparr>tos := if tos s + 1 = ras_numEntries s then 0 else tos s + 1\<rparr>"
  using assms by (simp add: incrTos_def Let_def ras_wf_def)

lemma decrTos_tos:
  assumes "ras_wf s"
  shows "decrTos s = s\<lparr>tos := if tos s = 0 then ras_numEntries s - 1 else tos s - 1\<rparr>"
proof -
  have "(ras_numEntries s + 2 ^ 32 - 1) mod 2 ^ 32 = ras_numEntries s - 1" if "tos s < ras_numEntries s" "ras_numEntries s < 2 ^ 32"
  proof -
    have "ras_numEntries s + 2 ^ 32 - 1 = (ras_numEntries s - 1) + 2 ^ 32" using that by simp
    then show ?thesis using that by (simp only: mod_add_self2 mod_less)
  qed
  then show ?thesis using assms by (simp add: decrTos_def ras_wf_def)
qed

lemma ras_push_eq:
  assumes "ras_wf s"
  shows "ras_push a s = Inr (s\<lparr>tos := tos (incrTos s), addrStack := (addrStack s)[tos (incrTos s) := Some a],
    usedEntries := min (ras_numEntries s) (usedEntries s + 1)\<rparr>)"
  using assms by (auto simp: ras_push_def write_top_def incrTos_tos ras_wf_def)

lemma ras_pop_eq:
  assumes "ras_wf s"
  shows "ras_pop s = s\<lparr>tos := tos (decrTos s), usedEntries := usedEntries s - 1\<rparr>"
proof -
  have "ras_wf (s\<lparr>usedEntries := usedEntries s - 1\<rparr>)" using assms by (auto simp: ras_wf_def)
  then show ?thesis using assms by (auto simp: ras_pop_def decrTos_tos)
qed

lemma ras_restore_eq:
  assumes "ras_wf s" and "i < ras_numEntries s"
  shows "ras_restore i a s = Inr (s\<lparr>tos := i, addrStack := (addrStack s)[i := a],
    usedEntries := min (ras_numEntries s) (usedEntries s + 1)\<rparr>)"
  using assms by (auto simp: ras_restore_def write_top_def ras_wf_def)

lemma ras_ops_wf:
  assumes "ras_wf s"
  shows "ras_push a s = Inr s' \<Longrightarrow> ras_wf s'" and "ras_wf (ras_pop s)"
    and "i < ras_numEntries s \<Longrightarrow> ras_restore i b s = Inr s' \<Longrightarrow> ras_wf s'"
  using assms by (auto simp: ras_push_eq ras_pop_eq ras_restore_eq incrTos_tos decrTos_tos ras_wf_def)

lemma ras_slot_less: "t < n \<Longrightarrow> k < n \<Longrightarrow> ras_slot n t k < n"
  by (auto simp: ras_slot_def)

lemma ras_slot_inj: "t < n \<Longrightarrow> k < n \<Longrightarrow> j < n \<Longrightarrow> ras_slot n t k = ras_slot n t j \<Longrightarrow> k = j"
  by (auto simp: ras_slot_def split: if_splits)

lemma ras_slot_incr: "t < n \<Longrightarrow> Suc k \<le> n \<Longrightarrow> ras_slot n (if t + 1 = n then 0 else t + 1) (Suc k) = ras_slot n t k"
  by (auto simp: ras_slot_def)

lemma ras_slot_decr: "t < n \<Longrightarrow> Suc k < n \<Longrightarrow> ras_slot n (if t = 0 then n - 1 else t - 1) k = ras_slot n t (Suc k)"
  by (auto simp: ras_slot_def)

lemma ras_slot_0 [simp]: "ras_slot n t 0 = t"
  by (simp add: ras_slot_def)

lemma ras_push_abs:
  assumes "ras_wf s" and "ras_push a s = Inr s'"
  shows "ras_abs s' = take (ras_numEntries s) (Some a # ras_abs s)"
proof (rule nth_equalityI)
  let ?n = "ras_numEntries s"
  let ?t = "tos (incrTos s)"
  have s': "s' = s\<lparr>tos := ?t, addrStack := (addrStack s)[?t := Some a], usedEntries := min ?n (usedEntries s + 1)\<rparr>"
    using assms by (simp add: ras_push_eq)
  have t: "?t < ?n" "tos s < ?n" and n: "length (addrStack s) = ?n" using assms(1) by (auto simp: incrTos_tos ras_wf_def)
  show "length (ras_abs s') = length (take ?n (Some a # ras_abs s))" by (simp add: s' ras_abs_def)
  fix k
  assume "k < length (ras_abs s')"
  then have k: "k < ?n" "k < usedEntries s + 1" by (simp_all add: s' ras_abs_def)
  show "ras_abs s' ! k = take ?n (Some a # ras_abs s) ! k"
  proof (cases k)
    case 0
    then show ?thesis using k t n by (simp add: s' ras_abs_def nth_append)
  next
    case (Suc j)
    have "ras_slot ?n ?t k \<noteq> ?t" using ras_slot_inj [of ?t ?n k 0] t k Suc by auto
    moreover have "ras_slot ?n ?t k = ras_slot ?n (tos s) j"
      using ras_slot_incr [of "tos s" ?n j] t k Suc assms(1) by (simp add: incrTos_tos)
    ultimately show ?thesis using k Suc by (simp add: s' ras_abs_def)
  qed
qed

lemma ras_pop_abs:
  assumes "ras_wf s"
  shows "ras_abs (ras_pop s) = tl (ras_abs s)"
proof (rule nth_equalityI)
  show "length (ras_abs (ras_pop s)) = length (tl (ras_abs s))" using assms by (simp add: ras_abs_def ras_pop_eq)
  fix k
  assume "k < length (ras_abs (ras_pop s))"
  then have k: "Suc k < usedEntries s" using assms by (simp add: ras_abs_def ras_pop_eq)
  then have "ras_slot (ras_numEntries s) (tos (decrTos s)) k = ras_slot (ras_numEntries s) (tos s) (Suc k)"
    using assms ras_slot_decr [of "tos s" "ras_numEntries s" k] by (simp add: decrTos_tos ras_wf_def)
  then show "ras_abs (ras_pop s) ! k = tl (ras_abs s) ! k"
    using k less_diff_conv [of k "usedEntries s" 1] assms by (simp add: ras_abs_def ras_pop_eq nth_tl)
qed

lemma ras_top_abs: "ras_wf s \<Longrightarrow> ras_abs s \<noteq> [] \<Longrightarrow> ras_top s = Inr (hd (ras_abs s))"
  by (simp add: ras_abs_def ras_top_def ras_wf_def hd_map)

lemma ras_restore_pop:
  assumes "ras_wf s" and "ras_abs s \<noteq> []"
  shows "ras_restore (topIdx s) (hd (ras_abs s)) (ras_pop s) = Inr s"
proof -
  have u: "0 < usedEntries s" "usedEntries s \<le> ras_numEntries s" "tos s < ras_numEntries s"
    using assms by (simp_all add: ras_abs_def ras_wf_def)
  have pop: "ras_wf (ras_pop s)" using assms(1) by (rule ras_ops_wf)
  have "hd (ras_abs s) = addrStack s ! tos s" using u(1) by (simp add: ras_abs_def hd_map)
  then show ?thesis using u ras_restore_eq [OF pop, of "tos s"] assms(1)
    by (simp add: topIdx_def ras_pop_eq)
qed

text \<open>
  C15. The return address stack is a bounded stack. On every well-formed stack a push puts the
  address on top and keeps the newest \<open>numEntries\<close> addresses, a pop removes the top, \<open>top\<close> reads
  it, and restoring the recorded top after a pop gives back exactly the stack before the pop.
\<close>

theorem return_stack_refines:
  assumes "ras_wf s"
  shows "(\<exists>s'. ras_push a s = Inr s' \<and> ras_wf s' \<and> ras_abs s' = take (ras_numEntries s) (Some a # ras_abs s))
    \<and> ras_wf (ras_pop s) \<and> ras_abs (ras_pop s) = tl (ras_abs s)
    \<and> (ras_empty s \<longleftrightarrow> ras_abs s = []) \<and> (ras_full s \<longleftrightarrow> length (ras_abs s) = ras_numEntries s)
    \<and> (ras_abs s \<noteq> [] \<longrightarrow> ras_top s = Inr (hd (ras_abs s))
        \<and> ras_restore (topIdx s) (hd (ras_abs s)) (ras_pop s) = Inr s)"
proof -
  obtain s' where push: "ras_push a s = Inr s'" using ras_push_eq [OF assms] by blast
  show ?thesis
    using push ras_ops_wf(1) [OF assms push] ras_push_abs [OF assms push] ras_ops_wf(2) [OF assms]
      ras_pop_abs [OF assms] ras_top_abs [OF assms] ras_restore_pop [OF assms]
    by (simp add: ras_empty_def ras_full_def ras_abs_def)
qed

theorem return_stack_refines_witness:
  "ras_wf \<lparr>addrStack = [Some (10 :: nat), Some 11], ras_numEntries = 2, usedEntries = 2, tos = 0\<rparr>
    \<and> (\<exists>s'. ras_push 12 \<lparr>addrStack = [Some (10 :: nat), Some 11], ras_numEntries = 2, usedEntries = 2, tos = 0\<rparr> = Inr s'
      \<and> ras_abs s' = [Some 12, Some 10])"
proof -
  let ?s = "\<lparr>addrStack = [Some (10 :: nat), Some 11], ras_numEntries = 2, usedEntries = 2, tos = 0\<rparr>"
  have wf: "ras_wf ?s" by (simp add: ras_wf_def)
  have "ras_abs ?s = [Some 10, Some 11]" by code_simp
  then show ?thesis using wf return_stack_refines [OF wf, of 12] by (auto simp: numeral_2_eq_2)
qed

end
