(* ===== verification/BranchTargets.thy ===== *)
theory BranchTargets
  imports IntMath
begin

unbundle bit_operations_syntax

text \<open>
  The branch target buffer, \<^verbatim>\<open>src/cpu/pred/btb.cc\<close> and \<^verbatim>\<open>btb.hh\<close>: a direct-mapped table of targets,
  indexed by the branch address and the thread. The thread of an entry that was never written
  is not initialised and never read; the model gives it the value 0. A shift of an address by
  64 or more, undefined in C++, is not distinguished from the zero the model gives.
\<close>

record 'pc BTBEntry =
  btb_tag :: Addr
  btb_target :: "'pc option"
  btb_tid :: ThreadID
  btb_entry_valid :: bool

record 'pc DefaultBTB =
  btb_table :: "'pc BTBEntry list"
  btb_numEntries :: unsigned
  idxMask :: unsigned
  tagMask :: unsigned
  btb_instShiftAmt :: unsigned
  tagShiftAmt :: unsigned
  log2NumThreads :: unsigned

definition DefaultBTB_new :: "unsigned \<Rightarrow> unsigned \<Rightarrow> unsigned \<Rightarrow> unsigned \<Rightarrow> 'pc DefaultBTB result" where
  "DefaultBTB_new entries tag_bits shift num_threads =
    bindE (floorLog2 (ucast num_threads)) (\<lambda>log_threads.
      checked (isPowerOf2 (ucast entries)) Fatal
        (checked (tag_bits < 31) UndefinedBehaviour
          (bindE (floorLog2 (ucast entries)) (\<lambda>log_entries.
            Inr \<lparr>btb_table = replicate (unat entries) \<lparr>btb_tag = 0, btb_target = None, btb_tid = 0, btb_entry_valid = False\<rparr>,
              btb_numEntries = entries, idxMask = entries - 1, tagMask = push_bit (unat tag_bits) 1 - 1,
              btb_instShiftAmt = shift, tagShiftAmt = shift + word_of_int log_entries,
              log2NumThreads = word_of_int log_threads\<rparr>))))"

definition btb_reset :: "'pc DefaultBTB \<Rightarrow> 'pc DefaultBTB" where
  "btb_reset b = b\<lparr>btb_table := map (\<lambda>e. e\<lparr>btb_entry_valid := False\<rparr>) (btb_table b)\<rparr>"

text \<open>The thread id is shifted as an \<open>int\<close>.\<close>

definition btb_getIndex :: "Addr \<Rightarrow> ThreadID \<Rightarrow> 'pc DefaultBTB \<Rightarrow> nat result" where
  "btb_getIndex instPC tid b =
    (let k = unat (tagShiftAmt b - btb_instShiftAmt b - log2NumThreads b) in
     checked (k < 32 \<and> tid * 2 ^ k < 2 ^ 31) UndefinedBehaviour
       (Inr (unat ((drop_bit (unat (btb_instShiftAmt b)) instPC XOR push_bit k (of_nat tid)) AND ucast (idxMask b)))))"

definition btb_getTag :: "Addr \<Rightarrow> 'pc DefaultBTB \<Rightarrow> Addr" where
  "btb_getTag instPC b = drop_bit (unat (tagShiftAmt b)) instPC AND ucast (tagMask b)"

definition btb_hit :: "Addr \<Rightarrow> ThreadID \<Rightarrow> nat \<Rightarrow> 'pc DefaultBTB \<Rightarrow> bool" where
  "btb_hit instPC tid i b \<longleftrightarrow> btb_entry_valid (btb_table b ! i) \<and> btb_getTag instPC b = btb_tag (btb_table b ! i) \<and> btb_tid (btb_table b ! i) = tid"

definition btb_valid :: "Addr \<Rightarrow> ThreadID \<Rightarrow> 'pc DefaultBTB \<Rightarrow> bool result" where
  "btb_valid instPC tid b = bindE (btb_getIndex instPC tid b) (\<lambda>i.
    checked (i < unat (btb_numEntries b)) AssertFailed (Inr (btb_hit instPC tid i b)))"

definition btb_lookup :: "Addr \<Rightarrow> ThreadID \<Rightarrow> 'pc DefaultBTB \<Rightarrow> 'pc option result" where
  "btb_lookup inst_pc tid b = bindE (btb_getIndex inst_pc tid b) (\<lambda>i.
    checked (i < unat (btb_numEntries b)) AssertFailed
      (Inr (if btb_hit inst_pc tid i b then btb_target (btb_table b ! i) else None)))"

definition btb_update :: "Addr \<Rightarrow> 'pc \<Rightarrow> ThreadID \<Rightarrow> 'pc DefaultBTB \<Rightarrow> 'pc DefaultBTB result" where
  "btb_update inst_pc target tid b = bindE (btb_getIndex inst_pc tid b) (\<lambda>i.
    checked (i < unat (btb_numEntries b)) AssertFailed
      (Inr (b\<lparr>btb_table := (btb_table b)[i := \<lparr>btb_tag = btb_getTag inst_pc b, btb_target = Some target, btb_tid = tid,
        btb_entry_valid = True\<rparr>]\<rparr>)))"

subsection \<open>Well-formed tables\<close>

text \<open>Valid entries have a target, and the thread ids in use do not overflow the index hash.\<close>

definition btb_wf :: "nat \<Rightarrow> 'pc DefaultBTB \<Rightarrow> bool" where
  "btb_wf threads b \<longleftrightarrow> btb_numEntries b \<noteq> 0 \<and> length (btb_table b) = unat (btb_numEntries b) \<and> idxMask b = btb_numEntries b - 1
    \<and> (\<forall>tid < threads. \<exists>i. btb_getIndex 0 tid b = Inr i)
    \<and> (\<forall>e \<in> set (btb_table b). btb_entry_valid e \<longrightarrow> btb_target e \<noteq> None)"

lemma btb_getIndex_total:
  assumes "btb_wf threads b" and "tid < threads"
  shows "\<exists>i. btb_getIndex pc tid b = Inr i \<and> i < unat (btb_numEntries b)"
proof -
  have n: "btb_numEntries b \<noteq> 0" "idxMask b = btb_numEntries b - 1" using assms(1) by (simp_all add: btb_wf_def)
  obtain j where "btb_getIndex 0 tid b = Inr j" using assms by (auto simp: btb_wf_def)
  then obtain i where i: "btb_getIndex pc tid b = Inr i" by (auto simp: btb_getIndex_def Let_def result_simps)
  then have "i \<le> unat (idxMask b)" by (auto simp: btb_getIndex_def Let_def result_simps masked_index)
  also have "\<dots> < unat (btb_numEntries b)" using n unat_gt_0 [of "btb_numEntries b"] by (simp add: unat_pred_word)
  finally show ?thesis using i by blast
qed

lemma btb_lookup_valid:
  assumes "btb_wf threads b" and "tid < threads"
  shows "btb_valid pc tid b = Inr False \<or> btb_valid pc tid b = Inr True \<and> (\<exists>t. btb_lookup pc tid b = Inr (Some t))"
proof -
  obtain i where i: "btb_getIndex pc tid b = Inr i" "i < unat (btb_numEntries b)" using btb_getIndex_total [OF assms] by blast
  have "btb_target (btb_table b ! i) \<noteq> None" if "btb_hit pc tid i b"
    using that i(2) assms(1) by (auto simp: btb_wf_def btb_hit_def)
  then show ?thesis using i by (auto simp: btb_valid_def btb_lookup_def)
qed

lemma btb_update_lookup:
  assumes "btb_wf threads b" and "tid < threads"
  shows "\<exists>b'. btb_update pc target tid b = Inr b' \<and> btb_wf threads b' \<and> btb_valid pc tid b' = Inr True
    \<and> btb_lookup pc tid b' = Inr (Some target)"
proof -
  obtain i where i: "btb_getIndex pc tid b = Inr i" "i < unat (btb_numEntries b)" using btb_getIndex_total [OF assms] by blast
  let ?b = "b\<lparr>btb_table := (btb_table b)[i := \<lparr>btb_tag = btb_getTag pc b, btb_target = Some target, btb_tid = tid, btb_entry_valid = True\<rparr>]\<rparr>"
  have len: "i < length (btb_table b)" using i(2) assms(1) by (simp add: btb_wf_def)
  have same: "btb_getIndex q u ?b = btb_getIndex q u b" "btb_getTag q ?b = btb_getTag q b" for q u
    by (simp_all add: btb_getIndex_def btb_getTag_def)
  have "btb_wf threads ?b" using assms(1) by (auto simp: btb_wf_def same dest!: set_update_subset_insert [THEN subsetD])
  moreover have "btb_hit pc tid i ?b" using len by (simp add: btb_hit_def same)
  ultimately show ?thesis using i len by (simp add: btb_update_def btb_valid_def btb_lookup_def same)
qed

text \<open>The constructor gives a well-formed table when there are no more threads than entries.\<close>

lemma unat_widen: "unat (ucast (w :: unsigned) :: uint64) = unat w"
  by (simp add: unsigned_ucast_eq unsigned_take_bit_eq)

lemma unat_of_int_small: "n < 2 ^ 32 \<Longrightarrow> unat (word_of_int (int n) :: unsigned) = n"
  by (simp add: unat_of_nat_small)

lemma DefaultBTB_new_wf:
  assumes new: "DefaultBTB_new entries tag_bits shift num_threads = Inr b"
    and "num_threads \<le> entries" and "entries < 2 ^ 31"
  shows "btb_wf (unat num_threads) b"
proof -
  have e: "unat entries < 2 ^ 31" using assms(3) by (simp add: word_less_nat_alt)
  have pos: "num_threads \<noteq> 0" "entries \<noteq> 0"
    using new by (auto simp: DefaultBTB_new_def floorLog2_def isPowerOf2_def result_simps)
  obtain m where m: "floorLog2 (ucast num_threads) = Inr (int m)" "unat num_threads < 2 ^ Suc m" "2 ^ m \<le> unat num_threads"
    using floorLog2_bounds [of "ucast num_threads"] pos(1) by (auto simp: unat_widen word_eq_iff_unsigned [where 'a = nat])
  obtain k where k: "floorLog2 (ucast entries) = Inr (int k)" "unat entries < 2 ^ Suc k" "2 ^ k \<le> unat entries"
    using floorLog2_bounds [of "ucast entries"] pos(2) by (auto simp: unat_widen word_eq_iff_unsigned [where 'a = nat])
  have "(2::nat) ^ k < 2 ^ 31" using k(3) e by (rule le_less_trans)
  then have k30: "k < 31" by (rule power_less_imp_less_exp [rotated]) simp
  have "(2::nat) ^ m < 2 ^ Suc k" using m(3) k(2) assms(2) by (simp add: word_le_nat_alt)
  then have mk: "m \<le> k" using power_less_imp_less_exp [of "2::nat" m "Suc k"] by simp
  have b: "b = \<lparr>btb_table = replicate (unat entries) \<lparr>btb_tag = 0, btb_target = None, btb_tid = 0, btb_entry_valid = False\<rparr>,
      btb_numEntries = entries, idxMask = entries - 1, tagMask = push_bit (unat tag_bits) 1 - 1,
      btb_instShiftAmt = shift, tagShiftAmt = shift + word_of_int (int k), log2NumThreads = word_of_int (int m)\<rparr>"
    using new by (auto simp: DefaultBTB_new_def m(1) k(1) result_simps)
  have "(word_of_int (int k) :: unsigned) - word_of_int (int m) = word_of_int (int (k - m))" using mk by (simp add: of_nat_diff)
  then have amount: "unat (tagShiftAmt b - btb_instShiftAmt b - log2NumThreads b) = k - m"
    using unat_of_int_small [of "k - m"] k30 by (simp add: b)
  have "tid * 2 ^ (k - m) < 2 ^ 31" if "tid < unat num_threads" for tid
  proof -
    have "tid * 2 ^ (k - m) < 2 ^ Suc m * 2 ^ (k - m)" using that m(2) by (intro mult_strict_right_mono) simp_all
    also have "\<dots> = 2 ^ Suc k" using mk by (simp flip: power_add)
    also have "\<dots> \<le> 2 ^ 31" using k30 by (intro power_increasing) simp_all
    finally show ?thesis .
  qed
  then have "\<forall>tid < unat num_threads. \<exists>i. btb_getIndex 0 tid b = Inr i" using k30 less_imp_diff_less [of k 32 m] by (auto simp: btb_getIndex_def amount Let_def)
  then show ?thesis using pos(2) by (simp add: btb_wf_def b)
qed

end
