(* ===== verification/IndirectTargets.thy ===== *)
theory IndirectTargets
  imports IntMath
begin

unbundle bit_operations_syntax

text \<open>
  The indirect target predictor, \<^verbatim>\<open>src/cpu/pred/simple_indirect.cc\<close> and \<^verbatim>\<open>simple_indirect.hh\<close>: a
  set-associative cache of targets, hashed with the global history and the path of recent
  targets. The history object of a prediction is the value of the global history register it
  holds. The random number of the replacement is an argument. Shift amounts of 64 or more,
  undefined in C++, shift to zero.
\<close>

record 'pc IPredEntry =
  ip_tag :: Addr
  ip_target :: "'pc option"

record HistoryEntry =
  pcAddr :: Addr
  targetAddr :: Addr
  he_seqNum :: InstSeqNum

record ThreadInfo =
  pathHist :: "HistoryEntry list"
  headHistEntry :: nat
  ghr :: unsigned

record 'pc SimpleIndirect =
  hashGHR :: bool
  hashTargets :: bool
  numSets :: unsigned
  numWays :: nat
  ip_tagBits :: nat
  pathLength :: nat
  ip_instShift :: nat
  ghrMask :: unsigned
  targetCache :: "'pc IPredEntry list list"
  threadInfo :: "ThreadID \<Rightarrow> ThreadInfo"

definition SimpleIndirect_new ::
  "bool \<Rightarrow> bool \<Rightarrow> unsigned \<Rightarrow> nat \<Rightarrow> nat \<Rightarrow> nat \<Rightarrow> nat \<Rightarrow> nat \<Rightarrow> 'pc SimpleIndirect result" where
  "SimpleIndirect_new hash_ghr hash_targets sets ways tag_bits path_length shift ghr_bits =
    checked (ghr_bits < 31) UndefinedBehaviour
      (checked (isPowerOf2 (ucast sets)) Panic
        (Inr \<lparr>hashGHR = hash_ghr, hashTargets = hash_targets, numSets = sets, numWays = ways, ip_tagBits = tag_bits,
          pathLength = path_length, ip_instShift = shift, ghrMask = push_bit ghr_bits 1 - 1,
          targetCache = replicate (unat sets) (replicate ways \<lparr>ip_tag = 0, ip_target = None\<rparr>),
          threadInfo = (\<lambda>_. \<lparr>pathHist = [], headHistEntry = 0, ghr = 0\<rparr>)\<rparr>))"

definition upd_thread :: "ThreadID \<Rightarrow> (ThreadInfo \<Rightarrow> ThreadInfo) \<Rightarrow> 'pc SimpleIndirect \<Rightarrow> 'pc SimpleIndirect" where
  "upd_thread tid f p = p\<lparr>threadInfo := (threadInfo p)(tid := f (threadInfo p tid))\<rparr>"

definition genIndirectInfo :: "ThreadID \<Rightarrow> 'pc SimpleIndirect \<Rightarrow> unsigned" where
  "genIndirectInfo tid p = ghr (threadInfo p tid)"

definition updateDirectionInfo :: "ThreadID \<Rightarrow> bool \<Rightarrow> 'pc SimpleIndirect \<Rightarrow> 'pc SimpleIndirect" where
  "updateDirectionInfo tid actually_taken p =
    upd_thread tid (\<lambda>t. t\<lparr>ghr := (push_bit 1 (ghr t) OR (if actually_taken then 1 else 0)) AND ghrMask p\<rparr>) p"

definition changeDirectionPrediction :: "ThreadID \<Rightarrow> unsigned \<Rightarrow> bool \<Rightarrow> 'pc SimpleIndirect \<Rightarrow> 'pc SimpleIndirect" where
  "changeDirectionPrediction tid previousGhr actually_taken p =
    upd_thread tid (\<lambda>t. t\<lparr>ghr := (push_bit 1 previousGhr + (if actually_taken then 1 else 0)) AND ghrMask p\<rparr>) p"

text \<open>The newest targets, newest first, at most \<open>pathLength\<close> of them, each shifted by its age.\<close>

fun hash_path :: "nat \<Rightarrow> nat \<Rightarrow> HistoryEntry list \<Rightarrow> nat \<Rightarrow> Addr \<Rightarrow> Addr" where
  "hash_path shift hash_shift [] i h = h"
| "hash_path shift hash_shift (e # es) i h =
    hash_path shift hash_shift es (i + 1) (h XOR drop_bit (shift + i * hash_shift) (targetAddr e))"

definition ip_getSetIndex :: "Addr \<Rightarrow> unsigned \<Rightarrow> ThreadID \<Rightarrow> 'pc SimpleIndirect \<Rightarrow> nat result" where
  "ip_getSetIndex br_addr g tid p =
    (let h0 = drop_bit (ip_instShift p) br_addr; h1 = (if hashGHR p then h0 XOR ucast g else h0) in
     bindE (if hashTargets p
       then checked (pathLength p \<noteq> 0) UndefinedBehaviour
         (bindE (floorLog2 (ucast (numSets p))) (\<lambda>l. Inr (hash_path (ip_instShift p) (nat l div pathLength p)
           (take (pathLength p) (rev (pathHist (threadInfo p tid)))) 0 h1)))
       else Inr h1) (\<lambda>h. Inr (unat (h AND ucast (numSets p - 1)))))"

definition ip_getTag :: "Addr \<Rightarrow> 'pc SimpleIndirect \<Rightarrow> Addr result" where
  "ip_getTag br_addr p = checked (ip_tagBits p < 31) UndefinedBehaviour
    (Inr (drop_bit (ip_instShift p) br_addr AND (push_bit (ip_tagBits p) 1 - 1)))"

text \<open>\<open>None\<close> is a miss.\<close>

definition ip_lookup :: "Addr \<Rightarrow> ThreadID \<Rightarrow> 'pc SimpleIndirect \<Rightarrow> 'pc option result" where
  "ip_lookup br_addr tid p =
    bindE (ip_getSetIndex br_addr (ghr (threadInfo p tid)) tid p) (\<lambda>set_index.
    bindE (ip_getTag br_addr p) (\<lambda>tg.
    checked (set_index < unat (numSets p)) AssertFailed
      (Inr (Option.bind (find (\<lambda>w. ip_tag w = tg \<and> ip_target w \<noteq> None) (targetCache p ! set_index)) ip_target))))"

definition recordIndirect :: "Addr \<Rightarrow> Addr \<Rightarrow> InstSeqNum \<Rightarrow> ThreadID \<Rightarrow> 'pc SimpleIndirect \<Rightarrow> 'pc SimpleIndirect" where
  "recordIndirect br_addr tgt_addr seq_num tid p =
    upd_thread tid (\<lambda>t. t\<lparr>pathHist := pathHist t @ [\<lparr>pcAddr = br_addr, targetAddr = tgt_addr, he_seqNum = seq_num\<rparr>]\<rparr>) p"

definition ip_commit :: "InstSeqNum \<Rightarrow> ThreadID \<Rightarrow> 'pc SimpleIndirect \<Rightarrow> 'pc SimpleIndirect" where
  "ip_commit seq_num tid p = upd_thread tid (\<lambda>t.
    if headHistEntry t < length (pathHist t) \<and> he_seqNum (pathHist t ! headHistEntry t) \<le> seq_num
    then if headHistEntry t \<ge> pathLength p then t\<lparr>pathHist := tl (pathHist t)\<rparr> else t\<lparr>headHistEntry := headHistEntry t + 1\<rparr>
    else t) p"

definition ip_squash :: "InstSeqNum \<Rightarrow> ThreadID \<Rightarrow> 'pc SimpleIndirect \<Rightarrow> 'pc SimpleIndirect" where
  "ip_squash seq_num tid p =
    upd_thread tid (\<lambda>t. t\<lparr>pathHist := takeWhile (\<lambda>e. he_seqNum e \<le> seq_num) (pathHist t)\<rparr>) p"

definition deleteIndirectInfo :: "ThreadID \<Rightarrow> unsigned \<Rightarrow> 'pc SimpleIndirect \<Rightarrow> 'pc SimpleIndirect" where
  "deleteIndirectInfo tid previousGhr p = upd_thread tid (\<lambda>t. t\<lparr>ghr := previousGhr\<rparr>) p"

text \<open>The first way with the tag, or else a way chosen at random.\<close>

definition set_way :: "nat \<Rightarrow> Addr \<Rightarrow> 'pc \<Rightarrow> 'pc IPredEntry list \<Rightarrow> 'pc IPredEntry list result" where
  "set_way rnd tg target iset =
    (case find (\<lambda>i. ip_tag (iset ! i) = tg) [0..<length iset] of
       Some i \<Rightarrow> Inr (iset[i := (iset ! i)\<lparr>ip_target := Some target\<rparr>])
     | None \<Rightarrow> checked (iset \<noteq> []) UndefinedBehaviour
         (Inr (iset[rnd mod length iset := \<lparr>ip_tag = tg, ip_target = Some target\<rparr>])))"

definition recordTarget :: "('pc \<Rightarrow> Addr) \<Rightarrow> nat \<Rightarrow> unsigned \<Rightarrow> 'pc \<Rightarrow> ThreadID \<Rightarrow> 'pc SimpleIndirect \<Rightarrow> 'pc SimpleIndirect result" where
  "recordTarget instAddr rnd g target tid p =
    (let hist = pathHist (threadInfo p tid) in
     checked (hist \<noteq> []) UndefinedBehaviour
       (let hist_entry = last hist; popped = upd_thread tid (\<lambda>t. t\<lparr>pathHist := butlast hist\<rparr>) p;
            p1 = upd_thread tid (\<lambda>t. t\<lparr>pathHist := butlast hist @ [hist_entry\<lparr>targetAddr := instAddr target\<rparr>]\<rparr>) p in
        bindE (ip_getSetIndex (pcAddr hist_entry) g tid popped) (\<lambda>set_index.
        bindE (ip_getTag (pcAddr hist_entry) p) (\<lambda>tg.
        checked (set_index < unat (numSets p)) AssertFailed
          (bindE (set_way rnd tg target (targetCache p ! set_index)) (\<lambda>iset.
            Inr (p1\<lparr>targetCache := (targetCache p)[set_index := iset]\<rparr>)))))))"

subsection \<open>Well-formed predictors\<close>

definition ip_wf :: "'pc SimpleIndirect \<Rightarrow> bool" where
  "ip_wf p \<longleftrightarrow> numSets p \<noteq> 0 \<and> length (targetCache p) = unat (numSets p) \<and> ip_tagBits p < 31
    \<and> (hashTargets p \<longrightarrow> pathLength p \<noteq> 0)"

lemma floorLog2_total: "x \<noteq> 0 \<Longrightarrow> \<exists>l. floorLog2 x = Inr l"
  by (auto simp: floorLog2_def Let_def word_neq_0_conv split: prod.splits)

lemma widen_eq_0: "(ucast (w :: unsigned) :: uint64) = 0 \<longleftrightarrow> w = 0"
  by (simp add: word_eq_iff_unsigned [where 'a = nat] unsigned_ucast_eq unsigned_take_bit_eq)

lemma ip_getSetIndex_total:
  assumes "ip_wf p"
  shows "\<exists>i. ip_getSetIndex pc g tid p = Inr i \<and> i < unat (numSets p)"
proof -
  have n: "numSets p \<noteq> 0" using assms by (simp add: ip_wf_def)
  obtain l where l: "floorLog2 (ucast (numSets p)) = Inr l"
    using floorLog2_total [of "ucast (numSets p)"] n by (auto simp: widen_eq_0)
  have bound: "unat (h AND ucast (numSets p - 1)) < unat (numSets p)" for h :: Addr
    using masked_index [of h "numSets p - 1"] n unat_gt_0 [of "numSets p"] by (simp add: unat_pred_word)
  show ?thesis using assms l bound by (auto simp: ip_getSetIndex_def ip_wf_def Let_def)
qed

lemma ip_lookup_total: "ip_wf p \<Longrightarrow> \<exists>t. ip_lookup pc tid p = Inr t"
  using ip_getSetIndex_total [of p pc "ghr (threadInfo p tid)" tid]
  by (auto simp: ip_lookup_def ip_getTag_def ip_wf_def)

lemma upd_thread_wf [simp]: "ip_wf (upd_thread tid f p) \<longleftrightarrow> ip_wf p"
  by (simp add: upd_thread_def ip_wf_def)

lemma upd_thread_info [simp]:
  "threadInfo (upd_thread tid f p) t = (if t = tid then f (threadInfo p tid) else threadInfo p t)"
  by (simp add: upd_thread_def)

end
