(* ===== verification/DirectionPredictors.thy ===== *)
theory DirectionPredictors
  imports SatCounter IntMath
begin

unbundle bit_operations_syntax

text \<open>
  Three direction predictors of \<^verbatim>\<open>src/cpu/pred\<close>: the local predictor \<^verbatim>\<open>2bit_local.cc\<close>, the bi-mode
  predictor \<^verbatim>\<open>bi_mode.cc\<close> and the tournament predictor \<^verbatim>\<open>tournament.cc\<close>, each with its header.
  Tables are lists, a read or write outside a table is undefined behaviour, and a history
  object is a value: the pointer \<open>bp_history\<close> of the code owns an object that is never changed. The
  local predictor has none, \<open>NULL\<close>. Per-thread vectors are functions of the thread; shift
  amounts of 64 or more, undefined in C++, shift to zero.
\<close>

definition ctr_value :: "nat \<Rightarrow> SatCounter8 list \<Rightarrow> unsigned result" where
  "ctr_value i ctrs = checked (i < length ctrs) UndefinedBehaviour (Inr (ucast (sc_counter (ctrs ! i))))"

definition ctr_train :: "bool \<Rightarrow> nat \<Rightarrow> SatCounter8 list \<Rightarrow> SatCounter8 list result" where
  "ctr_train taken i ctrs = checked (i < length ctrs) UndefinedBehaviour
    (Inr (ctrs[i := if taken then sc_incr (ctrs ! i) else sc_decr (ctrs ! i)]))"

definition ctr_threshold :: "unsigned \<Rightarrow> unsigned result" where
  "ctr_threshold nbits = checked (nbits - 1 < 64) UndefinedBehaviour
    (Inr (ucast (push_bit (unat (nbits - 1)) (1 :: uint64) - 1)))"

text \<open>A history register shifted by one outcome.\<close>

definition shift_in :: "unsigned \<Rightarrow> bool \<Rightarrow> unsigned" where
  "shift_in h taken = push_bit 1 h OR (if taken then 1 else 0)"

subsection \<open>The local predictor\<close>

record LocalBP =
  lb_localCtrBits :: unsigned
  lb_localCtrs :: "SatCounter8 list"
  lb_indexMask :: unsigned
  lb_instShiftAmt :: unsigned

definition LocalBP_new :: "unsigned \<Rightarrow> unsigned \<Rightarrow> unsigned \<Rightarrow> LocalBP result" where
  "LocalBP_new localPredictorSize localCtrBits shift =
    checked (localCtrBits \<noteq> 0) UndefinedBehaviour
      (let localPredictorSets = localPredictorSize div localCtrBits in
       bindE (SatCounter8_new localCtrBits 0) (\<lambda>c.
         checked (isPowerOf2 (ucast localPredictorSize)) Fatal
           (checked (isPowerOf2 (ucast localPredictorSets)) Fatal
             (Inr \<lparr>lb_localCtrBits = localCtrBits, lb_localCtrs = replicate (unat localPredictorSets) c,
               lb_indexMask = localPredictorSets - 1, lb_instShiftAmt = shift\<rparr>))))"

definition getLocalIndex :: "Addr \<Rightarrow> LocalBP \<Rightarrow> nat" where
  "getLocalIndex branch_addr p = unat (drop_bit (unat (lb_instShiftAmt p)) branch_addr AND ucast (lb_indexMask p))"

definition lb_getPrediction :: "unsigned \<Rightarrow> LocalBP \<Rightarrow> bool" where
  "lb_getPrediction count p \<longleftrightarrow> drop_bit (unat (lb_localCtrBits p - 1)) count \<noteq> 0"

definition lb_lookup :: "ThreadID \<Rightarrow> Addr \<Rightarrow> LocalBP \<Rightarrow> (bool \<times> unit \<times> LocalBP) result" where
  "lb_lookup tid branch_addr p =
    bindE (ctr_value (getLocalIndex branch_addr p) (lb_localCtrs p)) (\<lambda>v. Inr (lb_getPrediction v p, (), p))"

definition lb_uncondBranch :: "ThreadID \<Rightarrow> Addr \<Rightarrow> LocalBP \<Rightarrow> (unit \<times> LocalBP) result" where
  "lb_uncondBranch tid pc p = Inr ((), p)"

definition lb_btbUpdate :: "ThreadID \<Rightarrow> Addr \<Rightarrow> LocalBP \<Rightarrow> LocalBP result" where
  "lb_btbUpdate tid pc p = Inr p"

definition lb_update :: "ThreadID \<Rightarrow> Addr \<Rightarrow> bool \<Rightarrow> unit \<Rightarrow> bool \<Rightarrow> LocalBP \<Rightarrow> LocalBP result" where
  "lb_update tid branch_addr taken h was_squashed p =
    (if was_squashed then Inr p
     else bindE (ctr_train taken (getLocalIndex branch_addr p) (lb_localCtrs p)) (\<lambda>cs. Inr (p\<lparr>lb_localCtrs := cs\<rparr>)))"

definition lb_squash :: "ThreadID \<Rightarrow> unit \<Rightarrow> LocalBP \<Rightarrow> LocalBP result" where
  "lb_squash tid h p = Inr p"

subsection \<open>The bi-mode predictor\<close>

record BiModeHistory =
  bh_globalHistoryReg :: unsigned
  takenUsed :: bool
  takenPred :: bool
  notTakenPred :: bool
  finalPred :: bool

record BiModeBP =
  globalHistoryReg :: "ThreadID \<Rightarrow> unsigned"
  bm_historyRegisterMask :: unsigned
  bm_choicePredictorSize :: unsigned
  bm_choiceHistoryMask :: unsigned
  bm_globalPredictorSize :: unsigned
  bm_globalHistoryMask :: unsigned
  choiceCounters :: "SatCounter8 list"
  takenCounters :: "SatCounter8 list"
  notTakenCounters :: "SatCounter8 list"
  bm_choiceThreshold :: unsigned
  takenThreshold :: unsigned
  notTakenThreshold :: unsigned
  bm_instShiftAmt :: unsigned

definition BiModeBP_new :: "unsigned \<Rightarrow> unsigned \<Rightarrow> unsigned \<Rightarrow> unsigned \<Rightarrow> unsigned \<Rightarrow> BiModeBP result" where
  "BiModeBP_new choiceSize choiceBits globalSize globalBits shift =
    bindE (ceilLog2 (ucast globalSize)) (\<lambda>historyBits.
    bindE (SatCounter8_new choiceBits 0) (\<lambda>c.
    bindE (SatCounter8_new globalBits 0) (\<lambda>g.
    checked (isPowerOf2 (ucast choiceSize)) Fatal
      (checked (isPowerOf2 (ucast globalSize)) Fatal
        (bindE (ctr_threshold choiceBits) (\<lambda>ct.
         bindE (ctr_threshold globalBits) (\<lambda>gt.
         Inr \<lparr>globalHistoryReg = (\<lambda>_. 0), bm_historyRegisterMask = ucast (mask1 (word_of_int historyBits)),
           bm_choicePredictorSize = choiceSize, bm_choiceHistoryMask = choiceSize - 1,
           bm_globalPredictorSize = globalSize, bm_globalHistoryMask = globalSize - 1,
           choiceCounters = replicate (unat choiceSize) c, takenCounters = replicate (unat globalSize) g,
           notTakenCounters = replicate (unat globalSize) g, bm_choiceThreshold = ct, takenThreshold = gt,
           notTakenThreshold = gt, bm_instShiftAmt = shift\<rparr>)))))))"

definition updateGlobalHistReg :: "ThreadID \<Rightarrow> bool \<Rightarrow> BiModeBP \<Rightarrow> BiModeBP" where
  "updateGlobalHistReg tid taken p =
    p\<lparr>globalHistoryReg := (globalHistoryReg p)(tid := shift_in (globalHistoryReg p tid) taken AND bm_historyRegisterMask p)\<rparr>"

definition bm_uncondBranch :: "ThreadID \<Rightarrow> Addr \<Rightarrow> BiModeBP \<Rightarrow> (BiModeHistory \<times> BiModeBP) result" where
  "bm_uncondBranch tid pc p =
    Inr (\<lparr>bh_globalHistoryReg = globalHistoryReg p tid, takenUsed = True, takenPred = True, notTakenPred = True,
      finalPred = True\<rparr>, updateGlobalHistReg tid True p)"

definition bm_squash :: "ThreadID \<Rightarrow> BiModeHistory \<Rightarrow> BiModeBP \<Rightarrow> BiModeBP result" where
  "bm_squash tid h p = Inr (p\<lparr>globalHistoryReg := (globalHistoryReg p)(tid := bh_globalHistoryReg h)\<rparr>)"

definition bm_choiceIdx :: "Addr \<Rightarrow> BiModeBP \<Rightarrow> nat" where
  "bm_choiceIdx branchAddr p = unat (drop_bit (unat (bm_instShiftAmt p)) branchAddr AND ucast (bm_choiceHistoryMask p))"

definition bm_globalIdx :: "Addr \<Rightarrow> unsigned \<Rightarrow> BiModeBP \<Rightarrow> nat" where
  "bm_globalIdx branchAddr h p =
    unat ((drop_bit (unat (bm_instShiftAmt p)) branchAddr XOR ucast h) AND ucast (bm_globalHistoryMask p))"

definition bm_idx_ok :: "Addr \<Rightarrow> unsigned \<Rightarrow> BiModeBP \<Rightarrow> bool" where
  "bm_idx_ok branchAddr h p \<longleftrightarrow> bm_choiceIdx branchAddr p < unat (bm_choicePredictorSize p)
    \<and> bm_globalIdx branchAddr h p < unat (bm_globalPredictorSize p)"

definition bm_lookup :: "ThreadID \<Rightarrow> Addr \<Rightarrow> BiModeBP \<Rightarrow> (bool \<times> BiModeHistory \<times> BiModeBP) result" where
  "bm_lookup tid branchAddr p =
    (let reg = globalHistoryReg p tid; gi = bm_globalIdx branchAddr reg p in
     checked (bm_idx_ok branchAddr reg p) AssertFailed
       (bindE (ctr_value (bm_choiceIdx branchAddr p) (choiceCounters p)) (\<lambda>cv.
        bindE (ctr_value gi (takenCounters p)) (\<lambda>tv.
        bindE (ctr_value gi (notTakenCounters p)) (\<lambda>nv.
        let choicePrediction = (cv > bm_choiceThreshold p);
            takenGHBPrediction = (tv > takenThreshold p);
            notTakenGHBPrediction = (nv > notTakenThreshold p);
            finalPrediction = (if choicePrediction then takenGHBPrediction else notTakenGHBPrediction)
        in Inr (finalPrediction,
             \<lparr>bh_globalHistoryReg = reg, takenUsed = choicePrediction, takenPred = takenGHBPrediction,
               notTakenPred = notTakenGHBPrediction, finalPred = finalPrediction\<rparr>,
             updateGlobalHistReg tid finalPrediction p))))))"

definition bm_btbUpdate :: "ThreadID \<Rightarrow> Addr \<Rightarrow> BiModeBP \<Rightarrow> BiModeBP result" where
  "bm_btbUpdate tid branchAddr p =
    Inr (p\<lparr>globalHistoryReg := (globalHistoryReg p)(tid := globalHistoryReg p tid AND (bm_historyRegisterMask p AND NOT 1))\<rparr>)"

definition bm_train_choice :: "Addr \<Rightarrow> bool \<Rightarrow> BiModeHistory \<Rightarrow> BiModeBP \<Rightarrow> BiModeBP result" where
  "bm_train_choice branchAddr taken h p =
    (if finalPred h = taken \<and> finalPred h \<noteq> takenUsed h then Inr p
     else bindE (ctr_train taken (bm_choiceIdx branchAddr p) (choiceCounters p)) (\<lambda>cs. Inr (p\<lparr>choiceCounters := cs\<rparr>)))"

text \<open>After a squash the register is shifted but not masked.\<close>

definition bm_update :: "ThreadID \<Rightarrow> Addr \<Rightarrow> bool \<Rightarrow> BiModeHistory \<Rightarrow> bool \<Rightarrow> BiModeBP \<Rightarrow> BiModeBP result" where
  "bm_update tid branchAddr taken h was_squashed p =
    (if was_squashed
     then Inr (p\<lparr>globalHistoryReg := (globalHistoryReg p)(tid := shift_in (bh_globalHistoryReg h) taken)\<rparr>)
     else let gi = bm_globalIdx branchAddr (bh_globalHistoryReg h) p in
       checked (bm_idx_ok branchAddr (bh_globalHistoryReg h) p) AssertFailed
         (bindE (if takenUsed h
            then bindE (ctr_train taken gi (takenCounters p)) (\<lambda>cs. Inr (p\<lparr>takenCounters := cs\<rparr>))
            else bindE (ctr_train taken gi (notTakenCounters p)) (\<lambda>cs. Inr (p\<lparr>notTakenCounters := cs\<rparr>)))
          (bm_train_choice branchAddr taken h)))"

subsection \<open>The tournament predictor\<close>

record TournamentHistory =
  th_globalHistory :: unsigned
  localHistoryIdx :: unsigned
  localHistory :: unsigned
  localPredTaken :: bool
  globalPredTaken :: bool
  globalUsed :: bool

record TournamentBP =
  tn_localPredictorSize :: unsigned
  localPredictorMask :: unsigned
  tn_localCtrs :: "SatCounter8 list"
  localHistoryTable :: "unsigned list"
  localHistoryTableSize :: unsigned
  globalCtrs :: "SatCounter8 list"
  globalHistory :: "ThreadID \<Rightarrow> unsigned"
  tn_globalHistoryMask :: unsigned
  tn_choiceHistoryMask :: unsigned
  tn_historyRegisterMask :: unsigned
  choiceCtrs :: "SatCounter8 list"
  localThreshold :: unsigned
  globalThreshold :: unsigned
  tn_choiceThreshold :: unsigned
  tn_instShiftAmt :: unsigned

definition invalidPredictorIndex :: unsigned where
  "invalidPredictorIndex = - 1"

definition TournamentBP_new ::
  "unsigned \<Rightarrow> unsigned \<Rightarrow> unsigned \<Rightarrow> unsigned \<Rightarrow> unsigned \<Rightarrow> unsigned \<Rightarrow> unsigned \<Rightarrow> unsigned \<Rightarrow> TournamentBP result" where
  "TournamentBP_new localSize localBits tableSize globalSize globalBits choiceSize choiceBits shift =
    bindE (SatCounter8_new localBits 0) (\<lambda>lc.
    bindE (ceilLog2 (ucast localSize)) (\<lambda>localHistoryBits.
    bindE (SatCounter8_new globalBits 0) (\<lambda>gc.
    bindE (ceilLog2 (ucast globalSize)) (\<lambda>gBits.
    bindE (ceilLog2 (ucast choiceSize)) (\<lambda>cBits.
    bindE (SatCounter8_new choiceBits 0) (\<lambda>cc.
    checked (isPowerOf2 (ucast localSize)) Fatal
      (checked (isPowerOf2 (ucast globalSize)) Fatal
        (checked (isPowerOf2 (ucast tableSize)) Fatal
          (checked (isPowerOf2 (ucast choiceSize)) Fatal
            (let regMask = ucast (mask1 (word_of_int (max gBits cBits))) in
             checked (globalSize - 1 \<le> regMask \<and> choiceSize - 1 \<le> regMask) Fatal
               (bindE (ctr_threshold localBits) (\<lambda>lt.
                bindE (ctr_threshold globalBits) (\<lambda>gt.
                bindE (ctr_threshold choiceBits) (\<lambda>ct.
                Inr \<lparr>tn_localPredictorSize = localSize, localPredictorMask = ucast (mask1 (word_of_int localHistoryBits)),
                  tn_localCtrs = replicate (unat localSize) lc, localHistoryTable = replicate (unat tableSize) 0,
                  localHistoryTableSize = tableSize, globalCtrs = replicate (unat globalSize) gc, globalHistory = (\<lambda>_. 0),
                  tn_globalHistoryMask = globalSize - 1, tn_choiceHistoryMask = choiceSize - 1,
                  tn_historyRegisterMask = regMask, choiceCtrs = replicate (unat choiceSize) cc,
                  localThreshold = lt, globalThreshold = gt, tn_choiceThreshold = ct, tn_instShiftAmt = shift\<rparr>))))))))))))))"

definition calcLocHistIdx :: "Addr \<Rightarrow> TournamentBP \<Rightarrow> nat" where
  "calcLocHistIdx branch_addr p =
    unat (drop_bit (unat (tn_instShiftAmt p)) branch_addr AND ucast (localHistoryTableSize p - 1))"

definition updateGlobalHist :: "ThreadID \<Rightarrow> bool \<Rightarrow> TournamentBP \<Rightarrow> TournamentBP" where
  "updateGlobalHist tid taken p =
    p\<lparr>globalHistory := (globalHistory p)(tid := shift_in (globalHistory p tid) taken AND tn_historyRegisterMask p)\<rparr>"

definition updateLocalHist :: "nat \<Rightarrow> bool \<Rightarrow> TournamentBP \<Rightarrow> TournamentBP" where
  "updateLocalHist i taken p =
    p\<lparr>localHistoryTable := (localHistoryTable p)[i := shift_in (localHistoryTable p ! i) taken]\<rparr>"

definition tn_btbUpdate :: "ThreadID \<Rightarrow> Addr \<Rightarrow> TournamentBP \<Rightarrow> TournamentBP result" where
  "tn_btbUpdate tid branch_addr p =
    (let i = calcLocHistIdx branch_addr p in
     checked (i < length (localHistoryTable p)) UndefinedBehaviour
       (Inr (p\<lparr>globalHistory := (globalHistory p)(tid := globalHistory p tid AND (tn_historyRegisterMask p AND NOT 1)),
         localHistoryTable := (localHistoryTable p)[i := localHistoryTable p ! i AND (localPredictorMask p AND NOT 1)]\<rparr>)))"

definition tn_lookup :: "ThreadID \<Rightarrow> Addr \<Rightarrow> TournamentBP \<Rightarrow> (bool \<times> TournamentHistory \<times> TournamentBP) result" where
  "tn_lookup tid branch_addr p =
    (let i = calcLocHistIdx branch_addr p; g = globalHistory p tid in
     checked (i < length (localHistoryTable p)) UndefinedBehaviour
       (let local_predictor_idx = localHistoryTable p ! i AND localPredictorMask p in
        bindE (ctr_value (unat local_predictor_idx) (tn_localCtrs p)) (\<lambda>lv.
        bindE (ctr_value (unat (g AND tn_globalHistoryMask p)) (globalCtrs p)) (\<lambda>gv.
        bindE (ctr_value (unat (g AND tn_choiceHistoryMask p)) (choiceCtrs p)) (\<lambda>cv.
        let local_prediction = (lv > localThreshold p); global_prediction = (globalThreshold p < gv);
            choice_prediction = (tn_choiceThreshold p < cv);
            taken = (if choice_prediction then global_prediction else local_prediction)
        in checked (i < unat (localHistoryTableSize p)) AssertFailed
             (Inr (taken,
               \<lparr>th_globalHistory = g, localHistoryIdx = of_nat i, localHistory = local_predictor_idx,
                 localPredTaken = local_prediction, globalPredTaken = global_prediction, globalUsed = choice_prediction\<rparr>,
               updateLocalHist i taken (updateGlobalHist tid taken p))))))))"

definition tn_uncondBranch :: "ThreadID \<Rightarrow> Addr \<Rightarrow> TournamentBP \<Rightarrow> (TournamentHistory \<times> TournamentBP) result" where
  "tn_uncondBranch tid pc p =
    Inr (\<lparr>th_globalHistory = globalHistory p tid, localHistoryIdx = invalidPredictorIndex,
      localHistory = invalidPredictorIndex, localPredTaken = True, globalPredTaken = True, globalUsed = True\<rparr>,
      updateGlobalHist tid True p)"

definition tn_train_choice :: "bool \<Rightarrow> TournamentHistory \<Rightarrow> TournamentBP \<Rightarrow> TournamentBP result" where
  "tn_train_choice taken h p =
    (if localPredTaken h \<noteq> globalPredTaken h \<and> localHistory h \<noteq> invalidPredictorIndex
     then let i = unat (th_globalHistory h AND tn_choiceHistoryMask p) in
       if localPredTaken h = taken
       then bindE (ctr_train False i (choiceCtrs p)) (\<lambda>cs. Inr (p\<lparr>choiceCtrs := cs\<rparr>))
       else if globalPredTaken h = taken
       then bindE (ctr_train True i (choiceCtrs p)) (\<lambda>cs. Inr (p\<lparr>choiceCtrs := cs\<rparr>))
       else Inr p
     else Inr p)"

definition tn_train_direction :: "bool \<Rightarrow> TournamentHistory \<Rightarrow> TournamentBP \<Rightarrow> TournamentBP result" where
  "tn_train_direction taken h p =
    bindE (ctr_train taken (unat (th_globalHistory h AND tn_globalHistoryMask p)) (globalCtrs p)) (\<lambda>gs.
      if localHistory h \<noteq> invalidPredictorIndex
      then bindE (ctr_train taken (unat (localHistory h AND localPredictorMask p)) (tn_localCtrs p))
        (\<lambda>ls. Inr (p\<lparr>globalCtrs := gs, tn_localCtrs := ls\<rparr>))
      else Inr (p\<lparr>globalCtrs := gs\<rparr>))"

definition tn_restore :: "ThreadID \<Rightarrow> nat \<Rightarrow> bool \<Rightarrow> TournamentHistory \<Rightarrow> TournamentBP \<Rightarrow> TournamentBP result" where
  "tn_restore tid i taken h p =
    (let p1 = p\<lparr>globalHistory := (globalHistory p)(tid := shift_in (th_globalHistory h) taken AND tn_historyRegisterMask p)\<rparr> in
     if localHistory h \<noteq> invalidPredictorIndex
     then checked (i < length (localHistoryTable p)) UndefinedBehaviour
       (Inr (p1\<lparr>localHistoryTable := (localHistoryTable p)[i := shift_in (localHistory h) taken]\<rparr>))
     else Inr p1)"

definition tn_update :: "ThreadID \<Rightarrow> Addr \<Rightarrow> bool \<Rightarrow> TournamentHistory \<Rightarrow> bool \<Rightarrow> TournamentBP \<Rightarrow> TournamentBP result" where
  "tn_update tid branch_addr taken h was_squashed p =
    (let i = calcLocHistIdx branch_addr p in
     checked (i < unat (localHistoryTableSize p)) AssertFailed
       (if was_squashed then tn_restore tid i taken h p
        else checked (unat (localHistory h AND localPredictorMask p) < unat (tn_localPredictorSize p)) AssertFailed
          (bindE (tn_train_choice taken h p) (tn_train_direction taken h))))"

definition tn_squash :: "ThreadID \<Rightarrow> TournamentHistory \<Rightarrow> TournamentBP \<Rightarrow> TournamentBP result" where
  "tn_squash tid h p =
    (let p1 = p\<lparr>globalHistory := (globalHistory p)(tid := th_globalHistory h)\<rparr> in
     if localHistoryIdx h \<noteq> invalidPredictorIndex
     then checked (unat (localHistoryIdx h) < length (localHistoryTable p)) UndefinedBehaviour
       (Inr (p1\<lparr>localHistoryTable := (localHistoryTable p)[unat (localHistoryIdx h) := localHistory h]\<rparr>))
     else Inr p1)"

end
