(* ===== verification/BPredUnit.thy ===== *)
theory BPredUnit
  imports ReturnStack BranchTargets IndirectTargets DirectionPredictors
begin

text \<open>
  The branch prediction unit, \<^verbatim>\<open>src/cpu/pred/bpred_unit.cc\<close> and \<^verbatim>\<open>bpred_unit.hh\<close>: it composes a
  direction predictor, the branch target buffer, the return address stacks and the indirect
  predictor, and keeps per thread a history of predictions, youngest first, from which it
  trains at commit and restores at a squash.

  The virtual functions of the direction predictor are a record of operations, instantiated
  below by the three predictors. A program counter state is of any type \<open>'pc\<close>; its \<open>instAddr\<close>
  is an argument, and \<open>buildRetPC\<close> and \<open>advancePC\<close>, virtual functions of the instruction set,
  are fields of the instruction. Statistics and probe points are not part of the state. The
  static instruction and the resolved target passed to \<open>update\<close> are not read by these predictors.
\<close>

record 'pc BranchInst =
  isUncondCtrl :: bool
  isDirectCtrl :: bool
  isCall :: bool
  isReturn :: bool
  buildRetPC :: "'pc \<Rightarrow> 'pc \<Rightarrow> 'pc"
  advancePC :: "'pc \<Rightarrow> 'pc"

record ('s, 'h) BPOps =
  op_uncondBranch :: "ThreadID \<Rightarrow> Addr \<Rightarrow> 's \<Rightarrow> ('h \<times> 's) result"
  op_lookup :: "ThreadID \<Rightarrow> Addr \<Rightarrow> 's \<Rightarrow> (bool \<times> 'h \<times> 's) result"
  op_btbUpdate :: "ThreadID \<Rightarrow> Addr \<Rightarrow> 's \<Rightarrow> 's result"
  op_update :: "ThreadID \<Rightarrow> Addr \<Rightarrow> bool \<Rightarrow> 'h \<Rightarrow> bool \<Rightarrow> 's \<Rightarrow> 's result"
  op_squash :: "ThreadID \<Rightarrow> 'h \<Rightarrow> 's \<Rightarrow> 's result"

definition local_ops :: "(LocalBP, unit) BPOps" where
  "local_ops = \<lparr>op_uncondBranch = lb_uncondBranch, op_lookup = lb_lookup, op_btbUpdate = lb_btbUpdate,
    op_update = lb_update, op_squash = lb_squash\<rparr>"

definition bimode_ops :: "(BiModeBP, BiModeHistory) BPOps" where
  "bimode_ops = \<lparr>op_uncondBranch = bm_uncondBranch, op_lookup = bm_lookup, op_btbUpdate = bm_btbUpdate,
    op_update = bm_update, op_squash = bm_squash\<rparr>"

definition tournament_ops :: "(TournamentBP, TournamentHistory) BPOps" where
  "tournament_ops = \<lparr>op_uncondBranch = tn_uncondBranch, op_lookup = tn_lookup, op_btbUpdate = tn_btbUpdate,
    op_update = tn_update, op_squash = tn_squash\<rparr>"

record ('pc, 'h) PredictorHistory =
  ph_seqNum :: InstSeqNum
  ph_pc :: Addr
  bpHistory :: 'h
  indirectHistory :: "unsigned option"
  RASTarget :: "'pc option"
  RASIndex :: nat
  predTaken :: bool
  usedRAS :: bool
  pushedRAS :: bool
  wasCall :: bool
  wasReturn :: bool
  wasIndirect :: bool
  ph_target :: Addr

record ('pc, 's, 'h) BPU =
  direction :: 's
  predHist :: "ThreadID \<Rightarrow> ('pc, 'h) PredictorHistory list"
  BTB :: "'pc DefaultBTB"
  RAS :: "ThreadID \<Rightarrow> 'pc ReturnAddrStack"
  iPred :: "'pc SimpleIndirect option"

text \<open>The local variables of \<open>predict\<close>.\<close>

record ('pc, 's, 'h) Prediction =
  pd_unit :: "('pc, 's, 'h) BPU"
  pd_record :: "('pc, 'h) PredictorHistory"
  pd_target :: 'pc
  pd_taken :: bool

definition BPU_new :: "'s \<Rightarrow> 'pc SimpleIndirect option \<Rightarrow> unsigned \<Rightarrow> unsigned \<Rightarrow> unsigned \<Rightarrow> unsigned \<Rightarrow> unsigned \<Rightarrow> ('pc, 's, 'h) BPU result" where
  "BPU_new d ip btb_entries btb_tag_size shift threads ras_size =
    bindE (DefaultBTB_new btb_entries btb_tag_size shift threads) (\<lambda>b.
      Inr \<lparr>direction = d, predHist = (\<lambda>_. []), BTB = b, RAS = (\<lambda>_. ras_init (unat ras_size)), iPred = ip\<rparr>)"

definition bu_drainSanityCheck :: "nat \<Rightarrow> ('pc, 's, 'h) BPU \<Rightarrow> unit result" where
  "bu_drainSanityCheck threads u = checked (list_all (\<lambda>tid. predHist u tid = []) [0..<threads]) AssertFailed (Inr ())"

text \<open>The unit accesses its target buffer for thread 0.\<close>

definition BTBValid :: "Addr \<Rightarrow> ('pc, 's, 'h) BPU \<Rightarrow> bool result" where
  "BTBValid instPC u = btb_valid instPC 0 (BTB u)"

definition BTBLookup :: "Addr \<Rightarrow> ('pc, 's, 'h) BPU \<Rightarrow> 'pc option result" where
  "BTBLookup inst_pc u = btb_lookup inst_pc 0 (BTB u)"

definition BTBUpdate :: "Addr \<Rightarrow> 'pc \<Rightarrow> ('pc, 's, 'h) BPU \<Rightarrow> ('pc, 's, 'h) BPU result" where
  "BTBUpdate instPC target u = bindE (btb_update instPC target 0 (BTB u)) (\<lambda>b. Inr (u\<lparr>BTB := b\<rparr>))"

definition set_ras :: "ThreadID \<Rightarrow> 'pc ReturnAddrStack \<Rightarrow> ('pc, 's, 'h) BPU \<Rightarrow> ('pc, 's, 'h) BPU" where
  "set_ras tid r u = u\<lparr>RAS := (RAS u)(tid := r)\<rparr>"

subsection \<open>Prediction\<close>

definition predict_direction ::
  "('s, 'h) BPOps \<Rightarrow> 'pc BranchInst \<Rightarrow> InstSeqNum \<Rightarrow> Addr \<Rightarrow> 'pc \<Rightarrow> ThreadID \<Rightarrow> ('pc, 's, 'h) BPU \<Rightarrow> ('pc, 's, 'h) Prediction result" where
  "predict_direction ops inst sn addr pc tid u =
    bindE (if isUncondCtrl inst
        then bindE (op_uncondBranch ops tid addr (direction u)) (\<lambda>(h, d). Inr (True, h, d))
        else op_lookup ops tid addr (direction u))
      (\<lambda>(taken, h, d). Inr \<lparr>pd_unit = u\<lparr>direction := d\<rparr>,
        pd_record = \<lparr>ph_seqNum = sn, ph_pc = addr, bpHistory = h, indirectHistory = map_option (genIndirectInfo tid) (iPred u),
          RASTarget = None, RASIndex = 0, predTaken = taken, usedRAS = False, pushedRAS = False, wasCall = False,
          wasReturn = False, wasIndirect = False, ph_target = - 1\<rparr>,
        pd_target = pc, pd_taken = taken\<rparr>)"

definition predict_return :: "'pc BranchInst \<Rightarrow> 'pc \<Rightarrow> ThreadID \<Rightarrow> ('pc, 's, 'h) Prediction \<Rightarrow> ('pc, 's, 'h) Prediction result" where
  "predict_return inst pc tid p =
    (if isReturn inst
     then let r = RAS (pd_unit p) tid in
       bindE (ras_top r) (\<lambda>top. Inr (p\<lparr>
         pd_target := (case top of Some a \<Rightarrow> buildRetPC inst pc a | None \<Rightarrow> pd_target p),
         pd_record := (pd_record p)\<lparr>wasReturn := True, usedRAS := True, RASIndex := topIdx r, RASTarget := top\<rparr>,
         pd_unit := set_ras tid (ras_pop r) (pd_unit p)\<rparr>))
     else Inr p)"

definition predict_call :: "'pc BranchInst \<Rightarrow> 'pc \<Rightarrow> ThreadID \<Rightarrow> ('pc, 's, 'h) Prediction \<Rightarrow> ('pc, 's, 'h) Prediction result" where
  "predict_call inst pc tid p =
    (if isCall inst
     then bindE (ras_push pc (RAS (pd_unit p) tid)) (\<lambda>r. Inr (p\<lparr>
       pd_record := (pd_record p)\<lparr>pushedRAS := True, wasCall := True\<rparr>, pd_unit := set_ras tid r (pd_unit p)\<rparr>))
     else Inr p)"

text \<open>A conditional call without a target is not taken, so its push is undone.\<close>

definition undo_call :: "'pc BranchInst \<Rightarrow> ThreadID \<Rightarrow> ('pc, 's, 'h) Prediction \<Rightarrow> ('pc, 's, 'h) Prediction" where
  "undo_call inst tid p =
    (if isCall inst \<and> \<not> isUncondCtrl inst
     then p\<lparr>pd_record := (pd_record p)\<lparr>pushedRAS := False\<rparr>,
       pd_unit := set_ras tid (ras_pop (RAS (pd_unit p) tid)) (pd_unit p)\<rparr>
     else p)"

definition fall_through :: "'pc BranchInst \<Rightarrow> ('pc, 's, 'h) Prediction \<Rightarrow> ('pc, 's, 'h) Prediction" where
  "fall_through inst p = p\<lparr>pd_taken := False, pd_record := (pd_record p)\<lparr>predTaken := False\<rparr>,
    pd_target := advancePC inst (pd_target p)\<rparr>"

definition predict_btb ::
  "('s, 'h) BPOps \<Rightarrow> 'pc BranchInst \<Rightarrow> Addr \<Rightarrow> ThreadID \<Rightarrow> ('pc, 's, 'h) Prediction \<Rightarrow> ('pc, 's, 'h) Prediction result" where
  "predict_btb ops inst addr tid p =
    bindE (btb_valid addr tid (BTB (pd_unit p))) (\<lambda>hit.
      if hit
      then bindE (btb_lookup addr tid (BTB (pd_unit p))) (\<lambda>t.
        case t of Some a \<Rightarrow> Inr (p\<lparr>pd_target := a\<rparr>) | None \<Rightarrow> Inl UndefinedBehaviour)
      else if \<not> isCall inst \<and> \<not> isReturn inst
      then bindE (op_btbUpdate ops tid addr (direction (pd_unit p))) (\<lambda>d.
        Inr (fall_through inst (p\<lparr>pd_unit := (pd_unit p)\<lparr>direction := d\<rparr>\<rparr>)))
      else Inr (fall_through inst (undo_call inst tid p)))"

definition predict_indirect ::
  "('pc \<Rightarrow> Addr) \<Rightarrow> 'pc BranchInst \<Rightarrow> Addr \<Rightarrow> ThreadID \<Rightarrow> 'pc SimpleIndirect \<Rightarrow> ('pc, 's, 'h) Prediction \<Rightarrow> ('pc, 's, 'h) Prediction result" where
  "predict_indirect ia inst addr tid ip p0 =
    (let p = p0\<lparr>pd_record := (pd_record p0)\<lparr>wasIndirect := True\<rparr>\<rparr> in
     bindE (ip_lookup addr tid ip) (\<lambda>t.
       let p1 = (case t of Some a \<Rightarrow> p\<lparr>pd_target := a\<rparr> | None \<Rightarrow> fall_through inst (undo_call inst tid p)) in
       Inr (p1\<lparr>pd_unit := (pd_unit p1)\<lparr>iPred := Some (recordIndirect addr (ia (pd_target p1)) (ph_seqNum (pd_record p1)) tid ip)\<rparr>\<rparr>)))"

definition predict_target ::
  "('pc \<Rightarrow> Addr) \<Rightarrow> ('s, 'h) BPOps \<Rightarrow> 'pc BranchInst \<Rightarrow> 'pc \<Rightarrow> ThreadID \<Rightarrow> ('pc, 's, 'h) Prediction \<Rightarrow> ('pc, 's, 'h) Prediction result" where
  "predict_target ia ops inst pc tid p =
    (if pd_taken p
     then bindE (predict_return inst pc tid p) (\<lambda>p1. bindE (predict_call inst pc tid p1) (\<lambda>p2.
       if isReturn inst then Inr p2
       else case iPred (pd_unit p2) of
           None \<Rightarrow> predict_btb ops inst (ia pc) tid p2
         | Some ip \<Rightarrow> if isDirectCtrl inst then predict_btb ops inst (ia pc) tid p2
             else predict_indirect ia inst (ia pc) tid ip p2))
     else Inr (p\<lparr>pd_record := (pd_record p)\<lparr>wasReturn := isReturn inst\<rparr>, pd_target := advancePC inst (pd_target p)\<rparr>))"

text \<open>The result is the direction, the predicted program counter and the new state.\<close>

definition predict ::
  "('pc \<Rightarrow> Addr) \<Rightarrow> ('s, 'h) BPOps \<Rightarrow> 'pc BranchInst \<Rightarrow> InstSeqNum \<Rightarrow> 'pc \<Rightarrow> ThreadID \<Rightarrow> ('pc, 's, 'h) BPU
    \<Rightarrow> (bool \<times> 'pc \<times> ('pc, 's, 'h) BPU) result" where
  "predict ia ops inst sn pc tid u =
    bindE (predict_direction ops inst sn (ia pc) pc tid u) (\<lambda>p0.
    bindE (predict_target ia ops inst pc tid p0) (\<lambda>p.
      let u1 = (pd_unit p)\<lparr>iPred := map_option (updateDirectionInfo tid (pd_taken p0)) (iPred (pd_unit p))\<rparr>;
          e = (pd_record p)\<lparr>ph_target := ia (pd_target p)\<rparr>
      in Inr (pd_taken p, pd_target p, u1\<lparr>predHist := (predHist u1)(tid := e # predHist u1 tid)\<rparr>)))"

subsection \<open>Commit and squash\<close>

text \<open>Committed branches leave the history at its back; the list argument is oldest first.\<close>

fun commit_hist ::
  "('s, 'h) BPOps \<Rightarrow> InstSeqNum \<Rightarrow> ThreadID \<Rightarrow> ('pc, 'h) PredictorHistory list \<Rightarrow> ('pc, 's, 'h) BPU
    \<Rightarrow> (('pc, 'h) PredictorHistory list \<times> ('pc, 's, 'h) BPU) result" where
  "commit_hist ops done_sn tid [] u = Inr ([], u)"
| "commit_hist ops done_sn tid (e # es) u =
    (if ph_seqNum e \<le> done_sn
     then bindE (op_update ops tid (ph_pc e) (predTaken e) (bpHistory e) False (direction u)) (\<lambda>d.
       commit_hist ops done_sn tid es (u\<lparr>direction := d, iPred := map_option (ip_commit done_sn tid) (iPred u)\<rparr>))
     else Inr (e # es, u))"

definition bu_update :: "('s, 'h) BPOps \<Rightarrow> InstSeqNum \<Rightarrow> ThreadID \<Rightarrow> ('pc, 's, 'h) BPU \<Rightarrow> ('pc, 's, 'h) BPU result" where
  "bu_update ops done_sn tid u = bindE (commit_hist ops done_sn tid (rev (predHist u tid)) u) (\<lambda>(es, u').
    Inr (u'\<lparr>predHist := (predHist u')(tid := rev es)\<rparr>))"

definition undo_ras :: "('pc, 'h) PredictorHistory \<Rightarrow> 'pc ReturnAddrStack \<Rightarrow> 'pc ReturnAddrStack result" where
  "undo_ras e r =
    (let r1 = (if wasCall e \<and> pushedRAS e then ras_pop r else r)
     in if usedRAS e then ras_restore (RASIndex e) (RASTarget e) r1 else Inr r1)"

definition undo_indirect :: "ThreadID \<Rightarrow> unsigned option \<Rightarrow> 'pc SimpleIndirect option \<Rightarrow> 'pc SimpleIndirect option result" where
  "undo_indirect tid ih ip =
    (case ip of None \<Rightarrow> Inr None
     | Some p \<Rightarrow> (case ih of None \<Rightarrow> Inl UndefinedBehaviour | Some g \<Rightarrow> Inr (Some (deleteIndirectInfo tid g p))))"

definition squash_entry ::
  "('s, 'h) BPOps \<Rightarrow> ThreadID \<Rightarrow> ('pc, 'h) PredictorHistory \<Rightarrow> ('pc, 's, 'h) BPU \<Rightarrow> ('pc, 's, 'h) BPU result" where
  "squash_entry ops tid e u =
    bindE (undo_ras e (RAS u tid)) (\<lambda>r.
    bindE (op_squash ops tid (bpHistory e) (direction u)) (\<lambda>d.
    bindE (undo_indirect tid (indirectHistory e) (iPred u)) (\<lambda>ip.
      Inr (set_ras tid r u\<lparr>direction := d, iPred := ip\<rparr>))))"

fun squash_hist ::
  "('s, 'h) BPOps \<Rightarrow> InstSeqNum \<Rightarrow> ThreadID \<Rightarrow> ('pc, 'h) PredictorHistory list \<Rightarrow> ('pc, 's, 'h) BPU
    \<Rightarrow> (('pc, 'h) PredictorHistory list \<times> ('pc, 's, 'h) BPU) result" where
  "squash_hist ops squashed_sn tid [] u = Inr ([], u)"
| "squash_hist ops squashed_sn tid (e # es) u =
    (if ph_seqNum e > squashed_sn then bindE (squash_entry ops tid e u) (squash_hist ops squashed_sn tid es)
     else Inr (e # es, u))"

definition bu_squash :: "('s, 'h) BPOps \<Rightarrow> InstSeqNum \<Rightarrow> ThreadID \<Rightarrow> ('pc, 's, 'h) BPU \<Rightarrow> ('pc, 's, 'h) BPU result" where
  "bu_squash ops squashed_sn tid u =
    bindE (squash_hist ops squashed_sn tid (predHist u tid) (u\<lparr>iPred := map_option (ip_squash squashed_sn tid) (iPred u)\<rparr>))
      (\<lambda>(es, u'). Inr (u'\<lparr>predHist := (predHist u')(tid := es)\<rparr>))"

text \<open>The mispredicted branch itself, after the younger ones are squashed.\<close>

definition fix_taken ::
  "('pc \<Rightarrow> Addr) \<Rightarrow> nat \<Rightarrow> 'pc \<Rightarrow> ThreadID \<Rightarrow> ('pc, 'h) PredictorHistory \<Rightarrow> ('pc, 's, 'h) BPU
    \<Rightarrow> (('pc, 'h) PredictorHistory \<times> ('pc, 's, 'h) BPU) result" where
  "fix_taken ia rnd corr_target tid e u =
    (let (e1, u1) = (if wasReturn e \<and> \<not> usedRAS e
           then (e\<lparr>usedRAS := True\<rparr>, set_ras tid (ras_pop (RAS u tid)) u) else (e, u)) in
     if wasIndirect e
     then (case iPred u1 of
         None \<Rightarrow> Inr (e1, u1)
       | Some ip \<Rightarrow> (case indirectHistory e of
           None \<Rightarrow> Inl UndefinedBehaviour
         | Some g \<Rightarrow> bindE (recordTarget ia rnd g corr_target tid ip) (\<lambda>ip'. Inr (e1, u1\<lparr>iPred := Some ip'\<rparr>))))
     else bindE (btb_update (ph_pc e) corr_target tid (BTB u1)) (\<lambda>b. Inr (e1, u1\<lparr>BTB := b\<rparr>)))"

definition fix_not_taken ::
  "ThreadID \<Rightarrow> ('pc, 'h) PredictorHistory \<Rightarrow> ('pc, 's, 'h) BPU \<Rightarrow> (('pc, 'h) PredictorHistory \<times> ('pc, 's, 'h) BPU) result" where
  "fix_not_taken tid e u =
    bindE (undo_ras e (RAS u tid)) (\<lambda>r.
      Inr (e\<lparr>pushedRAS := (pushedRAS e \<and> \<not> wasCall e), usedRAS := False\<rparr>, set_ras tid r u))"

definition change_direction :: "ThreadID \<Rightarrow> bool \<Rightarrow> unsigned option \<Rightarrow> 'pc SimpleIndirect option \<Rightarrow> 'pc SimpleIndirect option result" where
  "change_direction tid taken ih ip =
    (case ip of None \<Rightarrow> Inr None
     | Some p \<Rightarrow> (case ih of None \<Rightarrow> Inl UndefinedBehaviour | Some g \<Rightarrow> Inr (Some (changeDirectionPrediction tid g taken p))))"

definition bu_squash_mispredict ::
  "('pc \<Rightarrow> Addr) \<Rightarrow> nat \<Rightarrow> ('s, 'h) BPOps \<Rightarrow> InstSeqNum \<Rightarrow> 'pc \<Rightarrow> bool \<Rightarrow> ThreadID \<Rightarrow> ('pc, 's, 'h) BPU \<Rightarrow> ('pc, 's, 'h) BPU result" where
  "bu_squash_mispredict ia rnd ops squashed_sn corr_target actually_taken tid u0 =
    bindE (bu_squash ops squashed_sn tid u0) (\<lambda>u.
      case predHist u tid of
        [] \<Rightarrow> Inr u
      | e # es \<Rightarrow>
        checked (ph_seqNum e = squashed_sn) AssertFailed
          (let e0 = e\<lparr>predTaken := actually_taken, ph_target := ia corr_target\<rparr> in
           bindE (op_update ops tid (ph_pc e) actually_taken (bpHistory e) True (direction u)) (\<lambda>d.
           bindE (change_direction tid actually_taken (indirectHistory e) (iPred u)) (\<lambda>ip.
           bindE (let u1 = u\<lparr>direction := d, iPred := ip\<rparr> in
               if actually_taken then fix_taken ia rnd corr_target tid e0 u1 else fix_not_taken tid e0 u1)
             (\<lambda>(e1, u2). Inr (u2\<lparr>predHist := (predHist u2)(tid := e1 # es)\<rparr>))))))"

end
