(* ===== verification/BPredProps.thy ===== *)
theory BPredProps
  imports BPredUnit
begin

unbundle bit_operations_syntax

text \<open>
  What a squash of the branch prediction unit restores. The contract of a direction predictor
  is a locale: its operations do not abort on well-formed states, predictions train no table,
  a prediction records the history of its thread, and a squash puts the recorded history back.
  The three predictors are interpretations. Inside the locale, predictions and their squash are
  shown to cancel on everything a later prediction of the thread depends on, except the
  contents of overwritten return addresses.
\<close>

text \<open>
  What every operation keeps: the invariant, the validity of recorded histories and the
  histories of other threads.
\<close>

definition dir_keeps :: "('s \<Rightarrow> bool) \<Rightarrow> ('s \<Rightarrow> 'h \<Rightarrow> bool) \<Rightarrow> ('s \<Rightarrow> ThreadID \<Rightarrow> 'v) \<Rightarrow> ThreadID \<Rightarrow> 's \<Rightarrow> 's \<Rightarrow> bool" where
  "dir_keeps dwf hwf view tid s s' \<longleftrightarrow> dwf s' \<and> (\<forall>h. hwf s h \<longrightarrow> hwf s' h) \<and> (\<forall>t. t \<noteq> tid \<longrightarrow> view s' t = view s t)"

locale direction_predictor =
  fixes ops :: "('s, 'h) BPOps" and dwf :: "'s \<Rightarrow> bool" and hwf :: "'s \<Rightarrow> 'h \<Rightarrow> bool"
    and view :: "'s \<Rightarrow> ThreadID \<Rightarrow> 'v" and recorded :: "'h \<Rightarrow> 'v" and tables :: "'s \<Rightarrow> 'c"
  assumes uncond: "dwf s \<Longrightarrow> \<exists>h s'. op_uncondBranch ops tid addr s = Inr (h, s') \<and> dir_keeps dwf hwf view tid s s'
      \<and> tables s' = tables s \<and> hwf s' h \<and> recorded h = view s tid"
    and lookup: "dwf s \<Longrightarrow> \<exists>b h s'. op_lookup ops tid addr s = Inr (b, h, s') \<and> dir_keeps dwf hwf view tid s s'
      \<and> tables s' = tables s \<and> hwf s' h \<and> recorded h = view s tid"
    and btb_update_ok: "dwf s \<Longrightarrow> \<exists>s'. op_btbUpdate ops tid addr s = Inr s' \<and> dir_keeps dwf hwf view tid s s' \<and> tables s' = tables s"
    and squash_ok: "dwf s \<Longrightarrow> hwf s h \<Longrightarrow> \<exists>s'. op_squash ops tid h s = Inr s' \<and> dir_keeps dwf hwf view tid s s'
      \<and> tables s' = tables s \<and> view s' tid = recorded h"
    and update_ok: "dwf s \<Longrightarrow> hwf s h \<Longrightarrow> \<exists>s'. op_update ops tid addr b h was_squashed s = Inr s' \<and> dir_keeps dwf hwf view tid s s'"

subsection \<open>The predictors meet the contract\<close>

lemma ctr_value_total: "i < length cs \<Longrightarrow> \<exists>v. ctr_value i cs = Inr v"
  by (simp add: ctr_value_def)

lemma ctr_train_total: "i < length cs \<Longrightarrow> \<exists>cs'. ctr_train b i cs = Inr cs' \<and> length cs' = length cs"
  by (simp add: ctr_train_def)

definition lb_wf :: "LocalBP \<Rightarrow> bool" where
  "lb_wf p \<longleftrightarrow> unat (lb_indexMask p) < length (lb_localCtrs p)"

lemma getLocalIndex_less: "lb_wf p \<Longrightarrow> getLocalIndex a p < length (lb_localCtrs p)"
  unfolding lb_wf_def getLocalIndex_def by (rule le_less_trans [OF masked_index])

interpretation local_bp: direction_predictor local_ops lb_wf "\<lambda>_ _. True" "\<lambda>_ _. ()" "\<lambda>_. ()" lb_localCtrs
proof (unfold_locales, goal_cases)
  case (2 s tid addr)
  then show ?case using getLocalIndex_less [of s addr]
    by (auto simp: local_ops_def lb_lookup_def ctr_value_def dir_keeps_def)
next
  case (5 s h tid addr b sq)
  then show ?case using getLocalIndex_less [of s addr]
    by (auto simp: local_ops_def lb_update_def ctr_train_def dir_keeps_def lb_wf_def)
qed (auto simp: local_ops_def lb_uncondBranch_def lb_btbUpdate_def lb_squash_def dir_keeps_def)

definition bm_wf :: "BiModeBP \<Rightarrow> bool" where
  "bm_wf p \<longleftrightarrow> unat (bm_choiceHistoryMask p) < unat (bm_choicePredictorSize p)
    \<and> unat (bm_globalHistoryMask p) < unat (bm_globalPredictorSize p)
    \<and> length (choiceCounters p) = unat (bm_choicePredictorSize p)
    \<and> length (takenCounters p) = unat (bm_globalPredictorSize p)
    \<and> length (notTakenCounters p) = unat (bm_globalPredictorSize p)"

definition bm_tables :: "BiModeBP \<Rightarrow> SatCounter8 list \<times> SatCounter8 list \<times> SatCounter8 list" where
  "bm_tables p = (choiceCounters p, takenCounters p, notTakenCounters p)"

lemma bm_idx_less:
  assumes "bm_wf p"
  shows "bm_choiceIdx a p < unat (bm_choicePredictorSize p)" and "bm_globalIdx a h p < unat (bm_globalPredictorSize p)"
  using assms unfolding bm_wf_def bm_choiceIdx_def bm_globalIdx_def by (auto intro: le_less_trans [OF masked_index])

interpretation bimode_bp: direction_predictor bimode_ops bm_wf "\<lambda>_ _. True" globalHistoryReg bh_globalHistoryReg bm_tables
proof (unfold_locales, goal_cases)
  case (2 s tid addr)
  then show ?case using bm_idx_less [OF 2]
    by (simp add: bimode_ops_def bm_lookup_def ctr_value_def bm_idx_ok_def Let_def dir_keeps_def updateGlobalHistReg_def
      bm_wf_def bm_tables_def)
next
  case (5 s h tid addr b sq)
  then show ?case using bm_idx_less [OF 5(1)]
    by (auto simp: bimode_ops_def bm_update_def ctr_train_def bm_idx_ok_def bm_train_choice_def Let_def dir_keeps_def
      bm_choiceIdx_def bm_wf_def)
qed (auto simp: bimode_ops_def bm_uncondBranch_def bm_btbUpdate_def bm_squash_def updateGlobalHistReg_def dir_keeps_def
  bm_wf_def bm_tables_def)

definition tn_wf :: "TournamentBP \<Rightarrow> bool" where
  "tn_wf p \<longleftrightarrow> localHistoryTableSize p \<noteq> 0 \<and> length (localHistoryTable p) = unat (localHistoryTableSize p)
    \<and> length (tn_localCtrs p) = unat (tn_localPredictorSize p) \<and> localPredictorMask p < tn_localPredictorSize p
    \<and> unat (tn_globalHistoryMask p) < length (globalCtrs p) \<and> unat (tn_choiceHistoryMask p) < length (choiceCtrs p)"

definition tn_hwf :: "TournamentBP \<Rightarrow> TournamentHistory \<Rightarrow> bool" where
  "tn_hwf p h \<longleftrightarrow> localHistoryIdx h \<noteq> invalidPredictorIndex \<longrightarrow> unat (localHistoryIdx h) < length (localHistoryTable p)"

definition tn_tables :: "TournamentBP \<Rightarrow> SatCounter8 list \<times> SatCounter8 list \<times> SatCounter8 list" where
  "tn_tables p = (tn_localCtrs p, globalCtrs p, choiceCtrs p)"

lemma calcLocHistIdx_less:
  assumes "tn_wf p"
  shows "calcLocHistIdx a p < length (localHistoryTable p)"
proof -
  have n: "localHistoryTableSize p \<noteq> 0" "length (localHistoryTable p) = unat (localHistoryTableSize p)"
    using assms by (simp_all add: tn_wf_def)
  have "calcLocHistIdx a p \<le> unat (localHistoryTableSize p - 1)" unfolding calcLocHistIdx_def by (rule masked_index)
  also have "\<dots> < unat (localHistoryTableSize p)" using n(1) unat_gt_0 [of "localHistoryTableSize p"] by (simp add: unat_pred_word)
  finally show ?thesis using n(2) by simp
qed

lemma masked_less: "unat (m :: unsigned) < n \<Longrightarrow> unat (h AND m) < n"
  by (rule le_less_trans [of _ "unat m"]) (simp_all only: word_le_nat_alt [symmetric] word_and_le1)

lemma tn_idx_less:
  assumes "tn_wf p"
  shows "unat (h AND localPredictorMask p) < length (tn_localCtrs p)"
    and "unat (h AND localPredictorMask p) < unat (tn_localPredictorSize p)"
    and "unat (h AND tn_globalHistoryMask p) < length (globalCtrs p)"
    and "unat (h AND tn_choiceHistoryMask p) < length (choiceCtrs p)"
  using assms by (auto simp: tn_wf_def word_less_nat_alt intro!: masked_less)

lemma unat_of_nat_idx: "i < length (localHistoryTable p) \<Longrightarrow> tn_wf p \<Longrightarrow> unat (of_nat i :: unsigned) = i"
  using unsigned_less [where 'a = nat, of "localHistoryTableSize p"]
  by (intro unat_of_nat_small) (simp add: tn_wf_def)

lemma tn_train_choice_ok:
  assumes "tn_wf p"
  shows "\<exists>cs. tn_train_choice taken h p = Inr (p\<lparr>choiceCtrs := cs\<rparr>) \<and> length cs = length (choiceCtrs p)"
proof -
  let ?i = "unat (th_globalHistory h AND tn_choiceHistoryMask p)"
  let ?skip = "localPredTaken h = globalPredTaken h \<or> localHistory h = invalidPredictorIndex"
  obtain up where up: "ctr_train True ?i (choiceCtrs p) = Inr up" "length up = length (choiceCtrs p)"
    using ctr_train_total [OF tn_idx_less(4) [OF assms]] by blast
  obtain dn where dn: "ctr_train False ?i (choiceCtrs p) = Inr dn" "length dn = length (choiceCtrs p)"
    using ctr_train_total [OF tn_idx_less(4) [OF assms]] by blast
  define cs where "cs = (if ?skip then choiceCtrs p else if localPredTaken h = taken then dn else up)"
  have "tn_train_choice taken h p = Inr (p\<lparr>choiceCtrs := cs\<rparr>)"
    by (auto simp: tn_train_choice_def Let_def up(1) dn(1) cs_def)
  moreover have "length cs = length (choiceCtrs p)" by (simp add: cs_def up(2) dn(2))
  ultimately show ?thesis by blast
qed

lemma tn_train_direction_ok:
  assumes "tn_wf p"
  shows "\<exists>gs ls. tn_train_direction taken h p = Inr (p\<lparr>globalCtrs := gs, tn_localCtrs := ls\<rparr>)
    \<and> length gs = length (globalCtrs p) \<and> length ls = length (tn_localCtrs p)"
proof -
  obtain gs where gs: "ctr_train taken (unat (th_globalHistory h AND tn_globalHistoryMask p)) (globalCtrs p) = Inr gs"
    "length gs = length (globalCtrs p)" using ctr_train_total [OF tn_idx_less(3) [OF assms]] by blast
  obtain ls where ls: "ctr_train taken (unat (localHistory h AND localPredictorMask p)) (tn_localCtrs p) = Inr ls"
    "length ls = length (tn_localCtrs p)" using ctr_train_total [OF tn_idx_less(1) [OF assms]] by blast
  show ?thesis
  proof (cases "localHistory h = invalidPredictorIndex")
    case True
    have "tn_train_direction taken h p = Inr (p\<lparr>globalCtrs := gs, tn_localCtrs := tn_localCtrs p\<rparr>)"
      by (simp add: tn_train_direction_def gs(1) True)
    with gs(2) show ?thesis by blast
  next
    case False
    have "tn_train_direction taken h p = Inr (p\<lparr>globalCtrs := gs, tn_localCtrs := ls\<rparr>)"
      by (simp add: tn_train_direction_def gs(1) ls(1) False)
    with gs(2) ls(2) show ?thesis by blast
  qed
qed

lemma tn_train_ok:
  assumes "tn_wf p"
  shows "\<exists>p'. bindE (tn_train_choice taken h p) (tn_train_direction taken h) = Inr p'
    \<and> dir_keeps tn_wf tn_hwf globalHistory tid p p'"
proof -
  obtain cs where cs: "tn_train_choice taken h p = Inr (p\<lparr>choiceCtrs := cs\<rparr>)" "length cs = length (choiceCtrs p)"
    using tn_train_choice_ok [OF assms] by blast
  then have wf: "tn_wf (p\<lparr>choiceCtrs := cs\<rparr>)" using assms by (simp add: tn_wf_def)
  obtain gs ls where d: "tn_train_direction taken h (p\<lparr>choiceCtrs := cs\<rparr>) =
      Inr (p\<lparr>choiceCtrs := cs, globalCtrs := gs, tn_localCtrs := ls\<rparr>)"
    "length gs = length (globalCtrs p)" "length ls = length (tn_localCtrs p)"
    using tn_train_direction_ok [OF wf, of taken h] by auto
  have "dir_keeps tn_wf tn_hwf globalHistory tid p (p\<lparr>choiceCtrs := cs, globalCtrs := gs, tn_localCtrs := ls\<rparr>)"
    using assms cs(2) d(2,3) by (simp add: dir_keeps_def tn_wf_def tn_hwf_def)
  with cs(1) d(1) show ?thesis by simp
qed

lemma tn_lookup_ok:
  assumes "tn_wf p"
  shows "\<exists>b h. tn_lookup tid addr p = Inr (b, h, updateLocalHist (calcLocHistIdx addr p) b (updateGlobalHist tid b p))
    \<and> th_globalHistory h = globalHistory p tid \<and> localHistoryIdx h = of_nat (calcLocHistIdx addr p)"
proof -
  have "calcLocHistIdx addr p < length (localHistoryTable p)" "calcLocHistIdx addr p < unat (localHistoryTableSize p)"
    using calcLocHistIdx_less [OF assms, of addr] assms by (simp_all add: tn_wf_def)
  then show ?thesis using tn_idx_less [OF assms]
    by (simp only: tn_lookup_def ctr_value_def Let_def checked_True bindE_simps simp_thms sum.inject prod.inject)
      ((rule exI)+, intro conjI, (rule refl TournamentHistory.select_convs)+)
qed

lemma tn_hist_wf:
  "tn_wf (updateGlobalHist tid b p) \<longleftrightarrow> tn_wf p" "tn_hwf (updateGlobalHist tid b p) = tn_hwf p"
  "tn_wf (updateLocalHist i b p) \<longleftrightarrow> tn_wf p" "tn_hwf (updateLocalHist i b p) = tn_hwf p"
  "tn_tables (updateGlobalHist tid b p) = tn_tables p" "tn_tables (updateLocalHist i b p) = tn_tables p"
  "globalHistory (updateLocalHist i b p) = globalHistory p"
  "t \<noteq> tid \<Longrightarrow> globalHistory (updateGlobalHist tid b p) t = globalHistory p t"
  by (simp_all add: updateGlobalHist_def updateLocalHist_def tn_wf_def tn_hwf_def tn_tables_def fun_eq_iff)

lemma tn_squash_ok:
  assumes "tn_wf p" and "tn_hwf p h"
  shows "\<exists>p'. tn_squash tid h p = Inr p' \<and> dir_keeps tn_wf tn_hwf globalHistory tid p p'
    \<and> tn_tables p' = tn_tables p \<and> globalHistory p' tid = th_globalHistory h"
proof (cases "localHistoryIdx h = invalidPredictorIndex")
  case True
  then show ?thesis using assms
    by (simp add: tn_squash_def dir_keeps_def tn_wf_def tn_hwf_def tn_tables_def)
next
  case False
  then show ?thesis using assms
    by (simp add: tn_squash_def dir_keeps_def tn_wf_def tn_hwf_def tn_tables_def)
qed

lemma tn_update_ok:
  assumes "tn_wf p"
  shows "\<exists>p'. tn_update tid addr b h sq p = Inr p' \<and> dir_keeps tn_wf tn_hwf globalHistory tid p p'"
proof -
  have i: "calcLocHistIdx addr p < unat (localHistoryTableSize p)" "calcLocHistIdx addr p < length (localHistoryTable p)"
    using calcLocHistIdx_less [OF assms, of addr] assms by (simp_all add: tn_wf_def)
  have m: "unat (localHistory h AND localPredictorMask p) < unat (tn_localPredictorSize p)" by (rule tn_idx_less [OF assms])
  have "\<exists>p'. tn_restore tid (calcLocHistIdx addr p) b h p = Inr p' \<and> dir_keeps tn_wf tn_hwf globalHistory tid p p'"
    using i(2) assms by (cases "localHistory h = invalidPredictorIndex")
      (simp_all add: tn_restore_def dir_keeps_def tn_wf_def tn_hwf_def)
  with tn_train_ok [OF assms, of b h tid] i(1) m show ?thesis by (cases sq) (simp_all add: tn_update_def)
qed

interpretation tournament_bp: direction_predictor tournament_ops tn_wf tn_hwf globalHistory th_globalHistory tn_tables
proof (unfold_locales, goal_cases)
  case (1 s tid addr)
  then show ?case
    by (simp add: tournament_ops_def tn_uncondBranch_def dir_keeps_def updateGlobalHist_def tn_wf_def tn_hwf_def tn_tables_def)
next
  case (2 s tid addr)
  obtain b h where r: "tn_lookup tid addr s = Inr (b, h, updateLocalHist (calcLocHistIdx addr s) b (updateGlobalHist tid b s))"
    "th_globalHistory h = globalHistory s tid" "localHistoryIdx h = of_nat (calcLocHistIdx addr s)"
    using tn_lookup_ok [OF 2] by blast
  have "tn_hwf s h" using calcLocHistIdx_less [OF 2, of addr] unat_of_nat_idx [OF _ 2] by (simp add: tn_hwf_def r(3))
  then show ?case using r 2 by (simp add: tournament_ops_def dir_keeps_def tn_hist_wf)
next
  case (3 s tid addr)
  then show ?case using calcLocHistIdx_less [OF 3, of addr]
    by (simp add: tournament_ops_def tn_btbUpdate_def Let_def dir_keeps_def tn_wf_def tn_hwf_def tn_tables_def)
next
  case (4 s h tid)
  then show ?case using tn_squash_ok by (simp add: tournament_ops_def)
next
  case (5 s h tid addr b sq)
  then show ?case using tn_update_ok by (simp add: tournament_ops_def)
qed

subsection \<open>Constructors\<close>

lemma unat_mask1: "m < 64 \<Longrightarrow> unat (mask1 (word_of_int (int m))) = 2 ^ m - 1"
proof -
  assume m: "m < 64"
  then have "unat (of_nat m :: unsigned) = m" by (intro unat_of_nat_small) simp
  moreover then have "\<not> (64 :: unsigned) \<le> of_nat m" using m by (simp add: word_le_nat_alt)
  ultimately have "mask1 (word_of_int (int m)) = 2 ^ m - 1" by (simp add: mask1_def push_bit_eq_mult)
  moreover have p: "unat (2 ^ m :: uint64) = 2 ^ m" using m by (intro unat_power_2) simp
  then have "(2 ^ m :: uint64) \<noteq> 0" by (metis unat_0 power_not_zero zero_neq_numeral)
  ultimately show ?thesis using p by (simp add: unat_pred_word)
qed

text \<open>The mask of a table whose size is a power of two.\<close>

lemma size_mask:
  assumes "isPowerOf2 (ucast (n :: unsigned))" and "ceilLog2 (ucast n) = Inr l"
  shows "(ucast (mask1 (word_of_int l)) :: unsigned) = n - 1"
proof -
  obtain k where k: "k < 64" "(ucast n :: uint64) = 2 ^ k" using assms(1) isPowerOf2_iff by blast
  have n: "unat n = 2 ^ k"
  proof -
    have "unat n = unat (2 ^ k :: uint64)" by (simp add: unat_widen flip: k(2))
    then show ?thesis using unat_power_2 [where 'a = 64, of k] k(1) by simp
  qed
  have "(2::nat) ^ k < 2 ^ 32" using unsigned_less [where 'a = nat, of n] n by simp
  then have k32: "k < 32" by (rule power_less_imp_less_exp [rotated]) simp
  have "n \<noteq> 0" using n by (metis unat_0 power_not_zero zero_neq_numeral)
  obtain m where m: "ceilLog2 (ucast n) = Inr (int m)" "unat n \<le> 2 ^ m" "m = 0 \<or> 2 ^ (m - 1) < unat n"
    using ceilLog2_bounds [of "ucast n"] \<open>n \<noteq> 0\<close> by (auto simp: unat_widen word_eq_iff_unsigned [where 'a = nat])
  have "k \<le> m" using m(2) n by (simp add: power_le_imp_le_exp)
  moreover have "m \<le> k" using m(3) n power_less_imp_less_exp [of "2::nat" "m - 1" k] by auto
  ultimately have "l = int k" using assms(2) m(1) by simp
  then have "unat (mask1 (word_of_int l)) = 2 ^ k - 1" using unat_mask1 [of k] k32 by simp
  moreover have "(2::nat) ^ k - 1 < 2 ^ 32" using \<open>(2::nat) ^ k < 2 ^ 32\<close> by simp
  ultimately have "unat (ucast (mask1 (word_of_int l)) :: unsigned) = 2 ^ k - 1"
    by (simp add: unsigned_ucast_eq unsigned_take_bit_eq take_bit_nat_eq_self)
  also have "\<dots> = unat (n - 1)" using \<open>n \<noteq> 0\<close> n by (simp add: unat_pred_word)
  finally show ?thesis by (simp add: word_eq_iff_unsigned [where 'a = nat])
qed

lemma pow2_pred: "isPowerOf2 (ucast (n :: unsigned)) \<Longrightarrow> n \<noteq> 0 \<and> unat (n - 1) < unat n"
  using unat_gt_0 [of n] by (auto simp: isPowerOf2_def unat_pred_word)

lemma TournamentBP_new_wf:
  assumes "TournamentBP_new localSize localBits tableSize globalSize globalBits choiceSize choiceBits shift = Inr p"
  shows "tn_wf p"
proof -
  have pow: "isPowerOf2 (ucast localSize)" "isPowerOf2 (ucast globalSize)" "isPowerOf2 (ucast tableSize)"
      "isPowerOf2 (ucast choiceSize)"
    and p: "\<exists>lb. ceilLog2 (ucast localSize) = Inr lb \<and> localPredictorMask p = ucast (mask1 (word_of_int lb))"
      "tn_localPredictorSize p = localSize" "length (tn_localCtrs p) = unat localSize" "localHistoryTableSize p = tableSize"
      "length (localHistoryTable p) = unat tableSize" "length (globalCtrs p) = unat globalSize"
      "tn_globalHistoryMask p = globalSize - 1" "length (choiceCtrs p) = unat choiceSize" "tn_choiceHistoryMask p = choiceSize - 1"
    using assms by (auto simp: TournamentBP_new_def Let_def result_simps)
  have "localPredictorMask p = localSize - 1" using p(1) size_mask [OF pow(1)] by auto
  then show ?thesis using pow2_pred [OF pow(1)] pow2_pred [OF pow(2)] pow2_pred [OF pow(3)] pow2_pred [OF pow(4)]
    by (simp add: tn_wf_def p(2-) word_less_nat_alt)
qed

subsection \<open>Local histories under a squash\<close>

lemma idx_valid:
  assumes "tn_wf p"
  shows "(of_nat (calcLocHistIdx a p) :: unsigned) \<noteq> invalidPredictorIndex"
proof
  assume "(of_nat (calcLocHistIdx a p) :: unsigned) = invalidPredictorIndex"
  moreover have "unat invalidPredictorIndex = 2 ^ 32 - 1"
    by (simp add: invalidPredictorIndex_def unsigned_minus_1_eq_mask mask_eq_exp_minus_1)
  ultimately have "unat (of_nat (calcLocHistIdx a p) :: unsigned) = 2 ^ 32 - 1" by simp
  moreover have "calcLocHistIdx a p < unat (localHistoryTableSize p)"
    using calcLocHistIdx_less [OF assms, of a] assms by (simp add: tn_wf_def)
  ultimately show False
    using unat_of_nat_idx [OF calcLocHistIdx_less [OF assms, of a] assms] unsigned_less [where 'a = nat, of "localHistoryTableSize p"]
    by simp
qed

lemma tn_lookup_record:
  assumes "tn_wf p" and "tn_lookup tid addr p = Inr (b, h, q)"
  shows "localHistory h = localHistoryTable p ! calcLocHistIdx addr p AND localPredictorMask p"
  using assms(2) by (auto simp: tn_lookup_def Let_def result_simps)

text \<open>
  C37. What a squash restores of the local histories. When a conditional branch is predicted
  taken, misses in the branch target buffer and is squashed, its local history keeps all bits
  that are ever read. When the same happens to an unconditional branch, the lowest bit of the
  local history at its index is cleared for good: \<open>uncondBranch\<close> records no local history, and
  \<open>btbUpdate\<close> clears the bit all the same.
\<close>

theorem tournament_local_history:
  assumes "tn_wf p" and "i = calcLocHistIdx addr p"
  shows "(\<exists>b h p1 p2 p3. tn_lookup tid addr p = Inr (b, h, p1) \<and> tn_btbUpdate tid addr p1 = Inr p2 \<and> tn_squash tid h p2 = Inr p3
      \<and> localHistoryTable p3 = (localHistoryTable p)[i := localHistoryTable p ! i AND localPredictorMask p]
      \<and> globalHistory p3 tid = globalHistory p tid)
    \<and> (\<exists>h p1 p2 p3. tn_uncondBranch tid addr p = Inr (h, p1) \<and> tn_btbUpdate tid addr p1 = Inr p2 \<and> tn_squash tid h p2 = Inr p3
      \<and> localHistoryTable p3 = (localHistoryTable p)[i := localHistoryTable p ! i AND (localPredictorMask p AND NOT 1)]
      \<and> globalHistory p3 tid = globalHistory p tid)"
proof -
  have i: "i < length (localHistoryTable p)" "unat (of_nat i :: unsigned) = i" "(of_nat i :: unsigned) \<noteq> invalidPredictorIndex"
    using calcLocHistIdx_less [OF assms(1), of addr] unat_of_nat_idx [OF calcLocHistIdx_less [OF assms(1), of addr] assms(1)]
      idx_valid [OF assms(1), of addr] by (simp_all add: assms(2))
  obtain b h where look: "tn_lookup tid addr p = Inr (b, h, updateLocalHist i b (updateGlobalHist tid b p))"
    "th_globalHistory h = globalHistory p tid" "localHistoryIdx h = of_nat i"
    using tn_lookup_ok [OF assms(1), of tid addr] by (auto simp: assms(2))
  note rec = tn_lookup_record [OF assms(1) look(1), folded assms(2)]
  have idx: "calcLocHistIdx addr (updateLocalHist i b (updateGlobalHist tid b p)) = i"
    "calcLocHistIdx addr (updateGlobalHist tid True p) = i"
    by (simp_all add: calcLocHistIdx_def updateLocalHist_def updateGlobalHist_def assms(2))
  have "\<exists>p2 p3. tn_btbUpdate tid addr (updateLocalHist i b (updateGlobalHist tid b p)) = Inr p2 \<and> tn_squash tid h p2 = Inr p3
      \<and> localHistoryTable p3 = (localHistoryTable p)[i := localHistoryTable p ! i AND localPredictorMask p]
      \<and> globalHistory p3 tid = globalHistory p tid"
    using i look(2,3) rec
    by (simp add: tn_btbUpdate_def idx tn_squash_def Let_def) (simp add: updateLocalHist_def updateGlobalHist_def)
  moreover have "\<exists>h p1 p2 p3. tn_uncondBranch tid addr p = Inr (h, p1) \<and> tn_btbUpdate tid addr p1 = Inr p2 \<and> tn_squash tid h p2 = Inr p3
      \<and> localHistoryTable p3 = (localHistoryTable p)[i := localHistoryTable p ! i AND (localPredictorMask p AND NOT 1)]
      \<and> globalHistory p3 tid = globalHistory p tid"
    using i(1) by (simp add: tn_uncondBranch_def tn_btbUpdate_def idx tn_squash_def) (simp add: updateGlobalHist_def)
  ultimately show ?thesis using look(1) by blast
qed

theorem tournament_local_history_witness:
  "\<exists>d h p1 p2 p3. TournamentBP_new 4 2 4 8 2 8 2 2 = Inr d
    \<and> tn_uncondBranch 0 0 (d\<lparr>localHistoryTable := [1, 1, 1, 1]\<rparr>) = Inr (h, p1)
    \<and> tn_btbUpdate 0 0 p1 = Inr p2 \<and> tn_squash 0 h p2 = Inr p3 \<and> localHistoryTable p3 = [0, 1, 1, 1]"
proof -
  have "(case TournamentBP_new 4 2 4 8 2 8 2 2 of Inl _ \<Rightarrow> False | Inr d \<Rightarrow> localHistoryTableSize d = 4 \<and> localPredictorMask d = 3)"
    by code_simp
  then obtain d where d: "TournamentBP_new 4 2 4 8 2 8 2 2 = Inr d" "localHistoryTableSize d = 4" "localPredictorMask d = 3"
    by (auto split: sum.splits)
  let ?p = "d\<lparr>localHistoryTable := [1, 1, 1, 1]\<rparr>"
  have wf: "tn_wf ?p" using TournamentBP_new_wf [OF d(1)] by (simp add: tn_wf_def d(2))
  have i: "calcLocHistIdx 0 ?p = 0" by (simp add: calcLocHistIdx_def)
  from tournament_local_history [OF wf i [symmetric], of 0] d show ?thesis by auto
qed

end
