(* ===== verification/BPredSquash.thy ===== *)
theory BPredSquash
  imports BPredProps
begin

text \<open>
  Predictions of the branch prediction unit and their squash cancel. The stages of \<open>predict\<close> keep an
  invariant that says how the new history entry undoes what the stages did; a squash then walks
  the entries back. The lemmas are proved in the locale of direction predictors, the property
  for the tournament predictor, the default of the O3 CPU, at its interpretation.
\<close>

subsection \<open>What a history entry undoes\<close>

text \<open>The parts of the unit whose operations must not abort.\<close>

definition bpu_ok :: "('s \<Rightarrow> bool) \<Rightarrow> nat \<Rightarrow> ('pc, 's, 'h) BPU \<Rightarrow> bool" where
  "bpu_ok dwf threads u \<longleftrightarrow> dwf (direction u) \<and> btb_wf threads (BTB u) \<and> (\<forall>t. ras_wf (RAS u t))
    \<and> (\<forall>ip. iPred u = Some ip \<longrightarrow> ip_wf ip)"

text \<open>An entry leads from a stack back to the stack index before its prediction.\<close>

definition ras_back :: "nat \<Rightarrow> ('pc, 'h) PredictorHistory \<Rightarrow> 'pc ReturnAddrStack \<Rightarrow> bool" where
  "ras_back t e r \<longleftrightarrow> t < ras_numEntries r
    \<and> (if usedRAS e then RASIndex e = t else if wasCall e \<and> pushedRAS e then tos (decrTos r) = t else tos r = t)"

text \<open>A prediction changes the global history and appends to the path of its thread.\<close>

definition path_grows :: "ThreadID \<Rightarrow> InstSeqNum set \<Rightarrow> 'pc SimpleIndirect \<Rightarrow> 'pc SimpleIndirect \<Rightarrow> bool" where
  "path_grows tid sns p q \<longleftrightarrow> (\<exists>g es. q = upd_thread tid (\<lambda>t. t\<lparr>pathHist := pathHist t @ es, ghr := g\<rparr>) p
    \<and> he_seqNum ` set es \<subseteq> sns)"

definition ip_grows :: "ThreadID \<Rightarrow> InstSeqNum set \<Rightarrow> 'pc SimpleIndirect option \<Rightarrow> 'pc SimpleIndirect option \<Rightarrow> bool" where
  "ip_grows tid sns = rel_option (path_grows tid sns)"

lemma decr_push:
  assumes "ras_wf r" and "ras_push a r = Inr r'"
  shows "tos (decrTos r') = tos r" and "ras_numEntries r' = ras_numEntries r"
proof -
  have r': "tos r' = tos (incrTos r)" "ras_numEntries r' = ras_numEntries r" using assms by (auto simp: ras_push_eq)
  have "tos (decrTos r') = (if tos r' = 0 then ras_numEntries r' - 1 else tos r' - 1)"
    by (simp add: decrTos_tos [OF ras_ops_wf(1) [OF assms]])
  then show "tos (decrTos r') = tos r" using r' assms(1) by (auto simp: incrTos_tos ras_wf_def)
  show "ras_numEntries r' = ras_numEntries r" by (rule r')
qed

lemma ras_back_cong:
  assumes "tos r = tos r'" and "ras_numEntries r = ras_numEntries r'"
  shows "ras_back t e r = ras_back t e r'"
proof -
  have "tos (decrTos r) = tos (decrTos r')" using assms by (simp add: decrTos_def)
  then show ?thesis using assms by (simp add: ras_back_def)
qed

lemma ras_back_restore:
  assumes "ras_wf r" and "ras_back t e r"
  shows "\<exists>r'. undo_ras e r = Inr r' \<and> ras_wf r' \<and> tos r' = t \<and> ras_numEntries r' = ras_numEntries r"
proof -
  define r1 where "r1 = (if wasCall e \<and> pushedRAS e then ras_pop r else r)"
  have r1: "ras_wf r1" "ras_numEntries r1 = ras_numEntries r"
    using assms(1) ras_ops_wf(2) [OF assms(1)] by (simp_all add: r1_def ras_pop_eq)
  show ?thesis
  proof (cases "usedRAS e")
    case True
    then have "t < ras_numEntries r1" "RASIndex e = t" using assms(2) r1(2) by (simp_all add: ras_back_def)
    with ras_restore_eq [OF r1(1), of t "RASTarget e"] ras_ops_wf(3) [OF r1(1), of t "RASTarget e"] True r1(2)
    show ?thesis by (simp add: undo_ras_def r1_def [symmetric])
  next
    case False
    then have "tos r1 = t" using assms by (auto simp: ras_back_def r1_def ras_pop_eq)
    with False r1 show ?thesis by (simp add: undo_ras_def r1_def [symmetric])
  qed
qed

lemma path_growsI:
  "q = upd_thread tid (\<lambda>t. t\<lparr>pathHist := pathHist t @ es, ghr := g\<rparr>) p \<Longrightarrow> he_seqNum ` set es \<subseteq> sns \<Longrightarrow> path_grows tid sns p q"
  unfolding path_grows_def by blast

lemma path_grows_refl: "path_grows tid sns p p"
proof -
  have "p = upd_thread tid (\<lambda>t. t\<lparr>pathHist := pathHist t @ [], ghr := ghr (threadInfo p tid)\<rparr>) p"
    by (simp add: upd_thread_def)
  then show ?thesis by (rule path_growsI) simp
qed

lemma path_grows_trans:
  assumes "path_grows tid sns p q" and "path_grows tid sns' q r"
  shows "path_grows tid (sns \<union> sns') p r"
proof -
  obtain g es g' es' where q: "q = upd_thread tid (\<lambda>t. t\<lparr>pathHist := pathHist t @ es, ghr := g\<rparr>) p" "he_seqNum ` set es \<subseteq> sns"
    and r: "r = upd_thread tid (\<lambda>t. t\<lparr>pathHist := pathHist t @ es', ghr := g'\<rparr>) q" "he_seqNum ` set es' \<subseteq> sns'"
    using assms by (auto simp: path_grows_def)
  have "r = upd_thread tid (\<lambda>t. t\<lparr>pathHist := pathHist t @ (es @ es'), ghr := g'\<rparr>) p"
    by (simp add: q(1) r(1) upd_thread_def)
  moreover have "he_seqNum ` set (es @ es') \<subseteq> sns \<union> sns'" using q(2) r(2) by auto
  ultimately show ?thesis unfolding path_grows_def by blast
qed

lemma ip_grows_refl: "ip_grows tid sns p p"
  unfolding ip_grows_def by (rule option.rel_refl) (rule path_grows_refl)

lemma ip_grows_trans: "ip_grows tid sns p q \<Longrightarrow> ip_grows tid sns' q r \<Longrightarrow> ip_grows tid (sns \<union> sns') p r"
  unfolding ip_grows_def by (cases p; cases q; cases r) (auto intro: path_grows_trans)

lemma ip_grows_direction: "ip_grows tid sns p (map_option (updateDirectionInfo tid b) p)"
proof (cases p)
  case (Some q)
  have "updateDirectionInfo tid b q =
    upd_thread tid (\<lambda>t. t\<lparr>pathHist := pathHist t @ [], ghr := ghr (threadInfo (updateDirectionInfo tid b q) tid)\<rparr>) q"
    by (simp add: updateDirectionInfo_def upd_thread_def)
  then have "path_grows tid sns q (updateDirectionInfo tid b q)" by (rule path_growsI) simp
  then show ?thesis by (simp add: Some ip_grows_def)
qed (simp add: ip_grows_def)

lemma path_grows_record: "path_grows tid {sn} p (recordIndirect a b sn tid p)"
proof -
  have "recordIndirect a b sn tid p = upd_thread tid (\<lambda>t. t\<lparr>pathHist := pathHist t
      @ [\<lparr>pcAddr = a, targetAddr = b, he_seqNum = sn\<rparr>], ghr := ghr (threadInfo p tid)\<rparr>) p"
    by (simp add: recordIndirect_def upd_thread_def)
  then show ?thesis by (rule path_growsI) simp
qed

lemma path_grows_wf: "path_grows tid sns p q \<Longrightarrow> ip_wf q = ip_wf p"
  by (auto simp: path_grows_def)

text \<open>A squash removes what grew.\<close>

lemma ip_squash_grown:
  assumes "path_grows tid sns p q" and "\<forall>e \<in> set (pathHist (threadInfo p tid)). he_seqNum e \<le> sn" and "\<forall>n \<in> sns. sn < n"
  shows "\<exists>g. ip_squash sn tid q = deleteIndirectInfo tid g p"
proof -
  obtain g es where q: "q = upd_thread tid (\<lambda>t. t\<lparr>pathHist := pathHist t @ es, ghr := g\<rparr>) p" "he_seqNum ` set es \<subseteq> sns"
    using assms(1) by (auto simp: path_grows_def)
  have "takeWhile (\<lambda>e. he_seqNum e \<le> sn) es = []"
    using q(2) assms(3) by (cases es) (auto dest: leD)
  then have "takeWhile (\<lambda>e. he_seqNum e \<le> sn) (pathHist (threadInfo p tid) @ es) = pathHist (threadInfo p tid)"
    using assms(2) by (simp add: takeWhile_append)
  then have "ip_squash sn tid q = deleteIndirectInfo tid g p"
    by (simp add: q(1) ip_squash_def deleteIndirectInfo_def upd_thread_def)
  then show ?thesis by blast
qed

lemma delete_delete [simp]: "deleteIndirectInfo tid g (deleteIndirectInfo tid g' p) = deleteIndirectInfo tid g p"
  by (simp add: deleteIndirectInfo_def upd_thread_def)

lemma delete_own [simp]: "deleteIndirectInfo tid (genIndirectInfo tid p) p = p"
  by (simp add: deleteIndirectInfo_def genIndirectInfo_def upd_thread_def)

lemma dir_keeps_trans:
  "dir_keeps dwf hwf view tid a b \<Longrightarrow> dir_keeps dwf hwf view tid b c \<Longrightarrow> dir_keeps dwf hwf view tid a c"
  by (simp add: dir_keeps_def)

text \<open>The predictions of a thread, one branch after the other.\<close>

definition predict_all ::
  "('pc \<Rightarrow> Addr) \<Rightarrow> ('s, 'h) BPOps \<Rightarrow> ThreadID \<Rightarrow> ('pc BranchInst \<times> InstSeqNum \<times> 'pc) list \<Rightarrow> ('pc, 's, 'h) BPU
    \<Rightarrow> ('pc, 's, 'h) BPU result" where
  "predict_all ia ops tid bs u =
    foldE (\<lambda>(inst, sn, pc) u. bindE (predict ia ops inst sn pc tid u) (\<lambda>(_, _, v). Inr v)) bs u"

lemma foldE_snoc: "foldE f (xs @ [x]) s = bindE (foldE f xs s) (f x)"
proof -
  have "bindE r (foldE f []) = r" for r by (cases r) simp_all
  then show ?thesis by (cases "foldE f xs s") (simp_all add: foldE_append)
qed

lemma predict_all_snoc:
  "predict_all ia ops tid (bs @ [(inst, sn, pc)]) u =
    bindE (predict_all ia ops tid bs u) (\<lambda>v. bindE (predict ia ops inst sn pc tid v) (\<lambda>(_, _, w). Inr w))"
  by (simp add: predict_all_def foldE_snoc)

subsection \<open>The stages of a prediction\<close>

context direction_predictor
begin

text \<open>What predictions of a thread keep of the unit.\<close>

definition unit_ok :: "nat \<Rightarrow> ThreadID \<Rightarrow> InstSeqNum set \<Rightarrow> ('pc, 's, 'h) BPU \<Rightarrow> ('pc, 's, 'h) BPU \<Rightarrow> bool" where
  "unit_ok threads tid sns u v \<longleftrightarrow> bpu_ok dwf threads v \<and> BTB u = BTB v
    \<and> dir_keeps dwf hwf view tid (direction u) (direction v) \<and> tables (direction u) = tables (direction v)
    \<and> (\<forall>t. t \<noteq> tid \<longrightarrow> RAS u t = RAS v t) \<and> ras_numEntries (RAS u tid) = ras_numEntries (RAS v tid)
    \<and> ip_grows tid sns (iPred u) (iPred v)"

definition entry_back :: "ThreadID \<Rightarrow> ('pc, 's, 'h) BPU \<Rightarrow> ('pc, 's, 'h) BPU \<Rightarrow> ('pc, 'h) PredictorHistory \<Rightarrow> bool" where
  "entry_back tid u v e \<longleftrightarrow> hwf (direction v) (bpHistory e) \<and> recorded (bpHistory e) = view (direction u) tid
    \<and> indirectHistory e = map_option (genIndirectInfo tid) (iPred u) \<and> ras_back (tos (RAS u tid)) e (RAS v tid)"

definition prediction_ok :: "nat \<Rightarrow> ThreadID \<Rightarrow> InstSeqNum \<Rightarrow> ('pc, 's, 'h) BPU \<Rightarrow> ('pc, 's, 'h) Prediction \<Rightarrow> bool" where
  "prediction_ok threads tid sn u p \<longleftrightarrow> unit_ok threads tid {sn} u (pd_unit p) \<and> predHist (pd_unit p) = predHist u
    \<and> ph_seqNum (pd_record p) = sn \<and> entry_back tid u (pd_unit p) (pd_record p)"

lemmas stage_defs = prediction_ok_def unit_ok_def entry_back_def bpu_ok_def

lemma predict_direction_ok:
  assumes "bpu_ok dwf threads u"
  shows "\<exists>p. predict_direction ops inst sn addr pc tid u = Inr p \<and> prediction_ok threads tid sn u p
    \<and> \<not> usedRAS (pd_record p) \<and> \<not> pushedRAS (pd_record p)"
proof -
  have wf: "dwf (direction u)" "tos (RAS u tid) < ras_numEntries (RAS u tid)" using assms by (auto simp: bpu_ok_def ras_wf_def)
  obtain b h d where d: "(if isUncondCtrl inst
        then bindE (op_uncondBranch ops tid addr (direction u)) (\<lambda>(h, d). Inr (True, h, d))
        else op_lookup ops tid addr (direction u)) = Inr (b, h, d)"
    "dir_keeps dwf hwf view tid (direction u) d" "tables d = tables (direction u)" "hwf d h" "recorded h = view (direction u) tid"
    using uncond [OF wf(1), of tid addr] lookup [OF wf(1), of tid addr] by (cases "isUncondCtrl inst") fastforce+
  then show ?thesis using assms wf ip_grows_refl [of tid "{sn}" "iPred u"]
    by (simp add: predict_direction_def stage_defs ras_back_def dir_keeps_def)
qed

lemma bpu_ok_ras: "bpu_ok dwf threads v \<Longrightarrow> ras_wf r \<Longrightarrow> bpu_ok dwf threads (set_ras tid r v)"
  by (simp add: bpu_ok_def set_ras_def)

lemma stage_ras:
  assumes "prediction_ok threads tid sn u p" and "ras_wf r" and "ras_numEntries r = ras_numEntries (RAS (pd_unit p) tid)"
    and "pd_unit q = set_ras tid r (pd_unit p)" and "ras_back (tos (RAS u tid)) (pd_record q) r"
    and "ph_seqNum (pd_record q) = ph_seqNum (pd_record p)" and "bpHistory (pd_record q) = bpHistory (pd_record p)"
    and "indirectHistory (pd_record q) = indirectHistory (pd_record p)"
  shows "prediction_ok threads tid sn u q"
proof -
  have "unit_ok threads tid {sn} u (set_ras tid r (pd_unit p))"
    using assms(1-3) bpu_ok_ras [of threads "pd_unit p" r tid] by (simp add: prediction_ok_def unit_ok_def) (simp add: set_ras_def)
  then show ?thesis using assms by (simp add: prediction_ok_def entry_back_def) (simp add: set_ras_def)
qed

lemma stage_stack:
  assumes "prediction_ok threads tid sn u p"
  shows "ras_wf (RAS (pd_unit p) tid)" and "tos (RAS u tid) < ras_numEntries (RAS (pd_unit p) tid)"
    and "ras_back (tos (RAS u tid)) (pd_record p) (RAS (pd_unit p) tid)"
  using assms by (simp_all add: stage_defs ras_back_def)

lemma predict_return_ok:
  assumes "prediction_ok threads tid sn u p" and "\<not> usedRAS (pd_record p)" and "\<not> pushedRAS (pd_record p)"
  shows "\<exists>q. predict_return inst pc tid p = Inr q \<and> prediction_ok threads tid sn u q \<and> \<not> pushedRAS (pd_record q)"
proof (cases "isReturn inst")
  case True
  note r = stage_stack [OF assms(1)]
  let ?r = "RAS (pd_unit p) tid"
  define q where "q = p\<lparr>
         pd_target := (case addrStack ?r ! tos ?r of Some a \<Rightarrow> buildRetPC inst pc a | None \<Rightarrow> pd_target p),
         pd_record := (pd_record p)\<lparr>wasReturn := True, usedRAS := True, RASIndex := topIdx ?r, RASTarget := addrStack ?r ! tos ?r\<rparr>,
         pd_unit := set_ras tid (ras_pop ?r) (pd_unit p)\<rparr>"
  have "predict_return inst pc tid p = Inr q"
    using True r(1) by (simp add: predict_return_def ras_top_def ras_wf_def q_def Let_def)
  moreover have "prediction_ok threads tid sn u q"
    by (rule stage_ras [OF assms(1) ras_ops_wf(2) [OF r(1)]])
      (use r assms(2,3) in \<open>simp_all add: q_def ras_pop_eq ras_back_def topIdx_def\<close>)
  ultimately show ?thesis using assms(3) by (auto simp: q_def)
qed (use assms in \<open>simp add: predict_return_def\<close>)

lemma predict_call_ok:
  assumes "prediction_ok threads tid sn u p" and "\<not> pushedRAS (pd_record p)"
  shows "\<exists>q. predict_call inst pc tid p = Inr q \<and> prediction_ok threads tid sn u q
    \<and> (isCall inst \<longrightarrow> wasCall (pd_record q) \<and> pushedRAS (pd_record q))"
proof (cases "isCall inst")
  case True
  note r = stage_stack [OF assms(1)]
  obtain r' where push: "ras_push pc (RAS (pd_unit p) tid) = Inr r'" using ras_push_eq [OF r(1)] by blast
  define q where "q = p\<lparr>pd_record := (pd_record p)\<lparr>pushedRAS := True, wasCall := True\<rparr>, pd_unit := set_ras tid r' (pd_unit p)\<rparr>"
  have "prediction_ok threads tid sn u q"
    by (rule stage_ras [OF assms(1) ras_ops_wf(1) [OF r(1) push]])
      (use r assms(2) decr_push [OF r(1) push] in \<open>simp_all add: q_def ras_back_def split: if_splits\<close>)
  then show ?thesis using True push by (simp add: predict_call_def q_def)
qed (use assms in \<open>simp add: predict_call_def\<close>)

lemma undo_call_ok:
  assumes "prediction_ok threads tid sn u p" and "isCall inst \<longrightarrow> wasCall (pd_record p) \<and> pushedRAS (pd_record p)"
  shows "prediction_ok threads tid sn u (undo_call inst tid p)"
proof (cases "isCall inst \<and> \<not> isUncondCtrl inst")
  case True
  note r = stage_stack [OF assms(1)]
  show ?thesis
    by (rule stage_ras [OF assms(1) ras_ops_wf(2) [OF r(1)]])
      (use r assms(2) True in \<open>simp_all add: undo_call_def ras_back_def ras_pop_eq split: if_splits\<close>)
qed (use assms(1) in \<open>auto simp: undo_call_def\<close>)

lemma fall_through_ok: "prediction_ok threads tid sn u p \<Longrightarrow> prediction_ok threads tid sn u (fall_through inst p)"
  by (simp add: fall_through_def prediction_ok_def entry_back_def ras_back_def)

lemma stage_direction:
  assumes "prediction_ok threads tid sn u p" and "dir_keeps dwf hwf view tid (direction (pd_unit p)) d"
    and "tables d = tables (direction (pd_unit p))"
  shows "prediction_ok threads tid sn u (p\<lparr>pd_unit := (pd_unit p)\<lparr>direction := d\<rparr>\<rparr>)"
  using assms dir_keeps_trans [of dwf hwf view tid "direction u" "direction (pd_unit p)" d]
  by (simp add: stage_defs) (simp add: dir_keeps_def)

lemma stage_indirect:
  assumes "prediction_ok threads tid sn u p" and "iPred (pd_unit p) = Some ip" and "path_grows tid {sn} ip ip'"
  shows "prediction_ok threads tid sn u (p\<lparr>pd_unit := (pd_unit p)\<lparr>iPred := Some ip'\<rparr>\<rparr>)"
proof -
  have "ip_grows tid {sn} (iPred (pd_unit p)) (Some ip')" using assms(2,3) by (simp add: ip_grows_def)
  then have "ip_grows tid {sn} (iPred u) (Some ip')"
    using assms(1) ip_grows_trans [of tid "{sn}" "iPred u" "iPred (pd_unit p)" "{sn}"] by (simp add: prediction_ok_def unit_ok_def)
  moreover have "ip_wf ip'" using assms path_grows_wf [OF assms(3)] by (simp add: stage_defs)
  ultimately show ?thesis using assms(1) by (simp add: stage_defs)
qed

lemma predict_btb_ok:
  assumes "prediction_ok threads tid sn u p" and "tid < threads" and "isCall inst \<longrightarrow> wasCall (pd_record p) \<and> pushedRAS (pd_record p)"
  shows "\<exists>q. predict_btb ops inst addr tid p = Inr q \<and> prediction_ok threads tid sn u q"
proof -
  have wf: "btb_wf threads (BTB (pd_unit p))" "dwf (direction (pd_unit p))" using assms(1) by (simp_all add: stage_defs)
  obtain d where d: "op_btbUpdate ops tid addr (direction (pd_unit p)) = Inr d"
    "dir_keeps dwf hwf view tid (direction (pd_unit p)) d" "tables d = tables (direction (pd_unit p))"
    using btb_update_ok [OF wf(2), of tid addr] by blast
  from btb_lookup_valid [OF wf(1) assms(2), of addr] show ?thesis
  proof
    assume "btb_valid addr tid (BTB (pd_unit p)) = Inr False"
    then show ?thesis
      using d(1) fall_through_ok [OF undo_call_ok [OF assms(1,3)]] fall_through_ok [OF stage_direction [OF assms(1) d(2,3)]]
      by (simp add: predict_btb_def)
  next
    assume "btb_valid addr tid (BTB (pd_unit p)) = Inr True \<and> (\<exists>t. btb_lookup addr tid (BTB (pd_unit p)) = Inr (Some t))"
    moreover have "prediction_ok threads tid sn u (p\<lparr>pd_target := t\<rparr>)" for t using assms(1) by (simp add: prediction_ok_def)
    ultimately show ?thesis by (auto simp: predict_btb_def)
  qed
qed

lemma predict_indirect_ok:
  assumes "prediction_ok threads tid sn u p" and "iPred (pd_unit p) = Some ip"
    and "isCall inst \<longrightarrow> wasCall (pd_record p) \<and> pushedRAS (pd_record p)"
  shows "\<exists>q. predict_indirect ia inst addr tid ip p = Inr q \<and> prediction_ok threads tid sn u q"
proof -
  define p0 where "p0 = p\<lparr>pd_record := (pd_record p)\<lparr>wasIndirect := True\<rparr>\<rparr>"
  have p0: "prediction_ok threads tid sn u p0" "isCall inst \<longrightarrow> wasCall (pd_record p0) \<and> pushedRAS (pd_record p0)"
    "iPred (pd_unit p0) = Some ip"
    using assms by (simp_all add: p0_def prediction_ok_def entry_back_def ras_back_def)
  have "ip_wf ip" using assms(1,2) by (simp add: stage_defs)
  then obtain t where t: "ip_lookup addr tid ip = Inr t" using ip_lookup_total by blast
  define p1 where "p1 = (case t of Some a \<Rightarrow> p0\<lparr>pd_target := a\<rparr> | None \<Rightarrow> fall_through inst (undo_call inst tid p0))"
  have p1: "prediction_ok threads tid sn u p1"
    using p0(1) fall_through_ok [OF undo_call_ok [OF p0(1,2)]] by (simp add: p1_def prediction_ok_def split: option.split)
  have ip: "iPred (pd_unit p1) = Some ip" "ph_seqNum (pd_record p1) = sn"
    using p0 p1 by (auto simp: p1_def fall_through_def undo_call_def set_ras_def prediction_ok_def split: option.split)
  show ?thesis using stage_indirect [OF p1 ip(1) path_grows_record] t
    by (simp add: predict_indirect_def p0_def [symmetric] p1_def [symmetric] ip(2))
qed

lemma predict_target_ok:
  assumes "prediction_ok threads tid sn u p" and "tid < threads" and "\<not> usedRAS (pd_record p)" and "\<not> pushedRAS (pd_record p)"
  shows "\<exists>q. predict_target ia ops inst pc tid p = Inr q \<and> prediction_ok threads tid sn u q"
proof (cases "pd_taken p")
  case True
  obtain p1 where p1: "predict_return inst pc tid p = Inr p1" "prediction_ok threads tid sn u p1" "\<not> pushedRAS (pd_record p1)"
    using predict_return_ok [OF assms(1,3,4)] by blast
  obtain p2 where p2: "predict_call inst pc tid p1 = Inr p2" "prediction_ok threads tid sn u p2"
    "isCall inst \<longrightarrow> wasCall (pd_record p2) \<and> pushedRAS (pd_record p2)"
    using predict_call_ok [OF p1(2,3)] by blast
  show ?thesis
    using True p1(1) p2(1,2) predict_btb_ok [OF p2(2) assms(2) p2(3)] predict_indirect_ok [OF p2(2) _ p2(3)]
    by (cases "iPred (pd_unit p2)") (simp_all add: predict_target_def)
next
  case False
  then show ?thesis using assms(1) by (simp add: predict_target_def prediction_ok_def entry_back_def ras_back_def)
qed

lemma predict_ok:
  assumes "bpu_ok dwf threads u" and "tid < threads"
  shows "\<exists>b t v e. predict ia ops inst sn pc tid u = Inr (b, t, v) \<and> unit_ok threads tid {sn} u v
    \<and> predHist v = (predHist u)(tid := e # predHist u tid) \<and> ph_seqNum e = sn \<and> entry_back tid u v e"
proof -
  obtain p0 where p0: "predict_direction ops inst sn (ia pc) pc tid u = Inr p0" "prediction_ok threads tid sn u p0"
    "\<not> usedRAS (pd_record p0)" "\<not> pushedRAS (pd_record p0)" using predict_direction_ok [OF assms(1)] by blast
  obtain p where p: "predict_target ia ops inst pc tid p0 = Inr p" "prediction_ok threads tid sn u p"
    using predict_target_ok [OF p0(2) assms(2) p0(3,4)] by blast
  define ip where "ip = map_option (updateDirectionInfo tid (pd_taken p0)) (iPred (pd_unit p))"
  have grows: "ip_grows tid {sn} (iPred u) ip"
    using p(2) ip_grows_trans [OF _ ip_grows_direction, of tid "{sn}" "iPred u" "iPred (pd_unit p)" "{sn}"]
    by (simp add: prediction_ok_def unit_ok_def ip_def)
  have wf: "\<forall>q. ip = Some q \<longrightarrow> ip_wf q"
    using p(2) by (auto simp: ip_def stage_defs updateDirectionInfo_def)
  define e where "e = (pd_record p)\<lparr>ph_target := ia (pd_target p)\<rparr>"
  define v where "v = (pd_unit p)\<lparr>iPred := ip, predHist := (predHist u)(tid := e # predHist u tid)\<rparr>"
  have "predict ia ops inst sn pc tid u = Inr (pd_taken p, pd_target p, v)"
    using p0(1) p(1,2) by (simp add: predict_def Let_def ip_def [symmetric] e_def [symmetric] v_def prediction_ok_def)
  moreover have "unit_ok threads tid {sn} u v \<and> ph_seqNum e = sn \<and> entry_back tid u v e"
    using p(2) grows wf by (simp add: v_def e_def stage_defs ras_back_def)
  moreover have "predHist v = (predHist u)(tid := e # predHist u tid)" by (simp add: v_def)
  ultimately show ?thesis by blast
qed

text \<open>A state that later predictions of the thread cannot tell from \<open>v\<close>, up to stack contents.\<close>

definition alike :: "nat \<Rightarrow> ThreadID \<Rightarrow> 'pc SimpleIndirect option \<Rightarrow> ('pc, 's, 'h) BPU \<Rightarrow> ('pc, 's, 'h) BPU \<Rightarrow> bool" where
  "alike threads tid ip0 v w \<longleftrightarrow> bpu_ok dwf threads w \<and> BTB v = BTB w \<and> view (direction v) = view (direction w)
    \<and> tables (direction v) = tables (direction w) \<and> (\<forall>h. hwf (direction v) h \<longrightarrow> hwf (direction w) h)
    \<and> (\<forall>t. t \<noteq> tid \<longrightarrow> RAS v t = RAS w t) \<and> tos (RAS v tid) = tos (RAS w tid)
    \<and> ras_numEntries (RAS v tid) = ras_numEntries (RAS w tid)
    \<and> map_option (genIndirectInfo tid) (iPred v) = map_option (genIndirectInfo tid) (iPred w)
    \<and> (\<exists>g. iPred w = map_option (deleteIndirectInfo tid g) ip0)"

lemma undo_indirect_ok:
  assumes "ip_grows tid sns ip iv" and "map_option (genIndirectInfo tid) iv = map_option (genIndirectInfo tid) iw"
    and "iw = map_option (deleteIndirectInfo tid g) ip0" and "\<forall>q. iw = Some q \<longrightarrow> ip_wf q"
  shows "\<exists>i. undo_indirect tid (map_option (genIndirectInfo tid) ip) iw = Inr i
    \<and> map_option (genIndirectInfo tid) i = map_option (genIndirectInfo tid) ip
    \<and> (\<exists>g. i = map_option (deleteIndirectInfo tid g) ip0) \<and> (\<forall>q. i = Some q \<longrightarrow> ip_wf q)"
proof (cases ip)
  case None
  then show ?thesis using assms by (auto simp: ip_grows_def undo_indirect_def)
next
  case (Some p)
  then obtain q q0 where "iw = Some q" "ip0 = Some q0" "q = deleteIndirectInfo tid g q0"
    using assms by (cases ip0) (auto simp: ip_grows_def option_rel_Some1)
  then show ?thesis using assms(4) Some
    by (auto simp: undo_indirect_def) (auto simp: deleteIndirectInfo_def genIndirectInfo_def)
qed

lemma squash_entry_ok:
  assumes "unit_ok threads tid sns u v" and "entry_back tid u v e" and "alike threads tid ip0 v w"
  shows "\<exists>w'. squash_entry ops tid e w = Inr w' \<and> alike threads tid ip0 u w' \<and> predHist w' = predHist w"
proof -
  have ok: "bpu_ok dwf threads w" "ras_wf (RAS w tid)" "dwf (direction w)" using assms(3) by (simp_all add: alike_def bpu_ok_def)
  have "ras_back (tos (RAS u tid)) e (RAS w tid)"
    using assms(2,3) ras_back_cong [of "RAS v tid" "RAS w tid" "tos (RAS u tid)" e] by (simp add: entry_back_def alike_def)
  then obtain r where r: "undo_ras e (RAS w tid) = Inr r" "ras_wf r" "tos r = tos (RAS u tid)"
    "ras_numEntries r = ras_numEntries (RAS w tid)" using ras_back_restore [OF ok(2)] by blast
  have "hwf (direction w) (bpHistory e)" using assms(2,3) by (simp add: entry_back_def alike_def)
  then obtain d where d: "op_squash ops tid (bpHistory e) (direction w) = Inr d" "dir_keeps dwf hwf view tid (direction w) d"
    "tables d = tables (direction w)" "view d tid = recorded (bpHistory e)" using squash_ok [OF ok(3)] by blast
  have "\<exists>i. undo_indirect tid (map_option (genIndirectInfo tid) (iPred u)) (iPred w) = Inr i
    \<and> map_option (genIndirectInfo tid) i = map_option (genIndirectInfo tid) (iPred u)
    \<and> (\<exists>g. i = map_option (deleteIndirectInfo tid g) ip0) \<and> (\<forall>q. i = Some q \<longrightarrow> ip_wf q)"
    using assms(1,3) undo_indirect_ok [of tid sns "iPred u" "iPred v" "iPred w"] by (auto simp: unit_ok_def alike_def bpu_ok_def)
  then obtain i where i: "undo_indirect tid (indirectHistory e) (iPred w) = Inr i"
    "map_option (genIndirectInfo tid) i = map_option (genIndirectInfo tid) (iPred u)"
    "\<exists>g. i = map_option (deleteIndirectInfo tid g) ip0" "\<forall>q. i = Some q \<longrightarrow> ip_wf q"
    using assms(2) by (auto simp: entry_back_def)
  define w' where "w' = set_ras tid r w\<lparr>direction := d, iPred := i\<rparr>"
  have run: "squash_entry ops tid e w = Inr w'" by (simp add: squash_entry_def r(1) d(1) i(1) w'_def)
  have view: "view (direction u) t = view d t" for t
    using assms d by (cases "t = tid") (auto simp: entry_back_def unit_ok_def alike_def dir_keeps_def)
  have "bpu_ok dwf threads w'" using ok(1) r(2) d(2) i(4) by (simp add: w'_def bpu_ok_def set_ras_def dir_keeps_def)
  then have "alike threads tid ip0 u w'"
    using assms r(3,4) d i(2,3) view by (auto simp: alike_def unit_ok_def dir_keeps_def w'_def set_ras_def fun_eq_iff)
  then show ?thesis using run by (simp add: w'_def set_ras_def)
qed

lemma squash_hist_stops:
  "\<forall>e \<in> set es. ph_seqNum e \<le> sn \<Longrightarrow> squash_hist ops sn tid es w = Inr (es, w)"
  by (cases es) (auto dest: leD)

lemma unit_ok_trans:
  assumes "unit_ok threads tid sns u v" and "unit_ok threads tid sns' v w" and "sns' \<subseteq> sns"
  shows "unit_ok threads tid sns u w"
proof -
  have "ip_grows tid (sns \<union> sns') (iPred u) (iPred w)" using assms(1,2) by (auto simp: unit_ok_def intro: ip_grows_trans)
  moreover have "sns \<union> sns' = sns" using assms(3) by blast
  ultimately show ?thesis using assms(1,2) dir_keeps_trans [of dwf hwf view tid "direction u" "direction v" "direction w"]
    by (simp add: unit_ok_def)
qed

lemma unit_ok_refl: "bpu_ok dwf threads u \<Longrightarrow> unit_ok threads tid sns u u"
  by (simp add: unit_ok_def ip_grows_refl dir_keeps_def bpu_ok_def)

lemma predict_all_ok:
  assumes "bpu_ok dwf threads u" and "tid < threads" and "\<forall>(inst, n, pc) \<in> set bs. sn < n"
    and old: "\<forall>e \<in> set (predHist u tid). ph_seqNum e \<le> sn"
  shows "\<exists>v es. predict_all ia ops tid bs u = Inr v \<and> unit_ok threads tid {n. sn < n} u v
    \<and> predHist v = (predHist u)(tid := es @ predHist u tid) \<and> length es = length bs
    \<and> (\<forall>ip0 w. alike threads tid ip0 v w \<longrightarrow> (\<exists>w'. squash_hist ops sn tid (predHist v tid) w = Inr (predHist u tid, w')
      \<and> alike threads tid ip0 u w' \<and> predHist w' = predHist w))"
  using assms(3)
proof (induction bs rule: rev_induct)
  case Nil
  then show ?case using unit_ok_refl [OF assms(1)] squash_hist_stops [OF old]
    by (intro exI [of _ u] exI [of _ "[]"]) (simp add: predict_all_def)
next
  case (snoc b bs)
  obtain inst n pc where b: "b = (inst, n, pc)" by (cases b)
  obtain v es where v: "predict_all ia ops tid bs u = Inr v" "unit_ok threads tid {n. sn < n} u v"
    "predHist v = (predHist u)(tid := es @ predHist u tid)" "length es = length bs"
    "\<forall>ip0 w. alike threads tid ip0 v w \<longrightarrow> (\<exists>w'. squash_hist ops sn tid (predHist v tid) w = Inr (predHist u tid, w')
      \<and> alike threads tid ip0 u w' \<and> predHist w' = predHist w)"
  proof -
    have "\<forall>(inst, n, pc) \<in> set bs. sn < n" using snoc.prems by simp
    from snoc.IH [OF this] that show ?thesis by blast
  qed
  have "bpu_ok dwf threads v" using v(2) by (simp add: unit_ok_def)
  from predict_ok [OF this assms(2)] obtain x t w e where w: "predict ia ops inst n pc tid v = Inr (x, t, w)"
    "unit_ok threads tid {n} v w" "predHist w = (predHist v)(tid := e # predHist v tid)" "ph_seqNum e = n" "entry_back tid v w e"
    by blast
  have n: "sn < n" using snoc.prems by (simp add: b)
  have run: "predict_all ia ops tid (bs @ [b]) u = Inr w" by (simp add: b predict_all_snoc v(1) w(1))
  have ok: "unit_ok threads tid {n. sn < n} u w" by (rule unit_ok_trans [OF v(2) w(2)]) (use n in simp)
  have hist: "predHist w = (predHist u)(tid := (e # es) @ predHist u tid)" by (simp add: w(3) v(3))
  have undo: "\<exists>w'. squash_hist ops sn tid (predHist w tid) z = Inr (predHist u tid, w')
    \<and> alike threads tid ip0 u w' \<and> predHist w' = predHist z" if z: "alike threads tid ip0 w z" for ip0 z
  proof -
    obtain z1 where z1: "squash_entry ops tid e z = Inr z1" "alike threads tid ip0 v z1" "predHist z1 = predHist z"
      using squash_entry_ok [OF w(2,5) z] by blast
    from v(5) [rule_format, OF z1(2)] show ?thesis using z1 n by (simp add: w(3,4))
  qed
  have "length (e # es) = length (bs @ [b])" by (simp add: v(4))
  with run ok hist undo show ?case by blast
qed

lemma squash_undoes_predictions:
  assumes "bpu_ok dwf threads u" and "tid < threads" and "\<forall>(inst, n, pc) \<in> set bs. sn < n"
    and "\<forall>e \<in> set (predHist u tid). ph_seqNum e \<le> sn"
    and path: "\<forall>ip. iPred u = Some ip \<longrightarrow> (\<forall>e \<in> set (pathHist (threadInfo ip tid)). he_seqNum e \<le> sn)"
  shows "\<exists>v es w. predict_all ia ops tid bs u = Inr v \<and> predHist v = (predHist u)(tid := es @ predHist u tid)
    \<and> length es = length bs \<and> bu_squash ops sn tid v = Inr w \<and> bpu_ok dwf threads w
    \<and> predHist w = predHist u \<and> BTB w = BTB u \<and> iPred w = iPred u \<and> view (direction w) = view (direction u)
    \<and> tables (direction w) = tables (direction u) \<and> tos (RAS w tid) = tos (RAS u tid)
    \<and> (\<forall>t. t \<noteq> tid \<longrightarrow> RAS w t = RAS u t)"
proof -
  obtain v es where v: "predict_all ia ops tid bs u = Inr v" "unit_ok threads tid {n. sn < n} u v"
    "predHist v = (predHist u)(tid := es @ predHist u tid)" "length es = length bs"
    and undo: "\<And>ip0 w. alike threads tid ip0 v w \<Longrightarrow> \<exists>w'. squash_hist ops sn tid (predHist v tid) w = Inr (predHist u tid, w')
      \<and> alike threads tid ip0 u w' \<and> predHist w' = predHist w"
    using predict_all_ok [OF assms(1-4)] by blast
  define z where "z = v\<lparr>iPred := map_option (ip_squash sn tid) (iPred v)\<rparr>"
  have gone: "\<exists>g. iPred z = map_option (deleteIndirectInfo tid g) (iPred u)"
  proof (cases "iPred u")
    case (Some p)
    then obtain q where q: "iPred v = Some q" "path_grows tid {n. sn < n} p q"
      using v(2) by (auto simp: unit_ok_def ip_grows_def option_rel_Some1)
    have "\<exists>g. ip_squash sn tid q = deleteIndirectInfo tid g p"
      by (rule ip_squash_grown [OF q(2)]) (use path Some in simp_all)
    then show ?thesis by (simp add: z_def q(1) Some)
  qed (use v(2) in \<open>simp add: unit_ok_def ip_grows_def z_def\<close>)
  have ghr: "map_option (genIndirectInfo tid) (iPred v) = map_option (genIndirectInfo tid) (iPred z)"
    by (cases "iPred v") (simp_all add: z_def ip_squash_def genIndirectInfo_def)
  have "bpu_ok dwf threads z"
    using v(2) by (cases "iPred v") (simp_all add: unit_ok_def bpu_ok_def z_def ip_squash_def)
  with gone ghr have "alike threads tid (iPred u) v z" by (simp add: alike_def) (simp add: z_def)
  from undo [OF this] obtain w' where w': "squash_hist ops sn tid (predHist v tid) z = Inr (predHist u tid, w')"
    "alike threads tid (iPred u) u w'" "predHist w' = predHist v" by (auto simp: z_def)
  have ip: "iPred w' = iPred u"
  proof (cases "iPred u")
    case (Some p)
    then obtain g where "iPred w' = Some (deleteIndirectInfo tid g p)" "genIndirectInfo tid (deleteIndirectInfo tid g p) = genIndirectInfo tid p"
      using w'(2) by (auto simp: alike_def)
    then have "iPred w' = Some (deleteIndirectInfo tid g p)" "g = genIndirectInfo tid p"
      by (simp_all add: deleteIndirectInfo_def genIndirectInfo_def)
    then show ?thesis using Some by (simp only: delete_own)
  qed (use w'(2) in \<open>simp add: alike_def\<close>)
  define w where "w = w'\<lparr>predHist := predHist u\<rparr>"
  have "bu_squash ops sn tid v = Inr w"
    using w'(1,3) v(3) by (simp add: bu_squash_def z_def [symmetric] w_def)
  moreover have "bpu_ok dwf threads w" using w'(2) by (simp add: alike_def bpu_ok_def w_def)
  moreover have "predHist w = predHist u \<and> BTB w = BTB u \<and> iPred w = iPred u \<and> view (direction w) = view (direction u)
    \<and> tables (direction w) = tables (direction u) \<and> tos (RAS w tid) = tos (RAS u tid) \<and> (\<forall>t. t \<noteq> tid \<longrightarrow> RAS w t = RAS u t)"
    using w'(2) ip by (simp add: alike_def w_def)
  ultimately show ?thesis using v(1,3,4) by blast
qed

end

subsection \<open>The unit with the tournament predictor\<close>

lemma SimpleIndirect_new_wf:
  assumes "SimpleIndirect_new hg ht sets ways tag_bits path_length shift ghr_bits = Inr ip" and "tag_bits < 31"
    and "path_length \<noteq> 0"
  shows "ip_wf ip" and "pathHist (threadInfo ip tid) = []"
  using assms by (auto simp: SimpleIndirect_new_def ip_wf_def isPowerOf2_def result_simps)

lemma BPU_new_ok:
  assumes "BPU_new d ip btb_entries btb_tag_size shift threads ras_size = Inr u" and "dwf d" and "ras_size \<noteq> 0"
    and "threads \<le> btb_entries" and "btb_entries < 2 ^ 31" and "\<forall>p. ip = Some p \<longrightarrow> ip_wf p"
  shows "bpu_ok dwf (unat threads) u \<and> predHist u tid = [] \<and> iPred u = ip"
proof -
  obtain b where b: "DefaultBTB_new btb_entries btb_tag_size shift threads = Inr b"
    "u = \<lparr>direction = d, predHist = (\<lambda>_. []), BTB = b, RAS = (\<lambda>_. ras_init (unat ras_size)), iPred = ip\<rparr>"
    using assms(1) by (auto simp: BPU_new_def result_simps)
  have n: "0 < unat ras_size" "unat ras_size < 2 ^ 32"
    using unsigned_less [where 'a = nat, of ras_size] assms(3) by (simp_all add: unat_gt_0)
  have "ras_wf (RAS u t)" for t unfolding b(2) BPU.simps by (rule conjunct1 [OF ras_init_wf [OF n]])
  then show ?thesis using assms DefaultBTB_new_wf [OF b(1)] by (simp add: bpu_ok_def b(2))
qed

text \<open>
  C4. A squash undoes speculative predictions. From every well-formed state of the branch
  prediction unit with the tournament predictor, any sequence of predictions of a thread with
  sequence numbers above \<open>sn\<close> runs without a failed assertion and adds one history entry each. A
  squash to \<open>sn\<close> then returns and restores the history of predictions, the global histories, the
  indirect predictor with its path and global history, and the index of the return address
  stack exactly; the counter tables, the branch target buffer and the stacks of other threads
  are those from before.
\<close>

theorem predictions_undone:
  assumes "bpu_ok tn_wf threads u" and "tid < threads" and "\<forall>(inst, n, pc) \<in> set bs. sn < n"
    and "\<forall>e \<in> set (predHist u tid). ph_seqNum e \<le> sn"
    and "\<forall>ip. iPred u = Some ip \<longrightarrow> (\<forall>e \<in> set (pathHist (threadInfo ip tid)). he_seqNum e \<le> sn)"
  shows "\<exists>v es w. predict_all ia tournament_ops tid bs u = Inr v \<and> predHist v = (predHist u)(tid := es @ predHist u tid)
    \<and> length es = length bs \<and> bu_squash tournament_ops sn tid v = Inr w \<and> bpu_ok tn_wf threads w
    \<and> predHist w = predHist u \<and> BTB w = BTB u \<and> iPred w = iPred u \<and> globalHistory (direction w) = globalHistory (direction u)
    \<and> tn_tables (direction w) = tn_tables (direction u) \<and> tos (RAS w tid) = tos (RAS u tid)
    \<and> (\<forall>t. t \<noteq> tid \<longrightarrow> RAS w t = RAS u t)"
  using tournament_bp.squash_undoes_predictions [OF assms] .

text \<open>A unit of one thread, and a conditional branch, a call and a return it predicts.\<close>

definition demo_bpu :: "(Addr, TournamentBP, TournamentHistory) BPU result" where
  "demo_bpu = bindE (TournamentBP_new 4 2 4 8 2 8 2 2) (\<lambda>d. bindE (SimpleIndirect_new True True 4 2 16 3 2 13)
    (\<lambda>ip. BPU_new d (Some ip) 4 16 2 1 4))"

definition demo_branch :: "bool \<Rightarrow> bool \<Rightarrow> Addr BranchInst" where
  "demo_branch call ret = \<lparr>isUncondCtrl = call \<or> ret, isDirectCtrl = \<not> ret, isCall = call, isReturn = ret,
    buildRetPC = (\<lambda>_ a. a + 4), advancePC = (\<lambda>a. a + 4)\<rparr>"

theorem predictions_undone_witness:
  "\<exists>u v w. demo_bpu = Inr u
    \<and> predict_all id tournament_ops 0 [(demo_branch False False, 7, 64), (demo_branch True False, 8, 68), (demo_branch False True, 9, 72)] u = Inr v
    \<and> length (predHist v 0) = 3 \<and> bu_squash tournament_ops 5 0 v = Inr w \<and> predHist w 0 = []
    \<and> globalHistory (direction w) 0 = globalHistory (direction u) 0 \<and> tos (RAS w 0) = tos (RAS u 0)"
proof -
  let ?bs = "[(demo_branch False False, 7, 64), (demo_branch True False, 8, 68), (demo_branch False True, 9, 72)]"
  have "(case demo_bpu of Inl _ \<Rightarrow> False | Inr _ \<Rightarrow> True)" by code_simp
  then obtain u where u: "demo_bpu = Inr u" by (auto split: sum.splits)
  then obtain d ip where d: "TournamentBP_new 4 2 4 8 2 8 2 2 = Inr d" and ip: "SimpleIndirect_new True True 4 2 16 3 2 13 = Inr ip"
    and new: "BPU_new d (Some ip) 4 16 2 1 4 = Inr u" by (auto simp: demo_bpu_def result_simps)
  have ok: "bpu_ok tn_wf (unat (1 :: unsigned)) u \<and> predHist u 0 = [] \<and> iPred u = Some ip"
    using TournamentBP_new_wf [OF d] SimpleIndirect_new_wf(1) [OF ip] by (intro BPU_new_ok [OF new]) simp_all
  then have "bpu_ok tn_wf 1 u" "predHist u 0 = []" "iPred u = Some ip" by simp_all
  with predictions_undone [of 1 u 0 ?bs 5 id] SimpleIndirect_new_wf(2) [OF ip]
  have "\<exists>v es w. predict_all id tournament_ops 0 ?bs u = Inr v \<and> predHist v = (predHist u)(0 := es @ predHist u 0)
    \<and> length es = 3 \<and> bu_squash tournament_ops 5 0 v = Inr w \<and> predHist w = predHist u
    \<and> globalHistory (direction w) = globalHistory (direction u) \<and> tos (RAS w 0) = tos (RAS u 0)" by fastforce
  with u \<open>predHist u 0 = []\<close> show ?thesis by fastforce
qed

end
