(* ===== verification/EventQueue.thy ===== *)
theory EventQueue
  imports Prelude
begin

unbundle bit_operations_syntax

text \<open>
  The event queue of the simulator (\<open>sim/eventq.hh\<close>, \<open>sim/eventq.cc\<close>) over an explicit store
  of events. A pointer to an event is a number, \<open>NULL\<close> is \<open>None\<close>, and an event that was deleted
  or never allocated is absent from the store, so that reading it is undefined behaviour. The
  queue is a linked list of bins through \<open>nextBin\<close>; a bin is a stack through \<open>nextInBin\<close>.

  A loop that follows pointers may run forever on a cyclic store: such an operation returns a
  value of type \<open>'a result option\<close>, \<open>None\<close> when it does not return.
\<close>

type_synonym Tick = uint64

record EventData =
  ev_when :: Tick
  ev_priority :: "8 word"
  ev_flags :: "16 word"
  ev_queue :: "nat option"

record Event = EventData +
  nextBin :: "nat option"
  nextInBin :: "nat option"

type_synonym event_store = "nat \<rightharpoonup> Event"

record EventQueue =
  eq_self :: nat
  eq_head :: "nat option"
  eq_curTick :: Tick
  async_queue :: "nat list"
  eq_events :: event_store

subsection \<open>Operations that can abort or not return\<close>

definition bindL :: "'a result option \<Rightarrow> ('a \<Rightarrow> 'b result option) \<Rightarrow> 'b result option" where
  "bindL m f = (case m of None \<Rightarrow> None | Some r \<Rightarrow> (case r of Inl e \<Rightarrow> Some (Inl e) | Inr v \<Rightarrow> f v))"

lemma bindL_simps [simp]:
  "bindL (Some (Inr v)) f = f v" "bindL (Some (Inl e)) f = Some (Inl e)" "bindL None f = None"
  by (simp_all add: bindL_def)

definition deref :: "nat \<Rightarrow> (nat \<rightharpoonup> 'e) \<Rightarrow> 'e result" where
  "deref p h = (case h p of None \<Rightarrow> Inl UndefinedBehaviour | Some e \<Rightarrow> Inr e)"

lemma deref_simps [simp]:
  "h p = Some e \<Longrightarrow> deref p h = Inr e" "h p = None \<Longrightarrow> deref p h = Inl UndefinedBehaviour"
  by (simp_all add: deref_def)

subsection \<open>Flags and order of events\<close>

definition PublicWrite :: "16 word" where "PublicWrite = 0x001d"
definition Squashed :: "16 word" where "Squashed = 0x0001"
definition Scheduled :: "16 word" where "Scheduled = 0x0002"
definition Managed :: "16 word" where "Managed = 0x0004"
definition IsExitEvent :: "16 word" where "IsExitEvent = 0x0010"
definition IsMainQueue :: "16 word" where "IsMainQueue = 0x0020"
definition Initialized :: "16 word" where "Initialized = 0x7a40"
definition InitMask :: "16 word" where "InitMask = 0xffc0"

lemmas flag_defs = PublicWrite_def Squashed_def Scheduled_def Managed_def IsExitEvent_def IsMainQueue_def
  Initialized_def InitMask_def

definition isSet :: "16 word \<Rightarrow> 'a EventData_scheme \<Rightarrow> bool" where
  "isSet m e \<longleftrightarrow> (ev_flags e AND m) \<noteq> 0"

definition setFlag :: "16 word \<Rightarrow> 'a EventData_scheme \<Rightarrow> 'a EventData_scheme" where
  "setFlag m e = e\<lparr>ev_flags := ev_flags e OR m\<rparr>"

definition clearFlag :: "16 word \<Rightarrow> 'a EventData_scheme \<Rightarrow> 'a EventData_scheme" where
  "clearFlag m e = e\<lparr>ev_flags := ev_flags e AND NOT m\<rparr>"

definition initialized :: "'a EventData_scheme \<Rightarrow> bool" where
  "initialized e \<longleftrightarrow> (ev_flags e AND InitMask) = Initialized"

definition ev_less :: "'a EventData_scheme \<Rightarrow> 'b EventData_scheme \<Rightarrow> bool" where
  "ev_less l r \<longleftrightarrow> ev_when l < ev_when r \<or> (ev_when l = ev_when r \<and> sint (ev_priority l) < sint (ev_priority r))"

definition ev_le :: "'a EventData_scheme \<Rightarrow> 'b EventData_scheme \<Rightarrow> bool" where
  "ev_le l r \<longleftrightarrow> ev_when l < ev_when r \<or> (ev_when l = ev_when r \<and> sint (ev_priority l) \<le> sint (ev_priority r))"

definition ev_eq :: "'a EventData_scheme \<Rightarrow> 'b EventData_scheme \<Rightarrow> bool" where
  "ev_eq l r \<longleftrightarrow> ev_when l = ev_when r \<and> ev_priority l = ev_priority r"

text \<open>The constructor: \<open>f\<close> holds only publicly writable flags.\<close>

definition Event_new :: "8 word \<Rightarrow> 16 word \<Rightarrow> Event result" where
  "Event_new p f = checked ((f AND NOT PublicWrite) = 0) AssertFailed
    (Inr \<lparr>ev_when = 0, ev_priority = p, ev_flags = Initialized OR f, ev_queue = None,
      nextBin = None, nextInBin = None\<rparr>)"

definition setWhen :: "Tick \<Rightarrow> nat \<Rightarrow> 'a EventData_scheme \<Rightarrow> 'a EventData_scheme" where
  "setWhen w q e = e\<lparr>ev_when := w, ev_queue := Some q\<rparr>"

subsection \<open>Insertion\<close>

text \<open>The pointer that \<open>insertBefore\<close> returns is \<open>event\<close> itself.\<close>

definition insertBefore :: "nat \<Rightarrow> nat option \<Rightarrow> event_store \<Rightarrow> event_store result" where
  "insertBefore event cur h = bindE (deref event h) (\<lambda>e. case cur of
      None \<Rightarrow> Inr (h(event \<mapsto> e\<lparr>nextBin := None, nextInBin := None\<rparr>))
    | Some c \<Rightarrow> bindE (deref c h) (\<lambda>cv.
        if ev_less e cv then Inr (h(event \<mapsto> e\<lparr>nextBin := Some c, nextInBin := None\<rparr>))
        else Inr (h(event \<mapsto> e\<lparr>nextBin := nextBin cv, nextInBin := Some c\<rparr>))))"

text \<open>The search for the bin of an event, the loop that \<open>insert\<close> and \<open>remove\<close> share.\<close>

partial_function (option) bin_search ::
  "event_store \<Rightarrow> Event \<Rightarrow> nat \<Rightarrow> nat option \<Rightarrow> (nat \<times> nat option) result option" where
  "bin_search h e prev cur = (case cur of
      None \<Rightarrow> Some (Inr (prev, None))
    | Some c \<Rightarrow> (case deref c h of
        Inl err \<Rightarrow> Some (Inl err)
      | Inr cv \<Rightarrow> if ev_less cv e then bin_search h e c (nextBin cv) else Some (Inr (prev, cur))))"

declare bin_search.simps [code]

definition set_nextBin :: "nat \<Rightarrow> nat option \<Rightarrow> event_store \<Rightarrow> event_store result" where
  "set_nextBin p n h = bindE (deref p h) (\<lambda>v. Inr (h(p \<mapsto> v\<lparr>nextBin := n\<rparr>)))"

definition set_nextInBin :: "nat \<Rightarrow> nat option \<Rightarrow> event_store \<Rightarrow> event_store result" where
  "set_nextInBin p n h = bindE (deref p h) (\<lambda>v. Inr (h(p \<mapsto> v\<lparr>nextInBin := n\<rparr>)))"

definition head_insert :: "nat \<Rightarrow> EventQueue \<Rightarrow> EventQueue result" where
  "head_insert event q = bindE (insertBefore event (eq_head q) (eq_events q))
    (\<lambda>h. Inr (q\<lparr>eq_head := Some event, eq_events := h\<rparr>))"

definition eq_insert :: "nat \<Rightarrow> EventQueue \<Rightarrow> EventQueue result option" where
  "eq_insert event q = bindL (Some (deref event (eq_events q))) (\<lambda>e. case eq_head q of
      None \<Rightarrow> Some (head_insert event q)
    | Some hd_p \<Rightarrow> bindL (Some (deref hd_p (eq_events q))) (\<lambda>hv.
        if ev_le e hv then Some (head_insert event q)
        else bindL (bin_search (eq_events q) e hd_p (nextBin hv)) (\<lambda>(prev, cur).
          Some (bindE (insertBefore event cur (eq_events q)) (\<lambda>h.
            bindE (set_nextBin prev (Some event) h) (\<lambda>h'. Inr (q\<lparr>eq_events := h'\<rparr>)))))))"

subsection \<open>Removal\<close>

partial_function (option) item_search ::
  "event_store \<Rightarrow> nat \<Rightarrow> nat \<Rightarrow> nat option \<Rightarrow> nat result option" where
  "item_search h event cur n =
    (if n = Some event then Some (Inr cur)
     else case n of
       None \<Rightarrow> Some (Inl Panic)
     | Some c \<Rightarrow> (case deref c h of
         Inl err \<Rightarrow> Some (Inl err)
       | Inr cv \<Rightarrow> item_search h event c (nextInBin cv)))"

declare item_search.simps [code]

definition removeItem :: "nat \<Rightarrow> nat \<Rightarrow> event_store \<Rightarrow> (nat option \<times> event_store) result option" where
  "removeItem event tp h = bindL (Some (deref tp h)) (\<lambda>tv.
    if event = tp
    then Some (case nextInBin tv of
        None \<Rightarrow> Inr (nextBin tv, h)
      | Some n \<Rightarrow> bindE (set_nextBin n (nextBin tv) h) (\<lambda>h'. Inr (Some n, h')))
    else bindL (item_search h event tp (nextInBin tv)) (\<lambda>cur.
      Some (bindE (deref event h) (\<lambda>ev.
        bindE (set_nextInBin cur (nextInBin ev) h) (\<lambda>h'. Inr (Some tp, h'))))))"

definition eq_remove :: "nat \<Rightarrow> EventQueue \<Rightarrow> EventQueue result option" where
  "eq_remove event q = (case eq_head q of
      None \<Rightarrow> Some (Inl Panic)
    | Some hd_p \<Rightarrow> bindL (Some (deref event (eq_events q))) (\<lambda>e.
        bindL (Some (checked (ev_queue e = Some (eq_self q)) AssertFailed (deref hd_p (eq_events q)))) (\<lambda>hv.
          if ev_eq hv e
          then bindL (removeItem event hd_p (eq_events q))
            (\<lambda>(p, h). Some (Inr (q\<lparr>eq_head := p, eq_events := h\<rparr>)))
          else bindL (bin_search (eq_events q) e hd_p (nextBin hv)) (\<lambda>(prev, cur). case cur of
              None \<Rightarrow> Some (Inl Panic)
            | Some c \<Rightarrow> bindL (Some (deref c (eq_events q))) (\<lambda>cv.
                if \<not> ev_eq cv e then Some (Inl Panic)
                else bindL (removeItem event c (eq_events q)) (\<lambda>(p, h).
                  Some (bindE (set_nextBin prev p h) (\<lambda>h'. Inr (q\<lparr>eq_events := h'\<rparr>)))))))))"

subsection \<open>Life cycle of an event\<close>

definition on_event :: "nat \<Rightarrow> (Event \<Rightarrow> Event) \<Rightarrow> EventQueue \<Rightarrow> EventQueue result" where
  "on_event e f q = bindE (deref e (eq_events q)) (\<lambda>v. Inr (q\<lparr>eq_events := (eq_events q)(e \<mapsto> f v)\<rparr>))"

text \<open>\<open>acquireImpl\<close> of the class \<open>Event\<close> does nothing; \<open>releaseImpl\<close> deletes an unscheduled event.\<close>

definition acquire :: "nat \<Rightarrow> EventQueue \<Rightarrow> EventQueue result" where
  "acquire e q = bindE (deref e (eq_events q)) (\<lambda>v. Inr q)"

definition delete_event :: "nat \<Rightarrow> EventQueue \<Rightarrow> EventQueue result" where
  "delete_event e q = bindE (deref e (eq_events q)) (\<lambda>v.
    checked (\<not> isSet Scheduled v) AssertFailed (Inr (q\<lparr>eq_events := (eq_events q)(e := None)\<rparr>)))"

definition release :: "nat \<Rightarrow> EventQueue \<Rightarrow> EventQueue result" where
  "release e q = bindE (deref e (eq_events q)) (\<lambda>v.
    if isSet Managed v \<and> \<not> isSet Scheduled v then delete_event e q else Inr q)"

definition new_event :: "nat \<Rightarrow> 8 word \<Rightarrow> 16 word \<Rightarrow> EventQueue \<Rightarrow> EventQueue result" where
  "new_event e p f q = checked (eq_events q e = None) UndefinedBehaviour
    (bindE (Event_new p f) (\<lambda>v. Inr (q\<lparr>eq_events := (eq_events q)(e \<mapsto> v)\<rparr>)))"

definition squash_event :: "nat \<Rightarrow> EventQueue \<Rightarrow> EventQueue result" where
  "squash_event e = on_event e (setFlag Squashed)"

definition setFlags :: "nat \<Rightarrow> 16 word \<Rightarrow> EventQueue \<Rightarrow> EventQueue result" where
  "setFlags e f q = checked ((f AND NOT PublicWrite) = 0) AssertFailed (on_event e (setFlag f) q)"

definition clearFlags :: "nat \<Rightarrow> 16 word \<Rightarrow> EventQueue \<Rightarrow> EventQueue result" where
  "clearFlags e f q = checked ((f AND NOT PublicWrite) = 0) AssertFailed (on_event e (clearFlag f) q)"

definition clearPublicFlags :: "nat \<Rightarrow> EventQueue \<Rightarrow> EventQueue result" where
  "clearPublicFlags e = on_event e (clearFlag PublicWrite)"

subsection \<open>Scheduling\<close>

text \<open>The process-wide variables that scheduling reads; \<open>curEventQueue\<close> is the queue of the running thread.\<close>

record Globals =
  inParallelMode :: bool
  curEventQueue :: "nat option"

definition EventQueue_new :: "nat \<Rightarrow> EventQueue" where
  "EventQueue_new self = \<lparr>eq_self = self, eq_head = None, eq_curTick = 0, async_queue = [], eq_events = Map.empty\<rparr>"

definition asyncInsert :: "nat \<Rightarrow> EventQueue \<Rightarrow> EventQueue" where
  "asyncInsert e q = q\<lparr>async_queue := async_queue q @ [e]\<rparr>"

definition schedule :: "Globals \<Rightarrow> nat \<Rightarrow> Tick \<Rightarrow> bool \<Rightarrow> EventQueue \<Rightarrow> EventQueue result option" where
  "schedule g e w global q =
    bindL (Some (checked (eq_curTick q \<le> w) AssertFailed (deref e (eq_events q)))) (\<lambda>ev.
    bindL (Some (checked (\<not> isSet Scheduled ev) AssertFailed (checked (initialized ev) AssertFailed
      (on_event e (setWhen w (eq_self q)) q)))) (\<lambda>q1.
    bindL (if inParallelMode g \<and> (Some (eq_self q) \<noteq> curEventQueue g \<or> global)
           then Some (Inr (asyncInsert e q1)) else eq_insert e q1) (\<lambda>q2.
    Some (bindE (on_event e (setFlag Scheduled) q2) (acquire e)))))"

definition deschedule :: "Globals \<Rightarrow> nat \<Rightarrow> EventQueue \<Rightarrow> EventQueue result option" where
  "deschedule g e q =
    bindL (Some (bindE (deref e (eq_events q)) (\<lambda>ev. checked (isSet Scheduled ev) AssertFailed
      (checked (initialized ev) AssertFailed
      (checked (\<not> inParallelMode g \<or> Some (eq_self q) = curEventQueue g) AssertFailed (Inr ev)))))) (\<lambda>ev.
    bindL (eq_remove e q) (\<lambda>q1.
    Some (bindE (on_event e (clearFlag Squashed) q1) (\<lambda>q2.
      bindE (on_event e (clearFlag Scheduled) q2) (release e)))))"

definition reschedule :: "Globals \<Rightarrow> nat \<Rightarrow> Tick \<Rightarrow> bool \<Rightarrow> EventQueue \<Rightarrow> EventQueue result option" where
  "reschedule g e w always q =
    bindL (Some (checked (eq_curTick q \<le> w) AssertFailed (bindE (deref e (eq_events q)) (\<lambda>ev.
      checked (always \<or> isSet Scheduled ev) AssertFailed (checked (initialized ev) AssertFailed
      (checked (\<not> inParallelMode g \<or> Some (eq_self q) = curEventQueue g) AssertFailed (Inr ev))))))) (\<lambda>ev.
    bindL (if isSet Scheduled ev then eq_remove e q else Some (acquire e q)) (\<lambda>q1.
    bindL (Some (on_event e (setWhen w (eq_self q)) q1)) (\<lambda>q2.
    bindL (eq_insert e q2) (\<lambda>q3.
    Some (bindE (on_event e (clearFlag Squashed) q3) (on_event e (setFlag Scheduled)))))))"

primrec async_loop :: "nat list \<Rightarrow> EventQueue \<Rightarrow> EventQueue result option" where
  "async_loop [] q = Some (Inr q)"
| "async_loop (e # es) q = bindL (eq_insert e q) (\<lambda>q1. async_loop es (q1\<lparr>async_queue := es\<rparr>))"

definition handleAsyncInsertions :: "Globals \<Rightarrow> EventQueue \<Rightarrow> EventQueue result option" where
  "handleAsyncInsertions g q =
    (if Some (eq_self q) = curEventQueue g then async_loop (async_queue q) q else Some (Inl AssertFailed))"

subsection \<open>Service\<close>

text \<open>
  What the handler of an event does to the queue is the sequence of calls it makes. A handler is
  a parameter of the model: from the event, the rest \<open>'w\<close> of the simulator and what the public
  accessors show of the queue it gives its calls and the new rest.
\<close>

datatype QCall =
    Schedule nat Tick bool
  | Deschedule nat
  | Reschedule nat Tick bool
  | Squash nat
  | SetFlags nat "16 word"
  | ClearFlags nat "16 word"
  | ClearPublicFlags nat
  | NewEvent nat "8 word" "16 word"
  | DeleteEvent nat
  | HandleAsyncInsertions

primrec do_call :: "Globals \<Rightarrow> QCall \<Rightarrow> EventQueue \<Rightarrow> EventQueue result option" where
  "do_call g (Schedule e w global) q = schedule g e w global q"
| "do_call g (Deschedule e) q = deschedule g e q"
| "do_call g (Reschedule e w always) q = reschedule g e w always q"
| "do_call g (Squash e) q = Some (squash_event e q)"
| "do_call g (SetFlags e f) q = Some (setFlags e f q)"
| "do_call g (ClearFlags e f) q = Some (clearFlags e f q)"
| "do_call g (ClearPublicFlags e) q = Some (clearPublicFlags e q)"
| "do_call g (NewEvent e p f) q = Some (new_event e p f q)"
| "do_call g (DeleteEvent e) q = Some (delete_event e q)"
| "do_call g HandleAsyncInsertions q = handleAsyncInsertions g q"

primrec do_calls :: "Globals \<Rightarrow> QCall list \<Rightarrow> EventQueue \<Rightarrow> EventQueue result option" where
  "do_calls g [] q = Some (Inr q)"
| "do_calls g (c # cs) q = bindL (do_call g c q) (do_calls g cs)"

record QView =
  qv_tick :: Tick
  qv_head :: "nat option"
  qv_events :: "nat \<rightharpoonup> EventData"

definition eq_view :: "EventQueue \<Rightarrow> QView" where
  "eq_view q = \<lparr>qv_tick = eq_curTick q, qv_head = eq_head q,
    qv_events = (\<lambda>e. map_option EventData.truncate (eq_events q e))\<rparr>"

type_synonym 'w handler = "nat \<Rightarrow> 'w \<Rightarrow> QView \<Rightarrow> QCall list \<times> 'w"

definition pop_head :: "nat \<Rightarrow> Event \<Rightarrow> EventQueue \<Rightarrow> EventQueue result" where
  "pop_head p ev q = (let h = (eq_events q)(p \<mapsto> clearFlag Scheduled ev) in
    case nextInBin ev of
      None \<Rightarrow> Inr (q\<lparr>eq_head := nextBin ev, eq_events := h\<rparr>)
    | Some n \<Rightarrow> bindE (set_nextBin n (nextBin ev) h) (\<lambda>h'. Inr (q\<lparr>eq_head := Some n, eq_events := h'\<rparr>)))"

definition serviceOne ::
  "Globals \<Rightarrow> 'w handler \<Rightarrow> 'w \<Rightarrow> EventQueue \<Rightarrow> (nat option \<times> 'w \<times> EventQueue) result option" where
  "serviceOne g process w q = (case eq_head q of
      None \<Rightarrow> Some (Inl UndefinedBehaviour)
    | Some p \<Rightarrow> bindL (Some (deref p (eq_events q))) (\<lambda>ev.
        bindL (Some (pop_head p ev q)) (\<lambda>q1.
        if \<not> isSet Squashed ev
        then let q2 = q1\<lparr>eq_curTick := ev_when ev\<rparr>; (calls, w') = process p w (eq_view q2) in
          bindL (do_calls g calls q2) (\<lambda>q3.
          bindL (Some (deref p (eq_events q3))) (\<lambda>ev3.
          if isSet IsExitEvent ev3
          then Some (checked (\<not> isSet Managed ev3 \<or> \<not> isSet IsMainQueue ev3) AssertFailed (Inr (Some p, w', q3)))
          else Some (bindE (release p q3) (\<lambda>q4. Inr (None, w', q4)))))
        else Some (bindE (on_event p (clearFlag Squashed) q1) (\<lambda>q2.
          bindE (release p q2) (\<lambda>q3. Inr (None, w, q3)))))))"

definition nextTick :: "EventQueue \<Rightarrow> Tick result" where
  "nextTick q = (case eq_head q of None \<Rightarrow> Inl UndefinedBehaviour
    | Some p \<Rightarrow> bindE (deref p (eq_events q)) (\<lambda>ev. Inr (ev_when ev)))"

partial_function (option) serviceEvents ::
  "Globals \<Rightarrow> 'w handler \<Rightarrow> Tick \<Rightarrow> 'w \<Rightarrow> EventQueue \<Rightarrow> ('w \<times> EventQueue) result option" where
  "serviceEvents g process w' w q =
    (if eq_head q = None then Some (Inr (w, q\<lparr>eq_curTick := w'\<rparr>))
     else case nextTick q of
       Inl err \<Rightarrow> Some (Inl err)
     | Inr t \<Rightarrow>
       if t > w' then Some (Inr (w, q\<lparr>eq_curTick := w'\<rparr>))
       else (case serviceOne g process w q of
           None \<Rightarrow> None
         | Some r \<Rightarrow> (case r of
             Inl err \<Rightarrow> Some (Inl err)
           | Inr v \<Rightarrow> serviceEvents g process w' (fst (snd v)) (snd (snd v)))))"

text \<open>
  The loop of \<open>sim/simulate.cc\<close>. What a pending signal does (statistics dump, polling of
  descriptors, exit request) is the parameter \<open>signals\<close>: calls on the queue and whether an
  exception ends the loop. The loop returns the exit event, \<open>None\<close> after an exception.
\<close>

partial_function (option) sim_loop ::
  "Globals \<Rightarrow> ('w \<Rightarrow> QView \<Rightarrow> QCall list \<times> bool \<times> 'w) \<Rightarrow> 'w handler \<Rightarrow> 'w \<Rightarrow> EventQueue \<Rightarrow>
    (nat option \<times> 'w \<times> EventQueue) result option" where
  "sim_loop g signals process w q =
    (if eq_head q = None then Some (Inl AssertFailed)
     else case nextTick q of
       Inl err \<Rightarrow> Some (Inl err)
     | Inr t \<Rightarrow>
       if \<not> eq_curTick q \<le> t then Some (Inl AssertFailed)
       else (case do_calls g (fst (signals w (eq_view q))) q of
           None \<Rightarrow> None
         | Some r \<Rightarrow> (case r of
             Inl err \<Rightarrow> Some (Inl err)
           | Inr q1 \<Rightarrow>
             if fst (snd (signals w (eq_view q))) then Some (Inr (None, snd (snd (signals w (eq_view q))), q1))
             else (case serviceOne g process (snd (snd (signals w (eq_view q)))) q1 of
                 None \<Rightarrow> None
               | Some r1 \<Rightarrow> (case r1 of
                   Inl err \<Rightarrow> Some (Inl err)
                 | Inr v \<Rightarrow>
                   if fst v \<noteq> None then Some (Inr v)
                   else sim_loop g signals process (fst (snd v)) (snd (snd v)))))))"

definition doSimLoop ::
  "Globals \<Rightarrow> ('w \<Rightarrow> QView \<Rightarrow> QCall list \<times> bool \<times> 'w) \<Rightarrow> 'w handler \<Rightarrow> 'w \<Rightarrow> EventQueue \<Rightarrow>
    (nat option \<times> 'w \<times> EventQueue) result option" where
  "doSimLoop g signals process w q =
    (let g' = g\<lparr>curEventQueue := Some (eq_self q)\<rparr> in
     bindL (handleAsyncInsertions g' q) (sim_loop g' signals process w))"

end
