(* ===== verification/SortedBins.thy ===== *)
theory SortedBins
  imports Main
begin

text \<open>
  Lists of bins: a queue ordered by a key as a list of non-empty lists, one for each key. Inserting
  into and removing from the bins is inserting into and removing from the concatenated list.
\<close>

subsection \<open>Bins as lists\<close>

text \<open>Every bin has one key and the keys of the bins increase.\<close>

definition sorted_bins :: "(nat \<Rightarrow> 'k::linorder) \<Rightarrow> nat list list \<Rightarrow> bool" where
  "sorted_bins k bs \<longleftrightarrow> (\<forall>b\<in>set bs. b \<noteq> [] \<and> (\<forall>x\<in>set b. \<forall>y\<in>set b. k x = k y)) \<and>
    sorted_wrt (\<lambda>b c. k (hd b) < k (hd c)) bs"

lemma sorted_bins_Nil [simp]: "sorted_bins k []"
  by (simp add: sorted_bins_def)

lemma sorted_bins_Cons:
  "sorted_bins k (b # bs) \<longleftrightarrow> b \<noteq> [] \<and> (\<forall>x\<in>set b. \<forall>y\<in>set b. k x = k y) \<and>
    (\<forall>c\<in>set bs. k (hd b) < k (hd c)) \<and> sorted_bins k bs"
  by (auto simp: sorted_bins_def)

lemma sorted_bins_cong:
  assumes "sorted_bins k bs" and eq: "\<And>x. x \<in> set (concat bs) \<Longrightarrow> k x = k' x"
  shows "sorted_bins k' bs"
proof -
  have b: "b \<noteq> [] \<and> (\<forall>x\<in>set b. \<forall>y\<in>set b. k x = k y)" if "b \<in> set bs" for b
    using assms(1) that unfolding sorted_bins_def by blast
  have e: "k x = k' x" if "b \<in> set bs" "x \<in> set b" for b x
    using that eq [of x] by auto
  have h: "k (hd b) = k' (hd b)" if "b \<in> set bs" for b
    using e [OF that hd_in_set] b [OF that] by blast
  have s: "sorted_wrt (\<lambda>b c. k (hd b) < k (hd c)) bs"
    using assms(1) unfolding sorted_bins_def by blast
  have "sorted_wrt (\<lambda>b c. k' (hd b) < k' (hd c)) bs"
    by (rule sorted_wrt_mono_rel [OF _ s]) (simp only: h)
  moreover have "\<forall>b\<in>set bs. b \<noteq> [] \<and> (\<forall>x\<in>set b. \<forall>y\<in>set b. k' x = k' y)"
  proof (intro ballI conjI)
    fix b x y assume m: "b \<in> set bs" "x \<in> set b" "y \<in> set b"
    show "k' x = k' y" using e [OF m(1,2)] e [OF m(1,3)] b [OF m(1)] m(2,3) by metis
  qed (use b in blast)
  ultimately show ?thesis unfolding sorted_bins_def by blast
qed

text \<open>The position of a new event: in front of the first one that is not earlier.\<close>

definition place :: "(nat \<Rightarrow> 'k::linorder) \<Rightarrow> nat \<Rightarrow> nat list \<Rightarrow> nat list" where
  "place k e xs = takeWhile (\<lambda>x. k x < k e) xs @ e # dropWhile (\<lambda>x. k x < k e) xs"

fun front :: "(nat \<Rightarrow> 'k::linorder) \<Rightarrow> nat \<Rightarrow> nat list list \<Rightarrow> nat list list" where
  "front k e [] = [[e]]"
| "front k e (c # cs) = (if k e < k (hd c) then [e] # c # cs else (e # c) # cs)"

fun bins_insert :: "(nat \<Rightarrow> 'k::linorder) \<Rightarrow> nat \<Rightarrow> nat list list \<Rightarrow> nat list list" where
  "bins_insert k e [] = [[e]]"
| "bins_insert k e (b # bs) = (if k (hd b) < k e then b # bins_insert k e bs else front k e (b # bs))"

lemma bins_insert_split:
  "bins_insert k e bs = takeWhile (\<lambda>b. k (hd b) < k e) bs @ front k e (dropWhile (\<lambda>b. k (hd b) < k e) bs)"
  by (induction bs) auto

lemma concat_front: "concat (front k e bs) = e # concat bs"
  by (cases bs) auto

lemma sorted_bins_ConsD:
  assumes "sorted_bins k (b # bs)"
  shows "b \<noteq> []" "x \<in> set b \<Longrightarrow> k x = k (hd b)" "c \<in> set bs \<Longrightarrow> k (hd b) < k (hd c)" "sorted_bins k bs"
  using assms hd_in_set [of b] unfolding sorted_bins_Cons by blast+

lemma sorted_bins_ConsI:
  assumes "b \<noteq> []" and "\<And>x. x \<in> set b \<Longrightarrow> k x = v" and "\<And>c. c \<in> set bs \<Longrightarrow> v < k (hd c)" and "sorted_bins k bs"
  shows "sorted_bins k (b # bs)"
proof -
  have "k (hd b) = v" using assms(1,2) by simp
  moreover have "\<forall>x\<in>set b. \<forall>y\<in>set b. k x = k y" using assms(2) by (intro ballI) (rule trans [OF _ sym])
  ultimately show ?thesis unfolding sorted_bins_Cons using assms(1,3,4) by metis
qed

lemma sorted_bins_Cons_mono:
  assumes "sorted_bins k (b # bs)" and "b' \<noteq> []" and "\<And>x. x \<in> set b' \<Longrightarrow> k x = k (hd b)"
    and "\<And>c. c \<in> set bs' \<Longrightarrow> k (hd b) < k (hd c)" and "sorted_bins k bs'"
  shows "sorted_bins k (b' # bs')"
  by (rule sorted_bins_ConsI [OF assms(2-5)])

lemma concat_bins_insert:
  "sorted_bins k bs \<Longrightarrow> concat (bins_insert k e bs) = place k e (concat bs)"
proof (induction bs)
  case (Cons b bs)
  note D = sorted_bins_ConsD [OF Cons.prems]
  show ?case
  proof (cases "k (hd b) < k e")
    case True
    have lt: "k x < k e" if "x \<in> set b" for x using True unfolding D(2) [OF that] .
    have "place k e (b @ concat bs) = b @ place k e (concat bs)"
      unfolding place_def
      using takeWhile_append2 [of b "\<lambda>x. k x < k e"] dropWhile_append2 [of b "\<lambda>x. k x < k e"] lt by simp
    then show ?thesis using Cons.IH [OF D(4)] True by simp
  next
    case False
    then show ?thesis using D(1) by (cases b) (auto simp: place_def)
  qed
qed (simp add: place_def)

lemma bins_insert_hd:
  "c \<in> set (bins_insert k e bs) \<Longrightarrow> \<exists>x. k (hd c) = k x \<and> (x = e \<or> x \<in> hd ` set bs)"
  by (induction bs) (auto split: if_splits)

lemma sorted_bins_insert: "sorted_bins k bs \<Longrightarrow> sorted_bins k (bins_insert k e bs)"
proof (induction bs)
  case (Cons b bs)
  note D = sorted_bins_ConsD [OF Cons.prems]
  consider "k (hd b) < k e" | "k e < k (hd b)" | "k e = k (hd b)" by (rule linorder_cases)
  then show ?case
  proof cases
    case 1
    have lt: "k (hd b) < k (hd c)" if "c \<in> set (bins_insert k e bs)" for c
      using bins_insert_hd [OF that] 1 D(3) by auto
    have "sorted_bins k (b # bins_insert k e bs)"
      by (rule sorted_bins_Cons_mono [OF Cons.prems D(1) D(2) lt Cons.IH [OF D(4)]])
    then show ?thesis using 1 by simp
  next
    case 2
    have "k e < k (hd c)" if "c \<in> set (b # bs)" for c using that 2 D(3) [of c] by auto
    then have "sorted_bins k ([e] # b # bs)"
      by (intro sorted_bins_ConsI [where v = "k e"] Cons.prems) simp_all
    moreover have "bins_insert k e (b # bs) = [e] # b # bs" using 2 less_not_sym [OF 2] by simp
    ultimately show ?thesis by (simp only:)
  next
    case 3
    have eq: "k x = k (hd b)" if "x \<in> set (e # b)" for x using that 3 D(2) [of x] by auto
    have "sorted_bins k ((e # b) # bs)" by (rule sorted_bins_Cons_mono [OF Cons.prems _ eq D(3) D(4)]) simp
    then show ?thesis using 3 by simp
  qed
qed (simp add: sorted_bins_Cons)

text \<open>Removal of an event from its bin; an empty bin disappears.\<close>

fun bins_remove :: "nat \<Rightarrow> nat list list \<Rightarrow> nat list list" where
  "bins_remove e [] = []"
| "bins_remove e (b # bs) =
    (if e \<in> set b then (if remove1 e b = [] then bs else remove1 e b # bs) else b # bins_remove e bs)"

lemma concat_bins_remove: "concat (bins_remove e bs) = remove1 e (concat bs)"
  by (induction bs) (auto simp: remove1_append)

lemma bins_remove_sub: "c \<in> set (bins_remove e bs) \<Longrightarrow> \<exists>b\<in>set bs. set c \<subseteq> set b"
  by (induction bs) (auto split: if_splits dest: notin_set_remove1 set_mp [OF set_remove1_subset])

lemma sorted_bins_remove: "sorted_bins k bs \<Longrightarrow> sorted_bins k (bins_remove e bs)"
proof (induction bs)
  case (Cons b bs)
  note D = sorted_bins_ConsD [OF Cons.prems]
  consider "e \<in> set b" "remove1 e b = []" | "e \<in> set b" "remove1 e b \<noteq> []" | "e \<notin> set b" by blast
  then show ?case
  proof cases
    case 2
    have "sorted_bins k (remove1 e b # bs)"
      using D(2) set_remove1_subset [of e b] by (intro sorted_bins_ConsI [where v = "k (hd b)"] 2(2) D(3,4)) blast
    then show ?thesis using 2 by simp
  next
    case 3
    have lt: "k (hd b) < k (hd c)" if c: "c \<in> set (bins_remove e bs)" for c
    proof -
      have "c \<noteq> []" using c Cons.IH [OF D(4)] unfolding sorted_bins_def by blast
      moreover obtain d where d: "d \<in> set bs" "set c \<subseteq> set d" using bins_remove_sub [OF c] by blast
      ultimately have "k (hd c) = k (hd d)" using D(4) unfolding sorted_bins_def by (meson hd_in_set subsetD)
      then show ?thesis using D(3) [OF d(1)] by simp
    qed
    have "sorted_bins k (b # bins_remove e bs)"
      by (rule sorted_bins_Cons_mono [OF Cons.prems D(1) D(2) lt Cons.IH [OF D(4)]])
    then show ?thesis using 3 by simp
  qed (use D(4) in simp)
qed simp

end
