(* ===== verification/EventBins.thy ===== *)
theory EventBins
  imports EventQueue SortedBins "HOL-Library.Product_Lexorder"
begin

text \<open>
  The pointer structure of the event queue: linked segments in a store, the bins they form, and
  what \<open>insert\<close>, \<open>remove\<close> and the pop of the head do to the list of bins.
\<close>

subsection \<open>Keys of events\<close>

definition ekey :: "'a EventData_scheme \<Rightarrow> Tick \<times> int" where
  "ekey e = (ev_when e, sint (ev_priority e))"

abbreviation kof :: "(nat \<rightharpoonup> 'a EventData_scheme) \<Rightarrow> nat \<Rightarrow> Tick \<times> int" where
  "kof h x \<equiv> ekey (the (h x))"

lemma ev_less_key: "ev_less l r \<longleftrightarrow> ekey l < ekey r"
  by (auto simp: ev_less_def ekey_def less_prod_def)

lemma ev_le_key: "ev_le l r \<longleftrightarrow> ekey l \<le> ekey r"
  by (auto simp: ev_le_def ekey_def less_eq_prod_def)

lemma ev_eq_key: "ev_eq l r \<longleftrightarrow> ekey l = ekey r"
  using signed_word_eqI [of "ev_priority l" "ev_priority r", where 'a = int] by (auto simp: ev_eq_def ekey_def)

lemmas key_simps = ev_less_key ev_le_key ev_eq_key

lemma ekey_links [simp]:
  "ekey (v\<lparr>nextBin := n\<rparr>) = ekey v" "ekey (v\<lparr>nextInBin := n\<rparr>) = ekey v"
  by (simp_all add: ekey_def)

lemma truncate_links [simp]:
  "EventData.truncate (v\<lparr>nextBin := n\<rparr>) = EventData.truncate v"
  "EventData.truncate (v\<lparr>nextInBin := n\<rparr>) = EventData.truncate v"
  by (simp_all add: EventData.truncate_def)

subsection \<open>Linked segments\<close>

text \<open>\<open>lseg n h p xs q\<close>: following the link \<open>n\<close> from \<open>p\<close> visits \<open>xs\<close> and arrives at \<open>q\<close>.\<close>

primrec lseg :: "('e \<Rightarrow> nat option) \<Rightarrow> (nat \<rightharpoonup> 'e) \<Rightarrow> nat option \<Rightarrow> nat list \<Rightarrow> nat option \<Rightarrow> bool" where
  "lseg n h p [] q \<longleftrightarrow> p = q"
| "lseg n h p (x # xs) q \<longleftrightarrow> p = Some x \<and> (\<exists>v. h x = Some v \<and> lseg n h (n v) xs q)"

lemma lseg_append: "lseg n h p (xs @ ys) q \<longleftrightarrow> (\<exists>r. lseg n h p xs r \<and> lseg n h r ys q)"
  by (induction xs arbitrary: p) auto

lemma lseg_frame:
  assumes "\<And>x. x \<in> set xs \<Longrightarrow> map_option n (h' x) = map_option n (h x)" and "lseg n h p xs q"
  shows "lseg n h' p xs q"
  using assms
proof (induction xs arbitrary: p)
  case (Cons x xs)
  obtain v where v: "h x = Some v" "lseg n h (n v) xs q" "p = Some x" using Cons.prems(2) by auto
  have "map_option n (h' x) = Some (n v)" using Cons.prems(1) [of x] v(1) by simp
  then obtain v' where "h' x = Some v'" "n v' = n v" by auto
  moreover have "lseg n h' (n v) xs q" using Cons.prems(1) v(2) by (intro Cons.IH) simp_all
  ultimately show ?case using v(3) by auto
qed simp

lemma lseg_set_last:
  assumes "lseg n h p (xs @ [x]) q" and "x \<notin> set xs"
    and "\<And>y. y \<in> set xs \<Longrightarrow> map_option n (h' y) = map_option n (h y)" and "map_option n (h' x) = Some q'"
  shows "lseg n h' p (xs @ [x]) q'"
proof -
  have "lseg n h p xs (Some x)" using assms(1) by (auto simp: lseg_append)
  then have "lseg n h' p xs (Some x)" by (rule lseg_frame [rotated]) (rule assms(3))
  then show ?thesis using assms(4) by (auto simp: lseg_append)
qed

lemma lseg_dom: "lseg n h p xs q \<Longrightarrow> x \<in> set xs \<Longrightarrow> \<exists>v. h x = Some v"
  by (induction xs arbitrary: p) auto

subsection \<open>Bins in the store\<close>

definition bins_at :: "event_store \<Rightarrow> nat option \<Rightarrow> nat list list \<Rightarrow> bool" where
  "bins_at h p bs \<longleftrightarrow> lseg nextBin h p (map hd bs) None \<and>
    (\<forall>b\<in>set bs. b \<noteq> [] \<and> lseg nextInBin h (Some (hd b)) b None)"

lemma bins_at_Nil [simp]: "bins_at h p [] \<longleftrightarrow> p = None"
  by (simp add: bins_at_def)

lemma bins_at_Cons:
  "bins_at h p (b # bs) \<longleftrightarrow> b \<noteq> [] \<and> p = Some (hd b) \<and> lseg nextInBin h (Some (hd b)) b None \<and>
    (\<exists>v. h (hd b) = Some v \<and> bins_at h (nextBin v) bs)"
  by (auto simp: bins_at_def)

lemma bins_at_dom: "bins_at h p bs \<Longrightarrow> x \<in> set (concat bs) \<Longrightarrow> \<exists>v. h x = Some v"
  by (auto simp: bins_at_def dest!: lseg_dom)

text \<open>The bins depend only on the links of their events.\<close>

definition same_links :: "Event option \<Rightarrow> Event option \<Rightarrow> bool" where
  "same_links v w \<longleftrightarrow> map_option nextBin v = map_option nextBin w \<and> map_option nextInBin v = map_option nextInBin w"

lemma bins_at_frame:
  assumes "bins_at h p bs" and "\<And>x. x \<in> set (concat bs) \<Longrightarrow> same_links (h' x) (h x)"
  shows "bins_at h' p bs"
proof -
  have hd: "hd b \<in> set (concat bs)" if "b \<in> set bs" for b
  proof -
    have "hd b \<in> set b" using assms(1) that by (simp add: bins_at_def)
    then show ?thesis using that by auto
  qed
  have "lseg nextBin h' p (map hd bs) None"
    by (rule lseg_frame [where h = h]) (use assms hd in \<open>auto simp: bins_at_def same_links_def\<close>)
  moreover have "lseg nextInBin h' (Some (hd b)) b None" if "b \<in> set bs" for b
    by (rule lseg_frame [where h = h]) (use assms that in \<open>auto simp: bins_at_def same_links_def\<close>)
  ultimately show ?thesis using assms(1) by (simp add: bins_at_def)
qed

lemma bins_at_append:
  "bins_at h p (as @ bs) \<longleftrightarrow> (\<exists>r. lseg nextBin h p (map hd as) r \<and>
    (\<forall>b\<in>set as. b \<noteq> [] \<and> lseg nextInBin h (Some (hd b)) b None) \<and> bins_at h r bs)"
  by (auto simp: bins_at_def lseg_append)

text \<open>Replacing what follows a bin by writing the link of its top.\<close>

lemma bins_relink:
  assumes at: "bins_at h p (as @ a # bs)" and dist: "distinct (concat (as @ [a]))"
    and same: "\<And>x. x \<in> set (concat (as @ [a])) \<Longrightarrow> h1 x = h x"
    and rest: "bins_at h1 r cs" and out: "hd a \<notin> set (concat cs)"
  obtains h2 where "set_nextBin (hd a) r h1 = Inr h2" and "bins_at h2 p (as @ a # cs)"
    and "\<And>x. map_option EventData.truncate (h2 x) = map_option EventData.truncate (h1 x)"
proof -
  obtain r0 where seg: "lseg nextBin h p (map hd (as @ [a])) r0"
    and inb: "\<And>b. b \<in> set (as @ [a]) \<Longrightarrow> b \<noteq> [] \<and> lseg nextInBin h (Some (hd b)) b None"
    using at bins_at_append [of h p "as @ [a]" bs] by auto
  have hda: "hd a \<in> set (concat (as @ [a]))" using inb [of a] by simp
  obtain v where v: "h (hd a) = Some v" using lseg_dom [OF seg, of "hd a"] by auto
  define h2 where "h2 = h1(hd a \<mapsto> v\<lparr>nextBin := r\<rparr>)"
  have h1a: "h1 (hd a) = Some v" using same [OF hda] v by simp
  have in_h2: "map_option nextInBin (h2 x) = map_option nextInBin (h x)" if "x \<in> set (concat (as @ [a]))" for x
    using same [OF that] v by (simp add: h2_def)
  have tops: "hd b \<in> set (concat as)" if "b \<in> set as" for b
  proof -
    have "hd b \<in> set b" using inb [of b] that by simp
    then show ?thesis using that by auto
  qed
  have na: "hd a \<notin> set (concat as)" using dist inb [of a] hd_in_set [of a] by auto
  have "lseg nextBin h2 p (map hd as @ [hd a]) r"
  proof (rule lseg_set_last)
    show "lseg nextBin h p (map hd as @ [hd a]) r0" using seg by simp
    show "hd a \<notin> set (map hd as)" using na tops by (metis (no_types) imageE list.set_map)
    show "map_option nextBin (h2 y) = map_option nextBin (h y)" if y: "y \<in> set (map hd as)" for y
    proof -
      have yc: "y \<in> set (concat as)" using y tops by auto
      then have "y \<noteq> hd a" using na by blast
      moreover have "h1 y = h y" using yc by (intro same) simp
      ultimately show ?thesis by (simp add: h2_def)
    qed
    show "map_option nextBin (h2 (hd a)) = Some r" by (simp add: h2_def)
  qed
  moreover have "lseg nextInBin h2 (Some (hd b)) b None" if "b \<in> set (as @ [a])" for b
    by (rule lseg_frame [where h = h]) (use inb [OF that] that in_h2 in auto)
  moreover have "bins_at h2 r cs"
    by (rule bins_at_frame [OF rest]) (use out in \<open>auto simp: h2_def same_links_def\<close>)
  ultimately have "bins_at h2 p ((as @ [a]) @ cs)" unfolding bins_at_append using inb by auto
  then show thesis using that [of h2] h1a by (simp add: set_nextBin_def h2_def)
qed

subsection \<open>Insertion\<close>

definition first :: "'a list \<Rightarrow> 'a option" where
  "first xs = (case xs of [] \<Rightarrow> None | x # _ \<Rightarrow> Some x)"

lemma first_simps [simp]: "first [] = None" "first (x # xs) = Some x"
  by (simp_all add: first_def)

lemma bins_at_first: "bins_at h p bs \<Longrightarrow> p = first (map hd bs)"
  by (cases bs) (auto simp: bins_at_Cons)

lemma bin_search_spec:
  "lseg nextBin h p ts None \<Longrightarrow> bin_search h e prev p =
    Some (Inr (last (prev # takeWhile (\<lambda>t. kof h t < ekey e) ts), first (dropWhile (\<lambda>t. kof h t < ekey e) ts)))"
proof (induction ts arbitrary: p prev)
  case Nil
  then show ?case by (subst bin_search.simps) simp
next
  case (Cons t ts)
  then obtain v where v: "p = Some t" "h t = Some v" "lseg nextBin h (nextBin v) ts None" by auto
  show ?case
    by (subst bin_search.simps) (simp add: v Cons.IH [OF v(3)] key_simps)
qed

lemma insertBefore_bins:
  assumes at: "bins_at h p bs" and le: "bs = [] \<or> kof h e \<le> kof h (hd (hd bs))"
    and e: "h e = Some ev" "e \<notin> set (concat bs)"
  obtains h1 where "insertBefore e p h = Inr h1" and "bins_at h1 (Some e) (front (kof h) e bs)"
    and "\<And>x. x \<noteq> e \<Longrightarrow> h1 x = h x" and "map_option EventData.truncate (h1 e) = Some (EventData.truncate ev)"
proof (cases bs)
  case Nil
  then show thesis using at e that [of "h(e \<mapsto> ev\<lparr>nextBin := None, nextInBin := None\<rparr>)"]
    by (simp add: insertBefore_def bins_at_Cons)
next
  case (Cons c cs)
  then obtain cv where cv: "p = Some (hd c)" "h (hd c) = Some cv" "c \<noteq> []" "bins_at h (nextBin cv) cs"
    and inc: "lseg nextInBin h (Some (hd c)) c None"
    using at by (auto simp: bins_at_Cons)
  have ne: "e \<noteq> hd c" "e \<notin> set c" using e(2) Cons cv(3) hd_in_set [of c] by auto
  let ?lt = "ekey ev < ekey cv"
  define ev' where "ev' = (if ?lt then ev\<lparr>nextBin := p, nextInBin := None\<rparr> else ev\<lparr>nextBin := nextBin cv, nextInBin := p\<rparr>)"
  define h1 where "h1 = h(e \<mapsto> ev')"
  have same: "h1 x = h x" if "x \<noteq> e" for x using that by (simp add: h1_def)
  have fr: "bins_at h1 q ds" if "bins_at h q ds" "set (concat ds) \<subseteq> set (concat bs)" for q ds
    by (rule bins_at_frame [OF that(1)]) (use that(2) e(2) in \<open>auto simp: h1_def same_links_def\<close>)
  have inc': "lseg nextInBin h1 (Some (hd c)) c None"
    by (rule lseg_frame [OF _ inc]) (use ne in \<open>auto simp: h1_def\<close>)
  have cs: "bins_at h1 (nextBin cv) cs" using cv(4) by (rule fr) (auto simp: Cons)
  have "bins_at h1 (Some e) (front (kof h) e bs)"
  proof (cases ?lt)
    case True
    then have f: "front (kof h) e bs = [e] # bs" using e(1) cv(2) by (simp add: Cons)
    have "h1 e = Some ev'" "nextBin ev' = p" "nextInBin ev' = None" using True by (simp_all add: h1_def ev'_def)
    moreover have "bins_at h1 p bs" using at by (rule fr) simp
    ultimately show ?thesis unfolding f by (simp add: bins_at_Cons [of h1 "Some e" "[e]"])
  next
    case False
    then show ?thesis using e(1) cv inc' cs by (simp add: Cons bins_at_Cons h1_def ev'_def)
  qed
  moreover have "insertBefore e p h = Inr h1"
    using e(1) cv by (simp add: insertBefore_def h1_def ev'_def key_simps)
  ultimately show thesis using that [of h1] same by (simp add: h1_def ev'_def)
qed

text \<open>The search ends between the bins that are earlier than the event and the others.\<close>

lemma bin_search_bins:
  assumes at: "bins_at h p (b # bs)" and lt: "kof h (hd b) < ekey ev"
    and split: "as = takeWhile (\<lambda>b. kof h (hd b) < ekey ev) (b # bs)" "rest = dropWhile (\<lambda>b. kof h (hd b) < ekey ev) (b # bs)"
  obtains hv where "h (hd b) = Some hv" and "as \<noteq> []"
    and "bin_search h ev (hd b) (nextBin hv) = Some (Inr (hd (last as), first (map hd rest)))"
    and "bins_at h (first (map hd rest)) rest"
proof -
  obtain hv where hv: "h (hd b) = Some hv" "bins_at h (nextBin hv) bs" using at by (auto simp: bins_at_Cons)
  have as: "as = b # takeWhile (\<lambda>b. kof h (hd b) < ekey ev) bs" and rs: "rest = dropWhile (\<lambda>b. kof h (hd b) < ekey ev) bs"
    using lt by (simp_all add: split)
  have "lseg nextBin h (nextBin hv) (map hd bs) None" using hv(2) by (simp add: bins_at_def)
  then have "bin_search h ev (hd b) (nextBin hv) = Some (Inr (last (map hd as), first (map hd rest)))"
    by (simp add: bin_search_spec as rs takeWhile_map dropWhile_map comp_def)
  moreover have "last (map hd as) = hd (last as)" using as by (simp add: last_map)
  moreover obtain r where "bins_at h r rest"
    using at takeWhile_dropWhile_id [of "\<lambda>b. kof h (hd b) < ekey ev" "b # bs"] bins_at_append [of h p as rest]
    by (auto simp: split)
  ultimately show thesis using that [of hv] hv(1) bins_at_first [of h r rest] as by simp
qed

definition same_data :: "event_store \<Rightarrow> event_store \<Rightarrow> bool" where
  "same_data h h' \<longleftrightarrow> (\<forall>x. map_option EventData.truncate (h' x) = map_option EventData.truncate (h x))"

lemma same_data_upd:
  assumes "\<And>x. x \<noteq> e \<Longrightarrow> h1 x = h x" and "h e = Some ev"
    and "map_option EventData.truncate (h1 e) = Some (EventData.truncate ev)"
  shows "same_data h h1"
  unfolding same_data_def using assms by (metis option.simps(9))

lemma same_data_trans: "same_data h1 h2 \<Longrightarrow> same_data h2 h3 \<Longrightarrow> same_data h1 h3"
  by (simp add: same_data_def)

lemma front_le:
  "rest = dropWhile (\<lambda>b. kof h (hd b) < v) bs \<Longrightarrow> rest = [] \<or> v \<le> kof h (hd (hd rest))"
  by (cases rest) (auto simp: dropWhile_eq_Cons_conv not_less dest: sym)

lemma eq_insert_head:
  assumes at: "bins_at (eq_events q) (eq_head q) bs"
    and le: "bs = [] \<or> kof (eq_events q) e \<le> kof (eq_events q) (hd (hd bs))"
    and e: "eq_events q e = Some ev" "e \<notin> set (concat bs)"
  obtains h' where "eq_insert e q = Some (Inr (q\<lparr>eq_head := Some e, eq_events := h'\<rparr>))"
    and "bins_at h' (Some e) (front (kof (eq_events q)) e bs)" and "same_data (eq_events q) h'"
proof -
  obtain h1 where h1: "insertBefore e (eq_head q) (eq_events q) = Inr h1" "bins_at h1 (Some e) (front (kof (eq_events q)) e bs)"
    "\<And>x. x \<noteq> e \<Longrightarrow> h1 x = eq_events q x" "map_option EventData.truncate (h1 e) = Some (EventData.truncate ev)"
    using insertBefore_bins [OF at le e] by blast
  have "eq_insert e q = Some (head_insert e q)"
  proof (cases bs)
    case (Cons c cs)
    then obtain cv where "eq_head q = Some (hd c)" "eq_events q (hd c) = Some cv" using at by (auto simp: bins_at_Cons)
    then show ?thesis using le Cons e(1) by (simp add: eq_insert_def key_simps)
  qed (use at e(1) in \<open>simp add: eq_insert_def\<close>)
  moreover have "same_data (eq_events q) h1" using h1(3) e(1) h1(4) by (rule same_data_upd [of e h1])
  ultimately show thesis using that [of h1] h1(1,2) by (simp add: head_insert_def)
qed

lemma eq_insert_middle:
  assumes at: "bins_at (eq_events q) (eq_head q) (b # bs)" and lt: "kof (eq_events q) (hd b) < kof (eq_events q) e"
    and dist: "distinct (concat (b # bs))" and e: "eq_events q e = Some ev" "e \<notin> set (concat (b # bs))"
  obtains h' where "eq_insert e q = Some (Inr (q\<lparr>eq_head := eq_head q, eq_events := h'\<rparr>))"
    and "bins_at h' (eq_head q) (bins_insert (kof (eq_events q)) e (b # bs))" and "same_data (eq_events q) h'"
proof -
  define h where "h = eq_events q"
  define as rest where split: "as = takeWhile (\<lambda>b. kof h (hd b) < ekey ev) (b # bs)" "rest = dropWhile (\<lambda>b. kof h (hd b) < ekey ev) (b # bs)"
  note at = at [folded h_def] and eh = e(1) [folded h_def]
  have bs: "b # bs = as @ rest" by (simp only: split takeWhile_dropWhile_id)
  have ke: "kof h e = ekey ev" using eh by simp
  have lt': "kof h (hd b) < ekey ev" using lt ke by (simp add: h_def)
  obtain hv where hv: "h (hd b) = Some hv" "as \<noteq> []" "bin_search h ev (hd b) (nextBin hv) = Some (Inr (hd (last as), first (map hd rest)))"
    "bins_at h (first (map hd rest)) rest"
    using bin_search_bins [OF at lt' split] by blast
  obtain as' a where a: "as = as' @ [a]" using hv(2) by (metis rev_exhaust)
  have le: "rest = [] \<or> kof h e \<le> kof h (hd (hd rest))" unfolding ke by (rule front_le) (rule split(2))
  have out: "e \<notin> set (concat as)" "e \<notin> set (concat rest)" using e(2) by (auto simp: bs)
  obtain h1 where h1: "insertBefore e (first (map hd rest)) h = Inr h1" "bins_at h1 (Some e) (front (kof h) e rest)"
    "\<And>x. x \<noteq> e \<Longrightarrow> h1 x = h x" "map_option EventData.truncate (h1 e) = Some (EventData.truncate ev)"
    using insertBefore_bins [OF hv(4) le eh out(2)] by blast
  have "a \<noteq> []" using at unfolding bs a by (simp add: bins_at_def)
  then have "hd a \<in> set a" by simp
  then have hda: "hd a \<notin> set (concat (front (kof h) e rest))" using dist out(1) unfolding bs a by (auto simp: concat_front)
  have at': "bins_at h (eq_head q) (as' @ a # rest)" using at unfolding bs a by simp
  have dist': "distinct (concat (as' @ [a]))" using dist unfolding bs a by auto
  have same: "h1 x = h x" if "x \<in> set (concat (as' @ [a]))" for x using h1(3) [of x] out(1) that by (auto simp: a)
  obtain h2 where h2: "set_nextBin (hd a) (Some e) h1 = Inr h2" "bins_at h2 (eq_head q) (as' @ a # front (kof h) e rest)"
    "\<And>x. map_option EventData.truncate (h2 x) = map_option EventData.truncate (h1 x)"
    using bins_relink [OF at' dist' same h1(2) hda] by blast
  have nle: "(ekey ev \<le> ekey hv) = False" using leD [of "ekey ev" "ekey hv"] lt' hv(1) by auto
  have "eq_head q = Some (hd b)" using at by (simp add: bins_at_Cons)
  then have "eq_insert e q = Some (Inr (q\<lparr>eq_head := eq_head q, eq_events := h2\<rparr>))"
    using hv h1(1) h2(1) eh by (simp add: eq_insert_def key_simps nle h_def [symmetric] a)
  moreover have "same_data h h1" using h1(3) eh h1(4) by (rule same_data_upd [of e h1])
  then have "same_data h h2" by (simp add: same_data_def h2(3))
  moreover have "bins_insert (kof h) e (b # bs) = as' @ a # front (kof h) e rest"
    by (simp only: bins_insert_split split [folded ke, symmetric]) (simp add: a)
  ultimately show thesis using that [of h2] h2(2) by (simp add: h_def)
qed

lemma eq_insert_bins:
  assumes at: "bins_at (eq_events q) (eq_head q) bs" and dist: "distinct (concat bs)"
    and e: "eq_events q e = Some ev" "e \<notin> set (concat bs)"
  obtains p' h' where "eq_insert e q = Some (Inr (q\<lparr>eq_head := p', eq_events := h'\<rparr>))"
    and "bins_at h' p' (bins_insert (kof (eq_events q)) e bs)" and "same_data (eq_events q) h'"
proof (cases "\<exists>b cs. bs = b # cs \<and> kof (eq_events q) (hd b) < kof (eq_events q) e")
  case True
  then show thesis using eq_insert_middle [of q _ _ e ev] assms that by metis
next
  case False
  then have le: "bs = [] \<or> kof (eq_events q) e \<le> kof (eq_events q) (hd (hd bs))" by (cases bs) (auto simp: not_less)
  have "bins_insert (kof (eq_events q)) e bs = front (kof (eq_events q)) e bs" using False by (cases bs) auto
  then show thesis using eq_insert_head [OF at le e] that by metis
qed

subsection \<open>Removal\<close>

lemma item_search_spec:
  "lseg nextInBin h p es None \<Longrightarrow> item_search h e c p =
    Some (if e \<in> set es then Inr (last (c # takeWhile (\<lambda>x. x \<noteq> e) es)) else Inl Panic)"
proof (induction es arbitrary: p c)
  case Nil
  then show ?case by (subst item_search.simps) simp
next
  case (Cons x es)
  then obtain v where v: "p = Some x" "h x = Some v" "lseg nextInBin h (nextInBin v) es None" by auto
  show ?case by (subst item_search.simps) (use v Cons.IH [OF v(3)] in auto)
qed

definition drop_item :: "nat \<Rightarrow> nat list \<Rightarrow> nat list list \<Rightarrow> nat list list" where
  "drop_item e b bs = (if remove1 e b = [] then bs else remove1 e b # bs)"

lemma removeItem_top:
  assumes at: "bins_at h p ((e # es) # bs)" and dist: "distinct (concat ((e # es) # bs))"
  obtains p' h' where "removeItem e e h = Some (Inr (p', h'))" and "bins_at h' p' (drop_item e (e # es) bs)"
    and "same_data h h'" and "\<And>x. x \<notin> set (e # es) \<Longrightarrow> h' x = h x"
proof -
  obtain tv where tv: "h e = Some tv" "bins_at h (nextBin tv) bs" "lseg nextInBin h (nextInBin tv) es None"
    using at by (auto simp: bins_at_Cons)
  show thesis
  proof (cases es)
    case Nil
    then show thesis using tv that [of "nextBin tv" h] by (simp add: removeItem_def drop_item_def same_data_def)
  next
    case (Cons n ws)
    then obtain nv where nv: "nextInBin tv = Some n" "h n = Some nv" using tv(3) by auto
    define h' where "h' = h(n \<mapsto> nv\<lparr>nextBin := nextBin tv\<rparr>)"
    have h'n: "h' n = Some (nv\<lparr>nextBin := nextBin tv\<rparr>)" by (simp add: h'_def)
    have seg: "lseg nextInBin h (Some n) es None" using tv(3) nv(1) by simp
    have "lseg nextInBin h' (Some n) es None"
      by (rule lseg_frame [OF _ seg]) (simp add: h'_def nv(2))
    moreover have "bins_at h' (nextBin tv) bs"
      by (rule bins_at_frame [OF tv(2)]) (use dist Cons in \<open>auto simp: h'_def same_links_def\<close>)
    ultimately have "bins_at h' (Some n) (es # bs)" using Cons h'n by (simp add: bins_at_Cons [of h' "Some n" "n # ws"])
    moreover have "removeItem e e h = Some (Inr (Some n, h'))"
      using tv nv by (simp add: removeItem_def set_nextBin_def h'_def)
    moreover have "same_data h h'" using nv(2) by (simp add: same_data_def h'_def)
    moreover have "h' x = h x" if "x \<notin> set (e # es)" for x using that Cons by (auto simp: h'_def)
    moreover have "drop_item e (e # es) bs = es # bs" by (simp add: drop_item_def Cons)
    ultimately show thesis using that [of "Some n" h'] by simp
  qed
qed

lemma removeItem_inner:
  assumes at: "bins_at h p ((t # es) # bs)" and dist: "distinct (concat ((t # es) # bs))" and e: "e \<in> set es"
  obtains h' where "removeItem e t h = Some (Inr (p, h'))" and "bins_at h' p (drop_item e (t # es) bs)"
    and "same_data h h'" and "\<And>x. x \<notin> set (t # es) \<Longrightarrow> h' x = h x"
proof -
  obtain us ws where es: "es = us @ e # ws" "e \<notin> set us" using split_list_first [OF e] by blast
  have et: "e \<noteq> t" using dist e by auto
  obtain xs c where c: "t # us = xs @ [c]" by (metis list.distinct(1) rev_exhaust)
  have seg: "lseg nextInBin h (Some t) ((xs @ [c]) @ e # ws) None" and p: "p = Some t"
    using at by (simp_all add: bins_at_Cons es c [symmetric])
  obtain tv where tv: "h t = Some tv" "bins_at h (nextBin tv) bs" "lseg nextInBin h (nextInBin tv) es None"
    using at by (auto simp: bins_at_Cons)
  obtain r ev where ev: "h e = Some ev" "lseg nextInBin h (nextInBin ev) ws None" "lseg nextInBin h (Some t) (xs @ [c]) r"
    using seg unfolding lseg_append [of _ _ _ "xs @ [c]"] by auto
  obtain cv where cv: "h c = Some cv" using lseg_dom [OF ev(3), of c] by auto
  have cin: "c \<in> set (t # us)" unfolding c by simp
  then have cb: "c \<in> set (t # es)" by (auto simp: es)
  have "distinct ((t # us) @ e # ws)" using dist by (auto simp: es)
  then have d: "distinct ((xs @ [c]) @ e # ws)" unfolding c .
  have "c \<notin> set (concat bs)" using dist cb by auto
  note d = d this
  define h' where "h' = h(c \<mapsto> cv\<lparr>nextInBin := nextInBin ev\<rparr>)"
  have "lseg nextInBin h' (Some t) (xs @ [c]) (nextInBin ev)"
    by (rule lseg_set_last [OF ev(3)]) (use d in \<open>auto simp: h'_def\<close>)
  moreover have "lseg nextInBin h' (nextInBin ev) ws None"
    by (rule lseg_frame [OF _ ev(2)]) (use d in \<open>auto simp: h'_def\<close>)
  ultimately have "lseg nextInBin h' (Some t) (t # us @ ws) None"
    unfolding append_Cons [symmetric] c lseg_append [of _ _ _ "xs @ [c]"] by blast
  moreover have "bins_at h' (nextBin tv) bs"
    by (rule bins_at_frame [OF tv(2)]) (use d in \<open>auto simp: h'_def same_links_def\<close>)
  moreover have "\<exists>v. h' t = Some v \<and> nextBin v = nextBin tv" using tv(1) cv by (auto simp: h'_def)
  ultimately have at': "bins_at h' (Some t) ((t # us @ ws) # bs)" unfolding bins_at_Cons by auto
  have "last (t # us) = c" by (simp only: c last_snoc)
  moreover have "takeWhile (\<lambda>x. x \<noteq> e) es = us" 
    unfolding es(1) using es(2) by (subst takeWhile_append2) auto
  ultimately have "removeItem e t h = Some (Inr (Some t, h'))"
    using et e tv(1) cv ev(1) item_search_spec [OF tv(3), of e t]
    by (simp add: removeItem_def set_nextInBin_def h'_def)
  moreover have "drop_item e (t # es) bs = (t # us @ ws) # bs" using et es by (simp add: drop_item_def remove1_append)
  moreover have "same_data h h'" using cv by (simp add: same_data_def h'_def)
  moreover have "h' x = h x" if "x \<notin> set (t # es)" for x using that cb by (auto simp: h'_def)
  ultimately show thesis using that [of h'] at' p by simp
qed

lemma removeItem_bins:
  assumes at: "bins_at h p (b # bs)" and dist: "distinct (concat (b # bs))" and e: "e \<in> set b"
  obtains p' h' where "removeItem e (hd b) h = Some (Inr (p', h'))" and "bins_at h' p' (drop_item e b bs)"
    and "same_data h h'" and "\<And>x. x \<notin> set b \<Longrightarrow> h' x = h x"
proof -
  obtain t es where b: "b = t # es" using e by (cases b) auto
  show thesis
  proof (cases "e = t")
    case True
    then show thesis using removeItem_top [of h p e es bs] at dist that b by auto
  next
    case False
    then show thesis using removeItem_inner [of h p t es bs e] at dist e that b by auto
  qed
qed

lemma removeItem_missing:
  assumes "bins_at h p (b # bs)" and "e \<notin> set b"
  shows "removeItem e (hd b) h = Some (Inl Panic)"
proof -
  obtain t es where b: "b = t # es" using assms(1) by (cases b) (auto simp: bins_at_Cons)
  obtain tv where tv: "h t = Some tv" "lseg nextInBin h (nextInBin tv) es None" using assms(1) b by (auto simp: bins_at_Cons)
  then show ?thesis using assms(2) b item_search_spec [OF tv(2), of e t] by (auto simp: removeItem_def)
qed

subsection \<open>Removal from the queue\<close>

lemma bins_remove_split:
  assumes "\<And>a. a \<in> set as \<Longrightarrow> e \<notin> set a" and "e \<in> set b"
  shows "bins_remove e (as @ b # bs) = as @ drop_item e b bs"
  using assms by (induction as) (auto simp: drop_item_def)

lemma set_drop_item: "set (concat (drop_item e b bs)) \<subseteq> set (concat (b # bs))"
  using set_remove1_subset [of e b] by (auto simp: drop_item_def)

text \<open>An event of the queue lies in the first bin that is not earlier.\<close>

lemma event_bin:
  assumes sort: "sorted_bins k bs" and e: "e \<in> set (concat bs)"
    and split: "as = takeWhile (\<lambda>b. k (hd b) < k e) bs" "rest = dropWhile (\<lambda>b. k (hd b) < k e) bs"
  obtains c cs where "rest = c # cs" and "e \<in> set c" and "k (hd c) = k e" and "\<And>a. a \<in> set as \<Longrightarrow> e \<notin> set a"
proof -
  have bs: "bs = as @ rest" by (simp add: split)
  have key: "k x = k (hd b)" if "b \<in> set bs" "x \<in> set b" for b x
    using sort that unfolding sorted_bins_def by (metis hd_in_set)
  have as: "e \<notin> set a" if "a \<in> set as" for a
  proof
    assume "e \<in> set a"
    then have "k e = k (hd a)" using key [of a e] that bs by simp
    moreover have "k (hd a) < k e" using that set_takeWhileD split(1) by fastforce
    ultimately show False by simp
  qed
  then obtain d where d: "d \<in> set rest" "e \<in> set d" using e bs by auto
  then obtain c cs where c: "rest = c # cs" by (cases rest) auto
  have ge: "\<not> k (hd c) < k e" using c split(2) by (simp add: dropWhile_eq_Cons_conv)
  have "d = c"
  proof (rule ccontr)
    assume "d \<noteq> c"
    then have "k (hd c) < k (hd d)" using d(1) c sort bs by (auto simp: sorted_bins_def sorted_wrt_append)
    moreover have "k e = k (hd d)" using key [of d e] d bs by simp
    ultimately show False using ge by simp
  qed
  then show thesis using that [OF c _ _ as] d key [of c e] bs c by simp
qed

lemma eq_remove_middle:
  assumes at: "bins_at (eq_events q) (eq_head q) (b # bs)" and sort: "sorted_bins (kof (eq_events q)) (b # bs)"
    and dist: "distinct (concat (b # bs))" and e: "eq_events q e = Some ev" "ev_queue ev = Some (eq_self q)"
    and mem: "e \<in> set (concat (b # bs))" and ne: "kof (eq_events q) (hd b) \<noteq> ekey ev"
  obtains h' where "eq_remove e q = Some (Inr (q\<lparr>eq_head := eq_head q, eq_events := h'\<rparr>))"
    and "bins_at h' (eq_head q) (bins_remove e (b # bs))" and "same_data (eq_events q) h'"
proof -
  define h where "h = eq_events q"
  define as rest where split: "as = takeWhile (\<lambda>b. kof h (hd b) < ekey ev) (b # bs)" "rest = dropWhile (\<lambda>b. kof h (hd b) < ekey ev) (b # bs)"
  note at = at [folded h_def] and eh = e(1) [folded h_def] and sort = sort [folded h_def] and ne = ne [folded h_def]
  have bs: "b # bs = as @ rest" by (simp only: split takeWhile_dropWhile_id)
  have ke: "kof h e = ekey ev" using eh by simp
  obtain c cs where c: "rest = c # cs" "e \<in> set c" "kof h (hd c) = kof h e" "\<And>a. a \<in> set as \<Longrightarrow> e \<notin> set a"
    using event_bin [OF sort mem split [folded ke]] by blast
  have lt: "kof h (hd b) < ekey ev"
  proof (rule ccontr)
    assume "\<not> kof h (hd b) < ekey ev"
    then have "rest = b # bs" by (simp add: split)
    then show False using c(1,3) ne ke by simp
  qed
  obtain hv where hv: "h (hd b) = Some hv" "as \<noteq> []" "bin_search h ev (hd b) (nextBin hv) = Some (Inr (hd (last as), first (map hd rest)))"
    "bins_at h (first (map hd rest)) rest"
    using bin_search_bins [OF at lt split] by blast
  obtain as' a where a: "as = as' @ [a]" using hv(2) by (metis rev_exhaust)
  have dr: "distinct (concat (c # cs))" "distinct (concat (as' @ [a]))" "set (concat as) \<inter> set (concat (c # cs)) = {}"
    using dist unfolding bs a c(1) by (simp_all del: concat.simps add: concat_append) auto
  obtain p' h1 where h1: "removeItem e (hd c) h = Some (Inr (p', h1))" "bins_at h1 p' (drop_item e c cs)"
    "same_data h h1" "\<And>x. x \<notin> set c \<Longrightarrow> h1 x = h x"
    using removeItem_bins [OF hv(4) [unfolded c(1)] dr(1) c(2)] by blast
  have "a \<noteq> []" using at unfolding bs a by (simp add: bins_at_def)
  then have "hd a \<in> set (concat as)" by (simp add: a)
  then have hda: "hd a \<notin> set (concat (drop_item e c cs))" using dr(3) set_drop_item [of e c cs] by blast
  have at': "bins_at h (eq_head q) (as' @ a # rest)" using at unfolding bs a by simp
  have same: "h1 x = h x" if "x \<in> set (concat (as' @ [a]))" for x using dr(3) that a by (intro h1(4)) auto
  obtain h2 where h2: "set_nextBin (hd a) p' h1 = Inr h2" "bins_at h2 (eq_head q) (as' @ a # drop_item e c cs)"
    "\<And>x. map_option EventData.truncate (h2 x) = map_option EventData.truncate (h1 x)"
    using bins_relink [OF at' dr(2) same h1(2) hda] by blast
  obtain cv where cv: "h (hd c) = Some cv" using hv(4) c(1) by (auto simp: bins_at_Cons)
  have "eq_head q = Some (hd b)" using at by (simp add: bins_at_Cons)
  then have "eq_remove e q = Some (Inr (q\<lparr>eq_head := eq_head q, eq_events := h2\<rparr>))"
    using hv(1,3) h1(1) h2(1) eh e(2) ne c(1,3) cv ke by (simp add: eq_remove_def key_simps h_def [symmetric] a)
  moreover have "same_data h h2" using h1(3) by (simp add: same_data_def h2(3))
  moreover have "bins_remove e (b # bs) = as' @ a # drop_item e c cs"
    using bins_remove_split [of as e c cs, OF c(4) c(2)] unfolding bs c(1) by (simp add: a)
  ultimately show thesis using that [of h2] h2(2) by (simp add: h_def)
qed

lemma eq_remove_bins:
  assumes at: "bins_at (eq_events q) (eq_head q) bs" and sort: "sorted_bins (kof (eq_events q)) bs"
    and dist: "distinct (concat bs)" and e: "eq_events q e = Some ev" "ev_queue ev = Some (eq_self q)"
    and mem: "e \<in> set (concat bs)"
  obtains p' h' where "eq_remove e q = Some (Inr (q\<lparr>eq_head := p', eq_events := h'\<rparr>))"
    and "bins_at h' p' (bins_remove e bs)" and "same_data (eq_events q) h'"
proof -
  obtain b ds where bs: "bs = b # ds" using mem by (cases bs) auto
  show thesis
  proof (cases "kof (eq_events q) (hd b) = ekey ev")
    case True
    have "dropWhile (\<lambda>b. kof (eq_events q) (hd b) < kof (eq_events q) e) bs = b # ds" using True e(1) bs by simp
    then have eb: "e \<in> set b" using event_bin [OF sort mem refl refl] by (metis list.inject)
    obtain p' h1 where h1: "removeItem e (hd b) (eq_events q) = Some (Inr (p', h1))" "bins_at h1 p' (drop_item e b ds)"
      "same_data (eq_events q) h1"
      using removeItem_bins [OF at [unfolded bs] dist [unfolded bs] eb] by blast
    obtain hv where "eq_head q = Some (hd b)" "eq_events q (hd b) = Some hv" using at bs by (auto simp: bins_at_Cons)
    then have "eq_remove e q = Some (Inr (q\<lparr>eq_head := p', eq_events := h1\<rparr>))"
      using h1(1) e True by (simp add: eq_remove_def key_simps)
    moreover have "bins_remove e bs = drop_item e b ds" using eb by (simp add: bs drop_item_def)
    ultimately show thesis using that h1 by simp
  next
    case False
    then show thesis using eq_remove_middle [of q b ds e ev] assms that unfolding bs by metis
  qed
qed

lemma eq_remove_missing:
  assumes at: "bins_at (eq_events q) (eq_head q) bs" and e: "eq_events q e = Some ev"
    and mem: "e \<notin> set (concat bs)"
  shows "eq_remove e q = Some (Inl (if bs = [] \<or> ev_queue ev = Some (eq_self q) then Panic else AssertFailed))"
proof (cases bs)
  case (Cons b ds)
  obtain hv where hv: "eq_head q = Some (hd b)" "eq_events q (hd b) = Some hv" "bins_at (eq_events q) (nextBin hv) ds"
    using at Cons by (auto simp: bins_at_Cons)
  have rm: "removeItem e (hd b) (eq_events q) = Some (Inl Panic)" using removeItem_missing at mem Cons by auto
  define rest where "rest = dropWhile (\<lambda>b. kof (eq_events q) (hd b) < ekey ev) ds"
  have "lseg nextBin (eq_events q) (nextBin hv) (map hd ds) None" using hv(3) by (simp add: bins_at_def)
  then obtain pr where bsr: "bin_search (eq_events q) ev (hd b) (nextBin hv) = Some (Inr (pr, first (map hd rest)))"
    by (simp add: bin_search_spec rest_def dropWhile_map comp_def)
  show ?thesis
  proof (cases rest)
    case Nil
    then show ?thesis using hv rm bsr e Cons by (simp add: eq_remove_def key_simps)
  next
    case c: (Cons c cs)
    obtain as where "ds = as @ c # cs" using takeWhile_dropWhile_id [of _ ds] c rest_def by metis
    then obtain r cv where r: "bins_at (eq_events q) r (c # cs)" "eq_events q (hd c) = Some cv" "e \<notin> set c"
      using hv(3) mem Cons by (auto simp: bins_at_append bins_at_Cons)
    then have "removeItem e (hd c) (eq_events q) = Some (Inl Panic)" using removeItem_missing by blast
    then show ?thesis using hv rm bsr e Cons c r(2) by (simp add: eq_remove_def key_simps)
  qed
qed (use at in \<open>simp add: eq_remove_def\<close>)

subsection \<open>The head\<close>

lemma pop_head_bins:
  assumes at: "bins_at (eq_events q) (eq_head q) ((p # es) # bs)" and dist: "distinct (concat ((p # es) # bs))"
    and p: "eq_events q p = Some ev"
  obtains p' h' where "pop_head p ev q = Inr (q\<lparr>eq_head := p', eq_events := h'\<rparr>)"
    and "bins_at h' p' (drop_item p (p # es) bs)"
    and "same_data ((eq_events q)(p \<mapsto> clearFlag Scheduled ev)) h'"
proof -
  define h where "h = (eq_events q)(p \<mapsto> clearFlag Scheduled ev)"
  have hp: "eq_head q = Some p" using at by (simp add: bins_at_Cons)
  have at': "bins_at h (Some p) ((p # es) # bs)"
    using at unfolding hp by (rule bins_at_frame) (auto simp: h_def same_links_def clearFlag_def p)
  obtain p' h' where r: "removeItem p p h = Some (Inr (p', h'))" "bins_at h' p' (drop_item p (p # es) bs)" "same_data h h'"
    using removeItem_top [OF at' dist] by blast
  have "nextInBin (clearFlag Scheduled ev) = nextInBin ev" "nextBin (clearFlag Scheduled ev) = nextBin ev"
    by (simp_all add: clearFlag_def)
  then have "pop_head p ev q = Inr (q\<lparr>eq_head := p', eq_events := h'\<rparr>)"
    using r(1) unfolding removeItem_def pop_head_def h_def [symmetric] Let_def
    by (auto simp: h_def set_nextBin_def result_simps split: option.splits)
  then show thesis using that r h_def by blast
qed

end
