(* ===== verification/EventSpec.thy ===== *)
theory EventSpec
  imports EventBins
begin

text \<open>
  What the event queue promises, without pointers: the events in the order of their service as one
  list. A new event is placed in front of the first event that is not earlier, so that events of
  the same time and priority are served last in, first out. The operations of the pointer
  structure simulate those of the specification, aborts included.
\<close>

record QSpec =
  sp_self :: nat
  sp_tick :: Tick
  sp_async :: "nat list"
  sp_order :: "nat list"
  sp_events :: "nat \<rightharpoonup> EventData"

subsection \<open>Operations of the specification\<close>

definition QSpec_new :: "nat \<Rightarrow> QSpec" where
  "QSpec_new self = \<lparr>sp_self = self, sp_tick = 0, sp_async = [], sp_order = [], sp_events = Map.empty\<rparr>"

definition sp_on :: "nat \<Rightarrow> (EventData \<Rightarrow> EventData) \<Rightarrow> QSpec \<Rightarrow> QSpec result" where
  "sp_on e f a = bindE (deref e (sp_events a)) (\<lambda>d. Inr (a\<lparr>sp_events := (sp_events a)(e \<mapsto> f d)\<rparr>))"

definition sp_insert :: "nat \<Rightarrow> QSpec \<Rightarrow> QSpec result" where
  "sp_insert e a = bindE (deref e (sp_events a)) (\<lambda>d.
    Inr (a\<lparr>sp_order := place (kof (sp_events a)) e (sp_order a)\<rparr>))"

definition sp_remove :: "nat \<Rightarrow> QSpec \<Rightarrow> QSpec result" where
  "sp_remove e a = checked (sp_order a \<noteq> []) Panic (bindE (deref e (sp_events a)) (\<lambda>d.
    checked (ev_queue d = Some (sp_self a)) AssertFailed (checked (e \<in> set (sp_order a)) Panic
      (Inr (a\<lparr>sp_order := remove1 e (sp_order a)\<rparr>)))))"

definition sp_delete :: "nat \<Rightarrow> QSpec \<Rightarrow> QSpec result" where
  "sp_delete e a = bindE (deref e (sp_events a)) (\<lambda>d.
    checked (\<not> isSet Scheduled d) AssertFailed (Inr (a\<lparr>sp_events := (sp_events a)(e := None)\<rparr>)))"

definition sp_release :: "nat \<Rightarrow> QSpec \<Rightarrow> QSpec result" where
  "sp_release e a = bindE (deref e (sp_events a)) (\<lambda>d.
    if isSet Managed d \<and> \<not> isSet Scheduled d then sp_delete e a else Inr a)"

definition sp_new :: "nat \<Rightarrow> 8 word \<Rightarrow> 16 word \<Rightarrow> QSpec \<Rightarrow> QSpec result" where
  "sp_new e p f a = checked (sp_events a e = None) UndefinedBehaviour
    (checked ((f AND NOT PublicWrite) = 0) AssertFailed (Inr (a\<lparr>sp_events := (sp_events a)(e \<mapsto>
      \<lparr>ev_when = 0, ev_priority = p, ev_flags = Initialized OR f, ev_queue = None\<rparr>)\<rparr>)))"

definition sp_schedule :: "Globals \<Rightarrow> nat \<Rightarrow> Tick \<Rightarrow> bool \<Rightarrow> QSpec \<Rightarrow> QSpec result" where
  "sp_schedule g e w global a = checked (sp_tick a \<le> w) AssertFailed (bindE (deref e (sp_events a)) (\<lambda>d.
    checked (\<not> isSet Scheduled d \<and> initialized d) AssertFailed
      (bindE (sp_on e (setWhen w (sp_self a)) a) (\<lambda>a1.
       bindE (if inParallelMode g \<and> (Some (sp_self a) \<noteq> curEventQueue g \<or> global)
              then Inr (a1\<lparr>sp_async := sp_async a1 @ [e]\<rparr>) else sp_insert e a1)
       (sp_on e (setFlag Scheduled))))))"

definition sp_deschedule :: "Globals \<Rightarrow> nat \<Rightarrow> QSpec \<Rightarrow> QSpec result" where
  "sp_deschedule g e a = bindE (deref e (sp_events a)) (\<lambda>d.
    checked (isSet Scheduled d \<and> initialized d \<and> (inParallelMode g \<longrightarrow> Some (sp_self a) = curEventQueue g)) AssertFailed
      (bindE (sp_remove e a) (\<lambda>a1. bindE (sp_on e (clearFlag Scheduled \<circ> clearFlag Squashed) a1) (sp_release e))))"

definition sp_reschedule :: "Globals \<Rightarrow> nat \<Rightarrow> Tick \<Rightarrow> bool \<Rightarrow> QSpec \<Rightarrow> QSpec result" where
  "sp_reschedule g e w always a = checked (sp_tick a \<le> w) AssertFailed (bindE (deref e (sp_events a)) (\<lambda>d.
    checked ((always \<or> isSet Scheduled d) \<and> initialized d \<and>
        (inParallelMode g \<longrightarrow> Some (sp_self a) = curEventQueue g)) AssertFailed
      (bindE (if isSet Scheduled d then sp_remove e a else Inr a) (\<lambda>a1.
       bindE (sp_on e (setWhen w (sp_self a)) a1) (\<lambda>a2.
       bindE (sp_insert e a2) (sp_on e (setFlag Scheduled \<circ> clearFlag Squashed)))))))"

primrec sp_async_loop :: "nat list \<Rightarrow> QSpec \<Rightarrow> QSpec result" where
  "sp_async_loop [] a = Inr a"
| "sp_async_loop (e # es) a = bindE (sp_insert e a) (\<lambda>a1. sp_async_loop es (a1\<lparr>sp_async := es\<rparr>))"

primrec sp_call :: "Globals \<Rightarrow> QCall \<Rightarrow> QSpec \<Rightarrow> QSpec result" where
  "sp_call g (Schedule e w global) a = sp_schedule g e w global a"
| "sp_call g (Deschedule e) a = sp_deschedule g e a"
| "sp_call g (Reschedule e w always) a = sp_reschedule g e w always a"
| "sp_call g (Squash e) a = sp_on e (setFlag Squashed) a"
| "sp_call g (SetFlags e f) a = checked ((f AND NOT PublicWrite) = 0) AssertFailed (sp_on e (setFlag f) a)"
| "sp_call g (ClearFlags e f) a = checked ((f AND NOT PublicWrite) = 0) AssertFailed (sp_on e (clearFlag f) a)"
| "sp_call g (ClearPublicFlags e) a = sp_on e (clearFlag PublicWrite) a"
| "sp_call g (NewEvent e p f) a = sp_new e p f a"
| "sp_call g (DeleteEvent e) a = sp_delete e a"
| "sp_call g HandleAsyncInsertions a =
    checked (Some (sp_self a) = curEventQueue g) AssertFailed (sp_async_loop (sp_async a) a)"

definition sp_view :: "QSpec \<Rightarrow> QView" where
  "sp_view a = \<lparr>qv_tick = sp_tick a, qv_head = first (sp_order a), qv_events = sp_events a\<rparr>"

definition sp_service :: "Globals \<Rightarrow> 'w handler \<Rightarrow> 'w \<Rightarrow> QSpec \<Rightarrow> (nat option \<times> 'w \<times> QSpec) result" where
  "sp_service g process w a = (case sp_order a of
      [] \<Rightarrow> Inl UndefinedBehaviour
    | p # ps \<Rightarrow> bindE (deref p (sp_events a)) (\<lambda>d.
        let a1 = a\<lparr>sp_order := ps, sp_events := (sp_events a)(p \<mapsto> clearFlag Scheduled d)\<rparr> in
        if isSet Squashed d
        then bindE (sp_on p (clearFlag Squashed) a1) (\<lambda>a2. bindE (sp_release p a2) (\<lambda>a3. Inr (None, w, a3)))
        else let a2 = a1\<lparr>sp_tick := ev_when d\<rparr>; (calls, w') = process p w (sp_view a2) in
          bindE (foldE (sp_call g) calls a2) (\<lambda>a3. bindE (deref p (sp_events a3)) (\<lambda>d3.
            if isSet IsExitEvent d3
            then checked (\<not> isSet Managed d3 \<or> \<not> isSet IsMainQueue d3) AssertFailed (Inr (Some p, w', a3))
            else bindE (sp_release p a3) (\<lambda>a4. Inr (None, w', a4))))))"

subsection \<open>Invariant of the specification\<close>

text \<open>The listed events are exactly those that are scheduled on this queue, each listed once.\<close>

definition sp_ok :: "QSpec \<Rightarrow> bool" where
  "sp_ok a \<longleftrightarrow> distinct (sp_order a @ sp_async a) \<and>
    (\<forall>e. e \<in> set (sp_order a @ sp_async a) \<longleftrightarrow>
      (\<exists>d. sp_events a e = Some d \<and> isSet Scheduled d \<and> ev_queue d = Some (sp_self a)))"

lemma place_splitE:
  obtains us vs where "xs = us @ vs" and "place k e xs = us @ e # vs"
    and "\<And>x. x \<in> set us \<Longrightarrow> k x < k e" and "vs = [] \<or> \<not> k (hd vs) < k e"
proof -
  have "vs = [] \<or> \<not> k (hd vs) < k e" if "vs = dropWhile (\<lambda>x. k x < k e) xs" for vs
    using that by (cases vs) (auto simp: dropWhile_eq_Cons_conv dest: sym)
  then show thesis using that [of "takeWhile (\<lambda>x. k x < k e) xs" "dropWhile (\<lambda>x. k x < k e) xs"]
    by (auto simp: place_def dest: set_takeWhileD)
qed

lemma set_place [simp]: "set (place k e xs) = insert e (set xs)"
  by (rule place_splitE [of xs k e]) auto

lemma distinct_place [simp]: "distinct (place k e xs) \<longleftrightarrow> distinct xs \<and> e \<notin> set xs"
  by (rule place_splitE [of xs k e]) auto

text \<open>The flag \<open>Scheduled\<close> is bit 1, which is not publicly writable.\<close>

lemma isSet_Scheduled: "isSet Scheduled d \<longleftrightarrow> bit (ev_flags d) 1"
  using and_exp_eq_0_iff_not_bit [of "ev_flags d" 1] by (simp add: isSet_def Scheduled_def)

lemma public_flag: "(f AND NOT PublicWrite) = 0 \<Longrightarrow> \<not> bit f 1"
  by (drule arg_cong [where f = "\<lambda>w. bit w 1"]) (simp add: bit_simps PublicWrite_def)

lemma Scheduled_flag [simp]:
  "isSet Scheduled (setFlag Scheduled d)" "\<not> isSet Scheduled (clearFlag Scheduled d)"
  "isSet Scheduled (setFlag Squashed d) = isSet Scheduled d"
  "isSet Scheduled (clearFlag Squashed d) = isSet Scheduled d"
  "isSet Scheduled (clearFlag PublicWrite d) = isSet Scheduled d"
  "isSet Scheduled (setWhen w q d) = isSet Scheduled d"
  "\<not> bit f 1 \<Longrightarrow> isSet Scheduled (setFlag f d) = isSet Scheduled d"
  "\<not> bit f 1 \<Longrightarrow> isSet Scheduled (clearFlag f d) = isSet Scheduled d"
  unfolding isSet_Scheduled by (simp_all add: setFlag_def clearFlag_def setWhen_def bit_simps flag_defs)

lemma public_Scheduled [simp]:
  assumes "(f AND NOT PublicWrite) = 0"
  shows "isSet Scheduled (setFlag f d) = isSet Scheduled d" "isSet Scheduled (clearFlag f d) = isSet Scheduled d"
  using public_flag [OF assms] by (rule Scheduled_flag)+

lemma queue_flag [simp]:
  "ev_queue (setFlag f d) = ev_queue d" "ev_queue (clearFlag f d) = ev_queue d" "ev_queue (setWhen w q d) = Some q"
  "ev_when (setFlag f d) = ev_when d" "ev_when (clearFlag f d) = ev_when d" "ev_when (setWhen w q d) = w"
  "ekey (setFlag f d) = ekey d" "ekey (clearFlag f d) = ekey d"
  by (simp_all add: setFlag_def clearFlag_def setWhen_def ekey_def)

lemma sp_ok_new [simp]: "sp_ok (QSpec_new self)"
  by (simp add: sp_ok_def QSpec_new_def)

definition on_queue :: "QSpec \<Rightarrow> nat \<Rightarrow> bool" where
  "on_queue a e \<longleftrightarrow> (\<exists>d. sp_events a e = Some d \<and> isSet Scheduled d \<and> ev_queue d = Some (sp_self a))"

lemma sp_okD: "sp_ok a \<Longrightarrow> e \<in> set (sp_order a) \<or> e \<in> set (sp_async a) \<longleftrightarrow> on_queue a e"
  by (simp add: sp_ok_def on_queue_def)

lemma sp_okI:
  assumes "distinct (sp_order a @ sp_async a)"
    and "\<And>e. e \<in> set (sp_order a) \<or> e \<in> set (sp_async a) \<longleftrightarrow> on_queue a e"
  shows "sp_ok a"
  using assms by (simp add: sp_ok_def on_queue_def)

lemma on_queue_upd [simp]:
  "on_queue (a\<lparr>sp_events := (sp_events a)(e := v)\<rparr>) x \<longleftrightarrow>
    (if x = e then (\<exists>d. v = Some d \<and> isSet Scheduled d \<and> ev_queue d = Some (sp_self a)) else on_queue a x)"
  by (simp add: on_queue_def)

lemma on_queue_frame [simp]:
  "on_queue (a\<lparr>sp_order := l\<rparr>) = on_queue a" "on_queue (a\<lparr>sp_async := l\<rparr>) = on_queue a"
  "on_queue (a\<lparr>sp_tick := t\<rparr>) = on_queue a"
  by (auto simp: on_queue_def fun_eq_iff)

lemma sp_ok_events:
  assumes "sp_ok a" and "sp_events a e = v" and "(\<exists>d. v = Some d \<and> isSet Scheduled d \<and> ev_queue d = Some (sp_self a)) \<longleftrightarrow>
    (\<exists>d. v' = Some d \<and> isSet Scheduled d \<and> ev_queue d = Some (sp_self a))"
  shows "sp_ok (a\<lparr>sp_events := (sp_events a)(e := v')\<rparr>)"
proof (rule sp_okI)
  show "distinct (sp_order (a\<lparr>sp_events := (sp_events a)(e := v')\<rparr>) @ sp_async (a\<lparr>sp_events := (sp_events a)(e := v')\<rparr>))"
    using assms(1) by (simp add: sp_ok_def)
qed (use assms(2,3) sp_okD [OF assms(1)] in \<open>simp add: on_queue_def\<close>)

text \<open>A change of flags that keeps \<open>Scheduled\<close> keeps the invariant.\<close>

lemma sp_on_ok:
  assumes "sp_on e f a = Inr a'" and "sp_ok a"
    and "\<And>d. isSet Scheduled (f d) = isSet Scheduled d" and "\<And>d. ev_queue (f d) = ev_queue d"
  shows "sp_ok a'"
proof -
  obtain d where d: "sp_events a e = Some d" "a' = a\<lparr>sp_events := (sp_events a)(e \<mapsto> f d)\<rparr>"
    using assms(1) by (cases "sp_events a e") (auto simp: sp_on_def)
  show ?thesis unfolding d(2) by (rule sp_ok_events [OF assms(2) d(1)]) (simp add: assms(3,4))
qed

lemma sp_delete_ok:
  assumes "sp_delete e a = Inr a'" and "sp_ok a"
  shows "sp_ok a'"
proof -
  obtain d where d: "sp_events a e = Some d" "\<not> isSet Scheduled d" "a' = a\<lparr>sp_events := (sp_events a)(e := None)\<rparr>"
    using assms(1) by (cases "sp_events a e") (auto simp: sp_delete_def result_simps)
  show ?thesis unfolding d(3) by (rule sp_ok_events [OF assms(2) d(1)]) (simp add: d(2))
qed

lemma sp_release_ok: "sp_release e a = Inr a' \<Longrightarrow> sp_ok a \<Longrightarrow> sp_ok a'"
  by (cases "sp_events a e") (auto simp: sp_release_def sp_delete_ok split: if_splits)

lemma sp_new_ok:
  assumes "sp_new e p f a = Inr a'" and "sp_ok a"
  shows "sp_ok a'"
proof -
  let ?d = "\<lparr>ev_when = 0, ev_priority = p, ev_flags = Initialized OR f, ev_queue = None\<rparr> :: EventData"
  have "sp_events a e = None" "a' = a\<lparr>sp_events := (sp_events a)(e \<mapsto> ?d)\<rparr>"
    using assms(1) by (auto simp: sp_new_def result_simps)
  then show ?thesis using sp_ok_events [OF assms(2), of e None "Some ?d"] by simp
qed

text \<open>A new place in the order goes with the flag.\<close>

lemma sp_place_ok:
  assumes "sp_ok a" and "\<not> on_queue a e" and "isSet Scheduled d" and "ev_queue d = Some (sp_self a)"
  shows "sp_ok (a\<lparr>sp_order := place k e (sp_order a), sp_events := (sp_events a)(e \<mapsto> d)\<rparr>)"
    and "sp_ok (a\<lparr>sp_async := sp_async a @ [e], sp_events := (sp_events a)(e \<mapsto> d)\<rparr>)"
proof -
  have e: "e \<notin> set (sp_order a)" "e \<notin> set (sp_async a)" using sp_okD [OF assms(1), of e] assms(2) by auto
  have dist: "distinct (sp_order a)" "distinct (sp_async a)" "set (sp_order a) \<inter> set (sp_async a) = {}"
    using assms(1) by (auto simp: sp_ok_def)
  have on: "on_queue (a\<lparr>sp_order := l, sp_events := (sp_events a)(e \<mapsto> d)\<rparr>) x \<longleftrightarrow> x = e \<or> on_queue a x"
    "on_queue (a\<lparr>sp_async := l, sp_events := (sp_events a)(e \<mapsto> d)\<rparr>) x \<longleftrightarrow> x = e \<or> on_queue a x" for x l
    using assms(3,4) by (auto simp: on_queue_def)
  show "sp_ok (a\<lparr>sp_order := place k e (sp_order a), sp_events := (sp_events a)(e \<mapsto> d)\<rparr>)"
    by (rule sp_okI) (use e dist sp_okD [OF assms(1)] in \<open>auto simp: on\<close>)
  show "sp_ok (a\<lparr>sp_async := sp_async a @ [e], sp_events := (sp_events a)(e \<mapsto> d)\<rparr>)"
    by (rule sp_okI) (use e dist sp_okD [OF assms(1)] in \<open>auto simp: on\<close>)
qed

lemma sp_take_ok:
  assumes "sp_ok a" and "e \<in> set (sp_order a)" and "\<not> isSet Scheduled d"
  shows "sp_ok (a\<lparr>sp_order := remove1 e (sp_order a), sp_events := (sp_events a)(e \<mapsto> d)\<rparr>)"
proof -
  have dist: "distinct (sp_order a)" "distinct (sp_async a)" "set (sp_order a) \<inter> set (sp_async a) = {}"
    using assms(1) by (auto simp: sp_ok_def)
  have on: "on_queue (a\<lparr>sp_order := l, sp_events := (sp_events a)(e \<mapsto> d)\<rparr>) x \<longleftrightarrow> x \<noteq> e \<and> on_queue a x" for x l
    using assms(3) by (auto simp: on_queue_def)
  show ?thesis by (rule sp_okI) (use assms(2) dist sp_okD [OF assms(1)] in \<open>auto simp: on\<close>)
qed

lemma sp_async_ok:
  assumes "sp_ok a" and "sp_async a = e # es"
  shows "sp_ok (a\<lparr>sp_order := place k e (sp_order a), sp_async := es\<rparr>)"
proof (rule sp_okI)
  have "distinct (sp_order a @ e # es)" using assms by (simp add: sp_ok_def)
  then show "distinct (sp_order (a\<lparr>sp_order := place k e (sp_order a), sp_async := es\<rparr>) @
      sp_async (a\<lparr>sp_order := place k e (sp_order a), sp_async := es\<rparr>))" by auto
qed (use sp_okD [OF assms(1)] assms(2) in auto)

lemma sp_async_loop_ok:
  "sp_async_loop es a = Inr a' \<Longrightarrow> sp_async a = es \<Longrightarrow> sp_ok a \<Longrightarrow> sp_ok a'"
proof (induction es arbitrary: a)
  case (Cons e es)
  have "sp_async_loop es (a\<lparr>sp_order := place (kof (sp_events a)) e (sp_order a), sp_async := es\<rparr>) = Inr a'"
    using Cons.prems(1) by (auto simp: sp_insert_def result_simps)
  then show ?case by (rule Cons.IH) (use sp_async_ok [OF Cons.prems(3,2)] in simp_all)
qed simp

text \<open>The state that a successful call leaves.\<close>

lemma sp_scheduleE:
  assumes "sp_schedule g e w global a = Inr a'"
  obtains d where "sp_events a e = Some d" and "\<not> isSet Scheduled d" and "sp_tick a \<le> w"
    and "a' = a\<lparr>sp_order := place (kof ((sp_events a)(e \<mapsto> setWhen w (sp_self a) d))) e (sp_order a),
        sp_events := (sp_events a)(e \<mapsto> setFlag Scheduled (setWhen w (sp_self a) d))\<rparr> \<or>
      inParallelMode g \<and> a' = a\<lparr>sp_async := sp_async a @ [e],
        sp_events := (sp_events a)(e \<mapsto> setFlag Scheduled (setWhen w (sp_self a) d))\<rparr>"
  using assms by (cases "sp_events a e")
    (auto simp: sp_schedule_def sp_on_def sp_insert_def result_simps split: if_splits)

lemma sp_descheduleE:
  assumes "sp_deschedule g e a = Inr a'"
  obtains d where "e \<in> set (sp_order a)" and "\<not> isSet Scheduled d"
    and "sp_release e (a\<lparr>sp_order := remove1 e (sp_order a), sp_events := (sp_events a)(e \<mapsto> d)\<rparr>) = Inr a'"
proof (cases "sp_events a e")
  case (Some d)
  show thesis using assms Some that [of "clearFlag Scheduled (clearFlag Squashed d)"]
    by (auto simp: sp_deschedule_def sp_on_def sp_remove_def result_simps)
qed (use assms in \<open>simp add: sp_deschedule_def\<close>)

lemma sp_rescheduleE:
  assumes "sp_reschedule g e w always a = Inr a'"
  obtains d l and k :: "nat \<Rightarrow> Tick \<times> int" where "sp_events a e = Some d" and "sp_tick a \<le> w"
    and "isSet Scheduled d \<and> e \<in> set (sp_order a) \<and> l = remove1 e (sp_order a) \<or> \<not> isSet Scheduled d \<and> l = sp_order a"
    and "a' = a\<lparr>sp_order := place k e l, sp_events := (sp_events a)(e \<mapsto> setFlag Scheduled (clearFlag Squashed (setWhen w (sp_self a) d)))\<rparr>"
proof (cases "sp_events a e")
  case (Some d)
  show thesis
    using assms Some that [of d "if isSet Scheduled d then remove1 e (sp_order a) else sp_order a" "kof ((sp_events a)(e \<mapsto> setWhen w (sp_self a) d))"]
    by (auto simp: sp_reschedule_def sp_on_def sp_insert_def sp_remove_def result_simps split: if_splits)
qed (use assms in \<open>simp add: sp_reschedule_def result_simps\<close>)

lemma sp_schedule_ok:
  assumes "sp_schedule g e w global a = Inr a'" and ok: "sp_ok a"
  shows "sp_ok a'"
  using assms(1)
proof (rule sp_scheduleE)
  fix d assume "sp_events a e = Some d" "\<not> isSet Scheduled d"
  then have "\<not> on_queue a e" by (simp add: on_queue_def)
  note P = sp_place_ok [OF ok this, of "setFlag Scheduled (setWhen w (sp_self a) d)"]
  assume "a' = a\<lparr>sp_order := place (kof ((sp_events a)(e \<mapsto> setWhen w (sp_self a) d))) e (sp_order a),
        sp_events := (sp_events a)(e \<mapsto> setFlag Scheduled (setWhen w (sp_self a) d))\<rparr> \<or>
      inParallelMode g \<and> a' = a\<lparr>sp_async := sp_async a @ [e],
        sp_events := (sp_events a)(e \<mapsto> setFlag Scheduled (setWhen w (sp_self a) d))\<rparr>"
  then show ?thesis using P by auto
qed

lemma sp_deschedule_ok:
  assumes "sp_deschedule g e a = Inr a'" and ok: "sp_ok a"
  shows "sp_ok a'"
  using assms(1) by (rule sp_descheduleE) (blast intro: sp_release_ok sp_take_ok [OF ok])

lemma sp_reschedule_ok:
  assumes "sp_reschedule g e w always a = Inr a'" and ok: "sp_ok a"
  shows "sp_ok a'"
  using assms(1)
proof (rule sp_rescheduleE)
  fix d :: EventData and k :: "nat \<Rightarrow> Tick \<times> int" and l
  let ?d = "setFlag Scheduled (clearFlag Squashed (setWhen w (sp_self a) d))"
  assume d: "sp_events a e = Some d" and a': "a' = a\<lparr>sp_order := place k e l, sp_events := (sp_events a)(e \<mapsto> ?d)\<rparr>"
    and "isSet Scheduled d \<and> e \<in> set (sp_order a) \<and> l = remove1 e (sp_order a) \<or> \<not> isSet Scheduled d \<and> l = sp_order a"
  then consider (in_list) "e \<in> set (sp_order a)" "l = remove1 e (sp_order a)" | (out) "\<not> isSet Scheduled d" "l = sp_order a" by blast
  then show ?thesis
  proof cases
    case in_list
    let ?b = "a\<lparr>sp_order := l, sp_events := (sp_events a)(e \<mapsto> clearFlag Scheduled d)\<rparr>"
    have "sp_ok ?b" using sp_take_ok [OF ok in_list(1)] in_list(2) by simp
    moreover have "\<not> on_queue ?b e" by (simp add: on_queue_def)
    ultimately show ?thesis using sp_place_ok(1) [of ?b e ?d k] a' by simp
  next
    case out
    have "\<not> on_queue a e" using out(1) d by (simp add: on_queue_def)
    then show ?thesis unfolding a' out(2) by (rule sp_place_ok(1) [OF ok]) simp_all
  qed
qed

lemma sp_call_ok: "sp_call g c a = Inr a' \<Longrightarrow> sp_ok a \<Longrightarrow> sp_ok a'"
  by (cases c) (auto simp: result_simps intro: sp_schedule_ok sp_deschedule_ok sp_reschedule_ok
    sp_new_ok sp_delete_ok sp_async_loop_ok elim!: sp_on_ok)

end
