(* ===== verification/EventRefine.thy ===== *)
theory EventRefine
  imports EventSpec
begin

text \<open>
  The pointer structure implements the specification of the event queue: every operation returns,
  aborts exactly where the specification does, and leaves a store whose bins flatten to the list
  of the specification. The service of events keeps the simulation for every handler.
\<close>

subsection \<open>Simulation\<close>

definition refines :: "EventQueue \<Rightarrow> QSpec \<Rightarrow> bool" where
  "refines q a \<longleftrightarrow> sp_self a = eq_self q \<and> sp_tick a = eq_curTick q \<and> sp_async a = async_queue q \<and>
    sp_events a = (\<lambda>e. map_option EventData.truncate (eq_events q e)) \<and> distinct (sp_order a) \<and>
    (\<exists>bs. bins_at (eq_events q) (eq_head q) bs \<and> sorted_bins (kof (eq_events q)) bs \<and> concat bs = sp_order a)"

definition sim :: "('q \<Rightarrow> 'a \<Rightarrow> bool) \<Rightarrow> 'q result option \<Rightarrow> 'a result \<Rightarrow> bool" where
  "sim R m r \<longleftrightarrow> (case r of Inl err \<Rightarrow> m = Some (Inl err) | Inr a \<Rightarrow> \<exists>q. m = Some (Inr q) \<and> R q a)"

lemma sim_simps [simp]:
  "sim R (Some (Inr q)) (Inr a) = R q a" "sim R (Some (Inl e)) (Inl e') \<longleftrightarrow> e = e'"
  "\<not> sim R (Some (Inl e)) (Inr a)" "\<not> sim R (Some (Inr q)) (Inl e)" "\<not> sim R None r"
  by (auto simp: sim_def split: sum.splits)

lemma sim_bind:
  assumes "sim R m r" and "\<And>q a. m = Some (Inr q) \<Longrightarrow> r = Inr a \<Longrightarrow> R q a \<Longrightarrow> sim S (f q) (g a)"
  shows "sim S (bindL m f) (bindE r g)"
proof (cases r)
  case (Inl e)
  then show ?thesis using assms(1) by (simp add: sim_def)
next
  case (Inr a)
  then obtain q where "m = Some (Inr q)" "R q a" using assms(1) by (auto simp: sim_def)
  then show ?thesis using assms(2) [of q a] Inr by simp
qed

lemma sim_checked:
  "(b \<Longrightarrow> sim R (Some r) r') \<Longrightarrow> sim R (Some (checked b e r)) (checked b e r')"
  by (cases b) simp_all

lemma sim_if:
  "(b \<Longrightarrow> sim R m r) \<Longrightarrow> (\<not> b \<Longrightarrow> sim R m' r') \<Longrightarrow> sim R (if b then m else m') (if b then r else r')"
  by simp

lemma sim_mono: "sim R m r \<Longrightarrow> (\<And>q a. r = Inr a \<Longrightarrow> R q a \<Longrightarrow> S q a) \<Longrightarrow> sim S m r"
  by (auto simp: sim_def split: sum.splits)

lemma Some_bindE: "Some (bindE r f) = bindL (Some r) (\<lambda>v. Some (f v))"
  by (cases r) simp_all

lemma truncate_ops [simp]:
  "isSet m (EventData.truncate v) = isSet m v" "initialized (EventData.truncate v) = initialized v"
  "ev_when (EventData.truncate v) = ev_when v" "ev_queue (EventData.truncate v) = ev_queue v"
  "ekey (EventData.truncate v) = ekey v"
  by (simp_all add: EventData.truncate_def isSet_def initialized_def ekey_def)

lemma truncate_flag [simp]:
  "EventData.truncate (setFlag m v) = setFlag m (EventData.truncate v)"
  "EventData.truncate (clearFlag m v) = clearFlag m (EventData.truncate v)"
  "EventData.truncate (setWhen w q v) = setWhen w q (EventData.truncate v)"
  by (simp_all add: EventData.truncate_def setFlag_def clearFlag_def setWhen_def)

lemma links_flag [simp]:
  "nextBin (setFlag m v) = nextBin v" "nextBin (clearFlag m v) = nextBin v" "nextBin (setWhen w q v) = nextBin v"
  "nextInBin (setFlag m v) = nextInBin v" "nextInBin (clearFlag m v) = nextInBin v" "nextInBin (setWhen w q v) = nextInBin v"
  by (simp_all add: setFlag_def clearFlag_def setWhen_def)

lemma refinesE:
  assumes "refines q a"
  obtains bs where "bins_at (eq_events q) (eq_head q) bs" and "sorted_bins (kof (eq_events q)) bs"
    and "concat bs = sp_order a" and "distinct (concat bs)"
    and "sp_self a = eq_self q" and "sp_tick a = eq_curTick q" and "sp_async a = async_queue q"
    and "sp_events a = (\<lambda>e. map_option EventData.truncate (eq_events q e))"
  using assms unfolding refines_def by metis

lemma deref_sim:
  assumes "refines q a"
  shows "sim (\<lambda>v d. eq_events q e = Some v \<and> d = EventData.truncate v \<and> sp_events a e = Some d)
    (Some (deref e (eq_events q))) (deref e (sp_events a))"
  using assms by (rule refinesE) (cases "eq_events q e"; simp)

text \<open>The keys of the store and of the specification agree.\<close>

lemma kof_same_data:
  assumes "same_data h h'" and "x \<in> dom h"
  shows "kof h' x = kof h x"
proof -
  obtain v where v: "h x = Some v" using assms(2) by auto
  then have "map_option EventData.truncate (h' x) = Some (EventData.truncate v)" using assms(1) by (simp add: same_data_def)
  then obtain v' where "h' x = Some v'" "EventData.truncate v' = EventData.truncate v" by auto
  then show ?thesis using v truncate_ops(5) [of v'] truncate_ops(5) [of v] by simp
qed

lemma refinesI:
  assumes R: "refines q a" and at: "bins_at h' p' bs'" and sort: "sorted_bins (kof (eq_events q)) bs'"
    and data: "same_data (eq_events q) h'" and dist: "distinct (concat bs')" and sub: "set (concat bs') \<subseteq> dom (eq_events q)"
  shows "refines (q\<lparr>eq_head := p', eq_events := h'\<rparr>) (a\<lparr>sp_order := concat bs'\<rparr>)"
proof -
  have "sorted_bins (kof h') bs'"
    by (rule sorted_bins_cong [OF sort], rule kof_same_data [OF data, symmetric]) (use sub in blast)
  moreover have "(\<lambda>e. map_option EventData.truncate (h' e)) = (\<lambda>e. map_option EventData.truncate (eq_events q e))"
    using data by (simp add: same_data_def)
  ultimately show ?thesis using R at dist by (auto simp: refines_def)
qed

subsection \<open>Operations on one event\<close>

lemma refines_upd:
  assumes R: "refines q a" and e: "eq_events q e = Some v"
    and v': "nextBin v' = nextBin v" "nextInBin v' = nextInBin v" "e \<in> set (sp_order a) \<Longrightarrow> ekey v' = ekey v"
  shows "refines (q\<lparr>eq_events := (eq_events q)(e \<mapsto> v')\<rparr>) (a\<lparr>sp_events := (sp_events a)(e \<mapsto> EventData.truncate v')\<rparr>)"
proof (rule refinesE [OF R])
  fix bs assume bs: "bins_at (eq_events q) (eq_head q) bs" "sorted_bins (kof (eq_events q)) bs" "concat bs = sp_order a" "distinct (concat bs)"
    and f: "sp_self a = eq_self q" "sp_tick a = eq_curTick q" "sp_async a = async_queue q"
      "sp_events a = (\<lambda>e. map_option EventData.truncate (eq_events q e))"
  let ?h = "(eq_events q)(e \<mapsto> v')"
  have "bins_at ?h (eq_head q) bs"
    by (rule bins_at_frame [OF bs(1)]) (use e v' in \<open>auto simp: same_links_def\<close>)
  moreover have "sorted_bins (kof ?h) bs"
    by (rule sorted_bins_cong [OF bs(2)]) (use e v'(3) bs(3) in auto)
  ultimately show ?thesis unfolding refines_def using bs(3,4) f by (auto simp: fun_eq_iff)
qed

lemma on_sim:
  assumes R: "refines q a" and "\<And>v. EventData.truncate (f v) = g (EventData.truncate v)"
    and "\<And>v. nextBin (f v) = nextBin v" and "\<And>v. nextInBin (f v) = nextInBin v"
    and "e \<in> set (sp_order a) \<Longrightarrow> (\<And>v. ekey (f v) = ekey v)"
  shows "sim refines (Some (on_event e f q)) (sp_on e g a)"
  unfolding on_event_def sp_on_def Some_bindE
proof (rule sim_bind [OF deref_sim [OF R]])
  fix v d assume "eq_events q e = Some v \<and> d = EventData.truncate v \<and> sp_events a e = Some d"
  then show "sim refines (Some (Inr (q\<lparr>eq_events := (eq_events q)(e \<mapsto> f v)\<rparr>))) (Inr (a\<lparr>sp_events := (sp_events a)(e \<mapsto> g d)\<rparr>))"
    using refines_upd [OF R, of e v "f v"] assms(2-5) by simp
qed

lemma refines_drop:
  assumes R: "refines q a" and "e \<notin> set (sp_order a)"
  shows "refines (q\<lparr>eq_events := (eq_events q)(e := None)\<rparr>) (a\<lparr>sp_events := (sp_events a)(e := None)\<rparr>)"
proof (rule refinesE [OF R])
  fix bs assume bs: "bins_at (eq_events q) (eq_head q) bs" "sorted_bins (kof (eq_events q)) bs" "concat bs = sp_order a" "distinct (concat bs)"
    and f: "sp_self a = eq_self q" "sp_tick a = eq_curTick q" "sp_async a = async_queue q"
      "sp_events a = (\<lambda>e. map_option EventData.truncate (eq_events q e))"
  let ?h = "(eq_events q)(e := None)"
  have out: "x \<noteq> e" if "x \<in> set (concat bs)" for x using that assms(2) bs(3) by auto
  have "bins_at ?h (eq_head q) bs"
    by (rule bins_at_frame [OF bs(1)]) (use out in \<open>auto simp: same_links_def\<close>)
  moreover have "sorted_bins (kof ?h) bs"
    by (rule sorted_bins_cong [OF bs(2)]) (use out in auto)
  ultimately show ?thesis unfolding refines_def using bs(3,4) f by (auto simp: fun_eq_iff)
qed

lemma delete_sim:
  assumes R: "refines q a" and ok: "sp_ok a"
  shows "sim refines (Some (delete_event e q)) (sp_delete e a)"
  unfolding delete_event_def sp_delete_def Some_bindE
proof (rule sim_bind [OF deref_sim [OF R]])
  fix v d assume d: "eq_events q e = Some v \<and> d = EventData.truncate v \<and> sp_events a e = Some d"
  have "e \<notin> set (sp_order a)" if "\<not> isSet Scheduled v" using sp_okD [OF ok, of e] that d by (auto simp: on_queue_def)
  then show "sim refines (Some (checked (\<not> isSet Scheduled v) AssertFailed (Inr (q\<lparr>eq_events := (eq_events q)(e := None)\<rparr>))))
      (checked (\<not> isSet Scheduled d) AssertFailed (Inr (a\<lparr>sp_events := (sp_events a)(e := None)\<rparr>)))"
    using d refines_drop [OF R] by (cases "isSet Scheduled v") auto
qed

lemma release_sim:
  assumes R: "refines q a" and ok: "sp_ok a"
  shows "sim refines (Some (release e q)) (sp_release e a)"
  unfolding release_def sp_release_def Some_bindE
proof (rule sim_bind [OF deref_sim [OF R]])
  fix v d assume d: "eq_events q e = Some v \<and> d = EventData.truncate v \<and> sp_events a e = Some d"
  then show "sim refines (Some (if isSet Managed v \<and> \<not> isSet Scheduled v then delete_event e q else Inr q))
      (if isSet Managed d \<and> \<not> isSet Scheduled d then sp_delete e a else Inr a)"
    using delete_sim [OF R ok, of e] R by simp
qed

lemma new_sim:
  assumes R: "refines q a"
  shows "sim refines (Some (new_event e p f q)) (sp_new e p f a)"
proof (cases "eq_events q e = None \<and> (f AND NOT PublicWrite) = 0")
  case True
  let ?v = "\<lparr>ev_when = 0, ev_priority = p, ev_flags = Initialized OR f, ev_queue = None, nextBin = None, nextInBin = None\<rparr> :: Event"
  obtain bs where bs: "bins_at (eq_events q) (eq_head q) bs" "sorted_bins (kof (eq_events q)) bs" "concat bs = sp_order a"
    and ev: "sp_events a = (\<lambda>e. map_option EventData.truncate (eq_events q e))" using R by (rule refinesE)
  have out: "x \<noteq> e" if "x \<in> set (concat bs)" for x using bins_at_dom [OF bs(1) that] True by auto
  have "bins_at ((eq_events q)(e \<mapsto> ?v)) (eq_head q) bs"
    by (rule bins_at_frame [OF bs(1)]) (use out in \<open>auto simp: same_links_def\<close>)
  moreover have "sorted_bins (kof ((eq_events q)(e \<mapsto> ?v))) bs"
    by (rule sorted_bins_cong [OF bs(2)]) (use out in auto)
  ultimately have "refines (q\<lparr>eq_events := (eq_events q)(e \<mapsto> ?v)\<rparr>) (a\<lparr>sp_events := (sp_events a)(e \<mapsto> EventData.truncate ?v)\<rparr>)"
    using R bs(3) ev by (auto simp: refines_def fun_eq_iff)
  then show ?thesis using True ev by (simp add: new_event_def sp_new_def Event_new_def EventData.truncate_def)
next
  case False
  then show ?thesis using R by (auto simp: refines_def new_event_def sp_new_def Event_new_def checked_def)
qed

subsection \<open>Insertion and removal\<close>

lemma place_cong: "(\<And>x. x \<in> insert e (set xs) \<Longrightarrow> k x = k' x) \<Longrightarrow> place k e xs = place k' e xs"
  unfolding place_def by (intro arg_cong2 [where f = append] arg_cong2 [where f = Cons] takeWhile_cong dropWhile_cong) auto

lemma insert_sim:
  assumes R: "refines q a" and out: "e \<notin> set (sp_order a)"
  shows "sim refines (eq_insert e q) (sp_insert e a)"
proof -
  obtain bs where bs: "bins_at (eq_events q) (eq_head q) bs" "sorted_bins (kof (eq_events q)) bs" "concat bs = sp_order a" "distinct (concat bs)"
    and ev: "sp_events a = (\<lambda>e. map_option EventData.truncate (eq_events q e))" using R by (rule refinesE)
  show ?thesis
  proof (cases "eq_events q e")
    case None
    then show ?thesis using ev by (simp add: eq_insert_def sp_insert_def)
  next
    case (Some v)
    have dom: "x \<in> dom (eq_events q)" if "x \<in> insert e (set (concat bs))" for x
      using that bins_at_dom [OF bs(1)] Some by auto
    have k: "kof (sp_events a) x = kof (eq_events q) x" if "x \<in> insert e (set (concat bs))" for x
      using dom [OF that] ev by auto
    have e: "e \<notin> set (concat bs)" using out bs(3) by simp
    obtain p' h' where r: "eq_insert e q = Some (Inr (q\<lparr>eq_head := p', eq_events := h'\<rparr>))"
      "bins_at h' p' (bins_insert (kof (eq_events q)) e bs)" "same_data (eq_events q) h'"
      using eq_insert_bins [OF bs(1,4) Some e] by blast
    have c: "concat (bins_insert (kof (eq_events q)) e bs) = place (kof (eq_events q)) e (concat bs)"
      by (rule concat_bins_insert [OF bs(2)])
    also have "\<dots> = place (kof (sp_events a)) e (sp_order a)" unfolding bs(3) [symmetric] by (rule place_cong) (rule k [symmetric])
    finally have p: "concat (bins_insert (kof (eq_events q)) e bs) = place (kof (sp_events a)) e (sp_order a)" .
    have "refines (q\<lparr>eq_head := p', eq_events := h'\<rparr>) (a\<lparr>sp_order := concat (bins_insert (kof (eq_events q)) e bs)\<rparr>)"
      by (rule refinesI [OF R r(2) sorted_bins_insert [OF bs(2)] r(3)]) (use bs(4) e dom in \<open>auto simp: c\<close>)
    then show ?thesis using r(1) Some ev unfolding p by (simp add: sp_insert_def)
  qed
qed

lemma remove_sim:
  assumes R: "refines q a"
  shows "sim refines (eq_remove e q) (sp_remove e a)"
proof -
  obtain bs where bs: "bins_at (eq_events q) (eq_head q) bs" "sorted_bins (kof (eq_events q)) bs" "concat bs = sp_order a" "distinct (concat bs)"
    and ev: "sp_events a = (\<lambda>e. map_option EventData.truncate (eq_events q e))" "sp_self a = eq_self q" using R by (rule refinesE)
  have nil: "sp_order a = [] \<longleftrightarrow> bs = []" using bs(1,3) by (cases bs) (auto simp: bins_at_Cons)
  show ?thesis
  proof (cases "eq_events q e")
    case None
    then show ?thesis using ev nil bs(1) by (cases bs) (auto simp: eq_remove_def sp_remove_def bins_at_Cons)
  next
    case (Some v)
    consider "e \<notin> set (concat bs)" | "e \<in> set (concat bs)" "ev_queue v = Some (eq_self q)"
      | "e \<in> set (concat bs)" "ev_queue v \<noteq> Some (eq_self q)" by blast
    then show ?thesis
    proof cases
      case 1
      then show ?thesis using eq_remove_missing [OF bs(1) Some 1] Some ev nil bs(3)
        by (auto simp: sp_remove_def checked_def)
    next
      case 2
      obtain p' h' where r: "eq_remove e q = Some (Inr (q\<lparr>eq_head := p', eq_events := h'\<rparr>))"
        "bins_at h' p' (bins_remove e bs)" "same_data (eq_events q) h'"
        using eq_remove_bins [OF bs(1,2,4) Some 2(2,1)] by blast
      have "set (concat (bins_remove e bs)) \<subseteq> dom (eq_events q)"
        using bins_at_dom [OF bs(1)] set_remove1_subset [of e "concat bs"] unfolding concat_bins_remove by blast
      then have "refines (q\<lparr>eq_head := p', eq_events := h'\<rparr>) (a\<lparr>sp_order := concat (bins_remove e bs)\<rparr>)"
        using bs(4) by (intro refinesI [OF R r(2) sorted_bins_remove [OF bs(2)] r(3)]) (simp_all add: concat_bins_remove)
      then show ?thesis using r(1) Some ev 2 bs(3) by (auto simp: sp_remove_def concat_bins_remove checked_def)
    next
      case 3
      obtain b ds where b: "bs = b # ds" using 3(1) by (cases bs) auto
      obtain hd_p where "eq_head q = Some hd_p" using bs(1) b by (auto simp: bins_at_Cons)
      then show ?thesis using 3 Some ev bs(3) nil b by (auto simp: eq_remove_def sp_remove_def)
    qed
  qed
qed

subsection \<open>Calls\<close>

lemma on_event_acquire: "bindE (on_event e f q) (acquire e) = on_event e f q"
  by (cases "eq_events q e") (simp_all add: on_event_def acquire_def)

lemma on_event_twice: "bindE (on_event e f q) (\<lambda>q1. bindE (on_event e g q1) k) = bindE (on_event e (g \<circ> f) q) k"
  by (cases "eq_events q e") (simp_all add: on_event_def)

lemma on_event_twice': "bindE (on_event e f q) (on_event e g) = on_event e (g \<circ> f) q"
  by (cases "eq_events q e") (simp_all add: on_event_def)

lemma sp_onE:
  assumes "sp_on e f a = Inr a'"
  obtains d where "sp_events a e = Some d" and "a' = a\<lparr>sp_events := (sp_events a)(e \<mapsto> f d)\<rparr>"
  using assms by (cases "sp_events a e") (auto simp: sp_on_def)

lemma schedule_sim:
  assumes R: "refines q a" and ok: "sp_ok a"
  shows "sim refines (schedule g e w global q) (sp_schedule g e w global a)"
proof (cases "eq_curTick q \<le> w \<and> (\<exists>v. eq_events q e = Some v \<and> \<not> isSet Scheduled v \<and> initialized v)")
  case True
  then obtain v where v: "eq_curTick q \<le> w" "eq_events q e = Some v" "\<not> isSet Scheduled v" "initialized v" by blast
  have f: "sp_self a = eq_self q" "sp_tick a = eq_curTick q" "sp_events a e = Some (EventData.truncate v)"
    using R v(2) by (auto simp: refines_def)
  have out: "e \<notin> set (sp_order a)" using sp_okD [OF ok, of e] f v(3) by (auto simp: on_queue_def)
  let ?c = "inParallelMode g \<and> (Some (eq_self q) \<noteq> curEventQueue g \<or> global)"
  have "sim refines (bindL (Some (on_event e (setWhen w (eq_self q)) q)) (\<lambda>q1.
      bindL (if ?c then Some (Inr (asyncInsert e q1)) else eq_insert e q1) (\<lambda>q2. Some (on_event e (setFlag Scheduled) q2))))
    (bindE (sp_on e (setWhen w (eq_self q)) a) (\<lambda>a1.
      bindE (if ?c then Inr (a1\<lparr>sp_async := sp_async a1 @ [e]\<rparr>) else sp_insert e a1) (sp_on e (setFlag Scheduled))))"
  proof (intro sim_bind)
    show "sim refines (Some (on_event e (setWhen w (eq_self q)) q)) (sp_on e (setWhen w (eq_self q)) a)"
      by (rule on_sim [OF R]) (use out in simp_all)
  next
    fix q1 a1 assume a1: "sp_on e (setWhen w (eq_self q)) a = Inr a1" "refines q1 a1"
    then have "e \<notin> set (sp_order a1)" using out by (elim sp_onE) simp
    then have "sim refines (eq_insert e q1) (sp_insert e a1)" by (rule insert_sim [OF a1(2)])
    moreover have "refines (asyncInsert e q1) (a1\<lparr>sp_async := sp_async a1 @ [e]\<rparr>)"
      using a1(2) by (simp add: refines_def asyncInsert_def)
    ultimately show "sim refines (if ?c then Some (Inr (asyncInsert e q1)) else eq_insert e q1)
        (if ?c then Inr (a1\<lparr>sp_async := sp_async a1 @ [e]\<rparr>) else sp_insert e a1)" by (intro sim_if) simp_all
  next
    fix q2 a2 assume "refines q2 a2"
    then show "sim refines (Some (on_event e (setFlag Scheduled) q2)) (sp_on e (setFlag Scheduled) a2)"
      by (rule on_sim) simp_all
  qed
  then show ?thesis using v f by (simp add: schedule_def sp_schedule_def on_event_acquire)
next
  case False
  then show ?thesis using R by (cases "eq_events q e") (auto simp: refines_def schedule_def sp_schedule_def checked_def)
qed

lemma deschedule_sim:
  assumes R: "refines q a" and ok: "sp_ok a"
  shows "sim refines (deschedule g e q) (sp_deschedule g e a)"
proof (cases "\<exists>v. eq_events q e = Some v \<and> isSet Scheduled v \<and> initialized v \<and> (inParallelMode g \<longrightarrow> Some (eq_self q) = curEventQueue g)")
  case True
  then obtain v where v: "eq_events q e = Some v" "isSet Scheduled v" "initialized v" "inParallelMode g \<longrightarrow> Some (eq_self q) = curEventQueue g" by blast
  have f: "sp_self a = eq_self q" "sp_events a e = Some (EventData.truncate v)" using R v(1) by (auto simp: refines_def)
  have "sim refines (bindL (eq_remove e q) (\<lambda>q1. bindL (Some (on_event e (clearFlag Scheduled \<circ> clearFlag Squashed) q1)) (\<lambda>q2. Some (release e q2))))
    (bindE (sp_remove e a) (\<lambda>a1. bindE (sp_on e (clearFlag Scheduled \<circ> clearFlag Squashed) a1) (sp_release e)))"
  proof (intro sim_bind)
    show "sim refines (eq_remove e q) (sp_remove e a)" by (rule remove_sim [OF R])
  next
    fix q1 a1 assume "refines q1 a1"
    then show "sim refines (Some (on_event e (clearFlag Scheduled \<circ> clearFlag Squashed) q1)) (sp_on e (clearFlag Scheduled \<circ> clearFlag Squashed) a1)"
      by (rule on_sim) simp_all
  next
    fix q1 a1 q2 a2 assume a: "sp_remove e a = Inr a1" "sp_on e (clearFlag Scheduled \<circ> clearFlag Squashed) a1 = Inr a2" "refines q2 a2"
    have e: "e \<in> set (sp_order a)" and a1: "a1 = a\<lparr>sp_order := remove1 e (sp_order a)\<rparr>"
      using a(1) f by (auto simp: sp_remove_def result_simps)
    have "sp_ok a2" using a(2) sp_take_ok [OF ok e] by (elim sp_onE) (simp add: a1)
    then show "sim refines (Some (release e q2)) (sp_release e a2)" by (rule release_sim [OF a(3)])
  qed
  then show ?thesis using v f by (simp add: deschedule_def sp_deschedule_def on_event_twice Some_bindE checked_def)
next
  case False
  then show ?thesis using R by (cases "eq_events q e") (auto simp: refines_def deschedule_def sp_deschedule_def checked_def)
qed

lemma reschedule_sim:
  assumes R: "refines q a" and ok: "sp_ok a"
  shows "sim refines (reschedule g e w always q) (sp_reschedule g e w always a)"
proof (cases "eq_curTick q \<le> w \<and> (\<exists>v. eq_events q e = Some v \<and> (always \<or> isSet Scheduled v) \<and> initialized v \<and>
    (inParallelMode g \<longrightarrow> Some (eq_self q) = curEventQueue g))")
  case True
  then obtain v where v: "eq_curTick q \<le> w" "eq_events q e = Some v" "always \<or> isSet Scheduled v" "initialized v"
    "inParallelMode g \<longrightarrow> Some (eq_self q) = curEventQueue g" by blast
  have f: "sp_self a = eq_self q" "sp_tick a = eq_curTick q" "sp_events a e = Some (EventData.truncate v)" "distinct (sp_order a)"
    using R v(2) by (auto simp: refines_def)
  let ?c = "isSet Scheduled v"
  let ?f = "setWhen w (eq_self q)" and ?g = "setFlag Scheduled \<circ> clearFlag Squashed"
  have "sim refines (bindL (if ?c then eq_remove e q else Some (Inr q)) (\<lambda>q1. bindL (Some (on_event e ?f q1)) (\<lambda>q2.
      bindL (eq_insert e q2) (\<lambda>q3. Some (on_event e (setFlag Scheduled \<circ> clearFlag Squashed) q3)))))
    (bindE (if ?c then sp_remove e a else Inr a) (\<lambda>a1. bindE (sp_on e ?f a1) (\<lambda>a2. bindE (sp_insert e a2) (sp_on e ?g))))"
  proof (intro sim_bind)
    show "sim refines (if ?c then eq_remove e q else Some (Inr q)) (if ?c then sp_remove e a else Inr a)"
      using R remove_sim [OF R] by simp
  next
    fix q1 a1 assume a1: "(if ?c then sp_remove e a else Inr a) = Inr a1" and R1: "refines q1 a1"
    have out: "e \<notin> set (sp_order a1)"
    proof (cases ?c)
      case True
      then show ?thesis using a1 f(4) by (auto simp: sp_remove_def result_simps)
    next
      case False
      then show ?thesis using a1 sp_okD [OF ok, of e] f(3) by (auto simp: on_queue_def)
    qed
    show "sim refines (Some (on_event e ?f q1)) (sp_on e ?f a1)"
      by (rule on_sim [OF R1]) (use out in simp_all)
    show "sim refines (eq_insert e q2) (sp_insert e a2)" if "sp_on e ?f a1 = Inr a2" "refines q2 a2" for q2 a2
      using that out by (elim sp_onE) (simp add: insert_sim)
  next
    fix q3 a3 assume "refines q3 a3"
    then show "sim refines (Some (on_event e (setFlag Scheduled \<circ> clearFlag Squashed) q3)) (sp_on e ?g a3)"
      by (rule on_sim) simp_all
  qed
  then show ?thesis using v f by (auto simp: reschedule_def sp_reschedule_def on_event_twice' checked_def acquire_def)
next
  case False
  then show ?thesis using R by (cases "eq_events q e") (auto simp: refines_def reschedule_def sp_reschedule_def checked_def)
qed

lemma async_sim:
  assumes "refines q a" and "sp_ok a" and "sp_async a = es"
  shows "sim refines (async_loop es q) (sp_async_loop es a)"
  using assms
proof (induction es arbitrary: q a)
  case (Cons e es)
  have out: "e \<notin> set (sp_order a)" using Cons.prems(2,3) by (simp add: sp_ok_def)
  show ?case unfolding async_loop.simps sp_async_loop.simps
  proof (rule sim_bind [OF insert_sim [OF Cons.prems(1) out]])
    fix q1 a1 assume a1: "sp_insert e a = Inr a1" and R1: "refines q1 a1"
    have "a1 = a\<lparr>sp_order := place (kof (sp_events a)) e (sp_order a)\<rparr>" using a1 by (auto simp: sp_insert_def result_simps)
    then have "sp_ok (a1\<lparr>sp_async := es\<rparr>)" using sp_async_ok [OF Cons.prems(2,3)] by simp
    moreover have "refines (q1\<lparr>async_queue := es\<rparr>) (a1\<lparr>sp_async := es\<rparr>)" using R1 by (simp add: refines_def)
    ultimately show "sim refines (async_loop es (q1\<lparr>async_queue := es\<rparr>)) (sp_async_loop es (a1\<lparr>sp_async := es\<rparr>))"
      by (intro Cons.IH) simp_all
  qed
qed simp

lemma call_sim:
  assumes R: "refines q a" and ok: "sp_ok a"
  shows "sim (\<lambda>q a. refines q a \<and> sp_ok a) (do_call g c q) (sp_call g c a)"
proof (rule sim_mono)
  show "sim refines (do_call g c q) (sp_call g c a)"
  proof (cases c)
    case HandleAsyncInsertions
    then show ?thesis using R async_sim [OF R ok] by (auto simp: handleAsyncInsertions_def refines_def)
  qed (auto intro!: schedule_sim deschedule_sim reschedule_sim new_sim delete_sim sim_checked on_sim R ok
    simp: squash_event_def setFlags_def clearFlags_def clearPublicFlags_def)
qed (use sp_call_ok ok in blast)

lemma calls_sim:
  assumes "refines q a" and "sp_ok a"
  shows "sim (\<lambda>q a. refines q a \<and> sp_ok a) (do_calls g cs q) (foldE (sp_call g) cs a)"
  using assms
proof (induction cs arbitrary: q a)
  case (Cons c cs)
  show ?case unfolding do_calls.simps foldE.simps
    by (rule sim_bind [OF call_sim [OF Cons.prems]]) (simp add: Cons.IH)
qed simp

end
