(* ===== verification/EventService.thy ===== *)
theory EventService
  imports EventRefine
begin

text \<open>
  Service of events: the simulation of the specification by runs of the queue, the order in which
  events are served, and the time of the queue.
\<close>

subsection \<open>Service simulates its specification\<close>

lemma refines_head:
  assumes "refines q a"
  shows "eq_head q = first (sp_order a)"
  using assms
proof (rule refinesE)
  fix bs assume "bins_at (eq_events q) (eq_head q) bs" "concat bs = sp_order a"
  then show ?thesis by (cases bs) (auto simp: bins_at_Cons first_def append_eq_Cons_conv split: list.splits)
qed

lemma refines_view: "refines q a \<Longrightarrow> eq_view q = sp_view a"
  using refines_head [of q a] by (simp add: eq_view_def sp_view_def refines_def)

lemma refines_tick: "refines q a \<Longrightarrow> refines (q\<lparr>eq_curTick := t\<rparr>) (a\<lparr>sp_tick := t\<rparr>)"
  by (simp add: refines_def)

lemma pop_sim:
  assumes R: "refines q a" and o: "sp_order a = p # ps" and v: "eq_events q p = Some v"
  obtains q1 where "pop_head p v q = Inr q1"
    and "refines q1 (a\<lparr>sp_order := ps, sp_events := (sp_events a)(p \<mapsto> clearFlag Scheduled (EventData.truncate v))\<rparr>)"
proof -
  obtain bs where bs: "bins_at (eq_events q) (eq_head q) bs" "sorted_bins (kof (eq_events q)) bs" "concat bs = sp_order a" "distinct (concat bs)"
    using R by (rule refinesE)
  obtain es ds where ds: "bs = (p # es) # ds" using bs(1,3) o
    by (cases bs) (auto simp: bins_at_Cons append_eq_Cons_conv)
  have c: "bins_remove p bs = drop_item p (p # es) ds" by (simp add: ds drop_item_def)
  let ?h = "(eq_events q)(p \<mapsto> clearFlag Scheduled v)"
  obtain p' h' where r: "pop_head p v q = Inr (q\<lparr>eq_head := p', eq_events := h'\<rparr>)"
    "bins_at h' p' (bins_remove p bs)" "same_data ?h h'"
    using pop_head_bins [OF bs(1,4) [unfolded ds] v] c by metis
  let ?q = "q\<lparr>eq_events := ?h\<rparr>" and ?a = "a\<lparr>sp_events := (sp_events a)(p \<mapsto> EventData.truncate (clearFlag Scheduled v))\<rparr>"
  have R': "refines ?q ?a" by (rule refines_upd [OF R v]) simp_all
  have s: "sorted_bins (kof (eq_events ?q)) (bins_remove p bs)"
    by (rule sorted_bins_cong [OF sorted_bins_remove [OF bs(2)]]) (simp add: v)
  have "set (concat (bins_remove p bs)) \<subseteq> dom ?h"
    using bins_at_dom [OF bs(1)] set_remove1_subset [of p "concat bs"] unfolding concat_bins_remove by auto
  then have "refines (?q\<lparr>eq_head := p', eq_events := h'\<rparr>) (?a\<lparr>sp_order := concat (bins_remove p bs)\<rparr>)"
    using bs(4) r(3) by (intro refinesI [OF R' r(2) s]) (simp_all add: concat_bins_remove)
  moreover have "?a\<lparr>sp_order := concat (bins_remove p bs)\<rparr> =
      a\<lparr>sp_order := ps, sp_events := (sp_events a)(p \<mapsto> clearFlag Scheduled (EventData.truncate v))\<rparr>"
    using bs(3) o by (intro QSpec.equality) (simp_all add: concat_bins_remove)
  ultimately show thesis using that [of "q\<lparr>eq_head := p', eq_events := h'\<rparr>"] r(1) by simp
qed

definition served :: "nat option \<times> 'w \<times> EventQueue \<Rightarrow> nat option \<times> 'w \<times> QSpec \<Rightarrow> bool" where
  "served x y \<longleftrightarrow> fst x = fst y \<and> fst (snd x) = fst (snd y) \<and> refines (snd (snd x)) (snd (snd y)) \<and> sp_ok (snd (snd y))"

lemma release_served:
  assumes "refines q a" and "sp_ok a"
  shows "sim served (Some (bindE (release p q) (\<lambda>q'. Inr (r, w, q')))) (bindE (sp_release p a) (\<lambda>a'. Inr (r, w, a')))"
  unfolding Some_bindE
  by (rule sim_bind [OF release_sim [OF assms]]) (simp add: served_def sp_release_ok [OF _ assms(2)])

lemma service_sim:
  assumes R: "refines q a" and ok: "sp_ok a"
  shows "sim served (serviceOne g process w q) (sp_service g process w a)"
proof (cases "sp_order a")
  case Nil
  then show ?thesis using refines_head [OF R] by (simp add: serviceOne_def sp_service_def)
next
  case (Cons p ps)
  have hp: "eq_head q = Some p" using refines_head [OF R] Cons by simp
  obtain d where d0: "sp_events a p = Some d" using sp_okD [OF ok, of p] Cons by (auto simp: on_queue_def)
  then obtain v where v: "eq_events q p = Some v" and d: "sp_events a p = Some (EventData.truncate v)"
    using R by (auto simp: refines_def)
  let ?a1 = "a\<lparr>sp_order := ps, sp_events := (sp_events a)(p \<mapsto> clearFlag Scheduled (EventData.truncate v))\<rparr>"
  obtain q1 where q1: "pop_head p v q = Inr q1" "refines q1 ?a1" using pop_sim [OF R Cons v] by blast
  have ok1: "sp_ok ?a1" using sp_take_ok [OF ok, of p] Cons by simp
  show ?thesis
  proof (cases "isSet Squashed v")
    case True
    have "sim served (bindL (Some (on_event p (clearFlag Squashed) q1)) (\<lambda>q2. Some (bindE (release p q2) (\<lambda>q3. Inr (None, w, q3)))))
        (bindE (sp_on p (clearFlag Squashed) ?a1) (\<lambda>a2. bindE (sp_release p a2) (\<lambda>a3. Inr (None, w, a3))))"
    proof (rule sim_bind)
      show "sim refines (Some (on_event p (clearFlag Squashed) q1)) (sp_on p (clearFlag Squashed) ?a1)"
        by (rule on_sim [OF q1(2)]) simp_all
    qed (rule release_served, use sp_on_ok [OF _ ok1] in auto)
    then show ?thesis using hp v d q1(1) True Cons by (simp add: serviceOne_def sp_service_def Some_bindE [of "on_event _ _ _"])
  next
    case False
    let ?q2 = "q1\<lparr>eq_curTick := ev_when v\<rparr>" and ?a2 = "?a1\<lparr>sp_tick := ev_when v\<rparr>"
    have R2: "refines ?q2 ?a2" by (rule refines_tick [OF q1(2)])
    have ok2: "sp_ok ?a2" using ok1 by (simp add: sp_ok_def)
    obtain calls w' where c: "process p w (sp_view ?a2) = (calls, w')" by (cases "process p w (sp_view ?a2)") blast
    have "sim served (bindL (do_calls g calls ?q2) (\<lambda>q3. bindL (Some (deref p (eq_events q3))) (\<lambda>v3.
          if isSet IsExitEvent v3 then Some (checked (\<not> isSet Managed v3 \<or> \<not> isSet IsMainQueue v3) AssertFailed (Inr (Some p, w', q3)))
          else Some (bindE (release p q3) (\<lambda>q4. Inr (None, w', q4))))))
        (bindE (foldE (sp_call g) calls ?a2) (\<lambda>a3. bindE (deref p (sp_events a3)) (\<lambda>d3.
          if isSet IsExitEvent d3 then checked (\<not> isSet Managed d3 \<or> \<not> isSet IsMainQueue d3) AssertFailed (Inr (Some p, w', a3))
          else bindE (sp_release p a3) (\<lambda>a4. Inr (None, w', a4)))))"
    proof (intro sim_bind [OF calls_sim [OF R2 ok2]] sim_bind [OF deref_sim])
      fix q3 a3 v3 d3 assume R3: "refines q3 a3 \<and> sp_ok a3"
        and v3: "eq_events q3 p = Some v3 \<and> d3 = EventData.truncate v3 \<and> sp_events a3 p = Some d3"
      then show "sim served (if isSet IsExitEvent v3 then Some (checked (\<not> isSet Managed v3 \<or> \<not> isSet IsMainQueue v3) AssertFailed (Inr (Some p, w', q3)))
          else Some (bindE (release p q3) (\<lambda>q4. Inr (None, w', q4))))
        (if isSet IsExitEvent d3 then checked (\<not> isSet Managed d3 \<or> \<not> isSet IsMainQueue d3) AssertFailed (Inr (Some p, w', a3))
          else bindE (sp_release p a3) (\<lambda>a4. Inr (None, w', a4)))"
        using release_served [of q3 a3] by (auto simp: checked_def served_def)
    qed blast
    then show ?thesis using hp v d q1(1) False Cons c refines_view [OF R2] by (simp add: serviceOne_def sp_service_def)
  qed
qed

subsection \<open>Runs\<close>

text \<open>A run interleaves calls from outside, such as those at start-up, with the service of events.\<close>

datatype Action = Call QCall | ServiceOne

primrec eq_action :: "Globals \<Rightarrow> 'w handler \<Rightarrow> Action \<Rightarrow> 'w \<times> EventQueue \<Rightarrow> ('w \<times> EventQueue) result option" where
  "eq_action g process (Call c) s = bindL (do_call g c (snd s)) (\<lambda>q. Some (Inr (fst s, q)))"
| "eq_action g process ServiceOne s = bindL (serviceOne g process (fst s) (snd s)) (\<lambda>(r, w, q). Some (Inr (w, q)))"

primrec eq_run :: "Globals \<Rightarrow> 'w handler \<Rightarrow> Action list \<Rightarrow> 'w \<times> EventQueue \<Rightarrow> ('w \<times> EventQueue) result option" where
  "eq_run g process [] s = Some (Inr s)"
| "eq_run g process (x # xs) s = bindL (eq_action g process x s) (eq_run g process xs)"

primrec sp_action :: "Globals \<Rightarrow> 'w handler \<Rightarrow> Action \<Rightarrow> 'w \<times> QSpec \<Rightarrow> ('w \<times> QSpec) result" where
  "sp_action g process (Call c) s = bindE (sp_call g c (snd s)) (\<lambda>a. Inr (fst s, a))"
| "sp_action g process ServiceOne s = bindE (sp_service g process (fst s) (snd s)) (\<lambda>(r, w, a). Inr (w, a))"

definition run_rel :: "'w \<times> EventQueue \<Rightarrow> 'w \<times> QSpec \<Rightarrow> bool" where
  "run_rel s t \<longleftrightarrow> fst s = fst t \<and> refines (snd s) (snd t) \<and> sp_ok (snd t)"

lemma action_sim:
  assumes "run_rel s t"
  shows "sim run_rel (eq_action g process x s) (sp_action g process x t)"
proof (cases x)
  case (Call c)
  have st: "refines (snd s) (snd t)" "sp_ok (snd t)" "fst s = fst t" using assms by (simp_all add: run_rel_def)
  show ?thesis unfolding Call eq_action.simps sp_action.simps
    by (rule sim_bind [OF call_sim [OF st(1,2)]]) (simp add: run_rel_def st(3))
next
  case ServiceOne
  have st: "refines (snd s) (snd t)" "sp_ok (snd t)" "fst s = fst t" using assms by (simp_all add: run_rel_def)
  show ?thesis unfolding ServiceOne eq_action.simps sp_action.simps st(3)
    by (rule sim_bind [OF service_sim [OF st(1,2)]]) (auto simp: run_rel_def served_def)
qed

lemma run_sim:
  "run_rel s t \<Longrightarrow> sim run_rel (eq_run g process xs s) (foldE (sp_action g process) xs t)"
proof (induction xs arbitrary: s t)
  case (Cons x xs)
  show ?case unfolding eq_run.simps foldE.simps
    by (rule sim_bind [OF action_sim [OF Cons.prems]]) (rule Cons.IH)
qed simp

lemma run_rel_new: "run_rel (w, EventQueue_new self) (w, QSpec_new self)"
proof -
  have "refines (EventQueue_new self) (QSpec_new self)"
    unfolding refines_def EventQueue_new_def QSpec_new_def by (auto intro: exI [of _ "[]"])
  then show ?thesis by (simp add: run_rel_def)
qed

text \<open>
  C3. For every handler, every run of calls and services on a new event queue returns, aborts exactly
  when the run of the specification aborts and with the same error, and otherwise leaves a store
  whose bins, read in the order of the links, are the sorted list of the specification.
\<close>

theorem event_queue_refines_list:
  "case foldE (sp_action g process) acts (w, QSpec_new self) of
     Inl err \<Rightarrow> eq_run g process acts (w, EventQueue_new self) = Some (Inl err)
   | Inr (w', a) \<Rightarrow> \<exists>q. eq_run g process acts (w, EventQueue_new self) = Some (Inr (w', q)) \<and> refines q a"
  using run_sim [OF run_rel_new [of w self], of g process acts]
  by (auto simp: sim_def run_rel_def split: sum.splits)

subsection \<open>Time\<close>

text \<open>Without parallel simulation no event is listed with a time before the current one.\<close>

definition sp_time :: "QSpec \<Rightarrow> bool" where
  "sp_time a \<longleftrightarrow> sp_async a = [] \<and> (\<forall>e d. e \<in> set (sp_order a) \<and> sp_events a e = Some d \<longrightarrow> sp_tick a \<le> ev_when d)"

lemma sp_time_upd:
  assumes "sp_time a" and "set l \<subseteq> insert e (set (sp_order a))"
    and "e \<in> set l \<Longrightarrow> (\<And>d. v = Some d \<Longrightarrow> sp_tick a \<le> ev_when d)"
  shows "sp_time (a\<lparr>sp_order := l, sp_events := (sp_events a)(e := v)\<rparr>)"
  using assms by (auto simp: sp_time_def)

lemma sp_on_time:
  "sp_on e f a = Inr a' \<Longrightarrow> sp_time a \<Longrightarrow> (\<And>d. ev_when (f d) = ev_when d) \<Longrightarrow> sp_time a' \<and> sp_tick a' = sp_tick a"
  by (erule sp_onE) (auto simp: sp_time_def)

lemma sp_delete_time: "sp_delete e a = Inr a' \<Longrightarrow> sp_time a \<Longrightarrow> sp_time a' \<and> sp_tick a' = sp_tick a"
  by (auto simp: sp_delete_def sp_time_def result_simps split: if_splits)

lemma sp_release_time: "sp_release e a = Inr a' \<Longrightarrow> sp_time a \<Longrightarrow> sp_time a' \<and> sp_tick a' = sp_tick a"
  by (cases "sp_events a e") (auto simp: sp_release_def sp_delete_time split: if_splits)

lemma sp_new_time: "sp_new e p f a = Inr a' \<Longrightarrow> sp_ok a \<Longrightarrow> sp_time a \<Longrightarrow> sp_time a' \<and> sp_tick a' = sp_tick a"
  using sp_okD [of a e] by (auto simp: sp_new_def sp_time_def result_simps on_queue_def split: if_splits)

lemma sp_schedule_time:
  assumes "sp_schedule g e w global a = Inr a'" and "sp_time a" and "\<not> inParallelMode g"
  shows "sp_time a' \<and> sp_tick a' = sp_tick a"
  using assms(1) by (rule sp_scheduleE) (use assms(2,3) in \<open>auto intro!: sp_time_upd\<close>)

lemma sp_deschedule_time:
  assumes "sp_deschedule g e a = Inr a'" and "sp_time a" and "sp_ok a"
  shows "sp_time a' \<and> sp_tick a' = sp_tick a"
  using assms(1)
proof (rule sp_descheduleE)
  fix d :: EventData
  let ?b = "a\<lparr>sp_order := remove1 e (sp_order a), sp_events := (sp_events a)(e \<mapsto> d)\<rparr>"
  assume r: "sp_release e ?b = Inr a'"
  have "distinct (sp_order a)" using assms(3) by (simp add: sp_ok_def)
  then have "sp_time ?b" by (intro sp_time_upd [OF assms(2)]) auto
  from sp_release_time [OF r this] show ?thesis by simp
qed

lemma sp_reschedule_time:
  assumes "sp_reschedule g e w always a = Inr a'" and "sp_time a"
  shows "sp_time a' \<and> sp_tick a' = sp_tick a"
  using assms(1) by (rule sp_rescheduleE) (use assms(2) set_remove1_subset [of e "sp_order a"] in \<open>auto intro!: sp_time_upd\<close>)

lemma sp_call_time:
  assumes "sp_call g c a = Inr a'" and "sp_time a" and "sp_ok a" and "\<not> inParallelMode g"
  shows "sp_time a' \<and> sp_tick a' = sp_tick a"
proof (cases c)
  case HandleAsyncInsertions
  then show ?thesis using assms by (auto simp: sp_time_def result_simps)
qed (use assms sp_schedule_time sp_deschedule_time sp_reschedule_time sp_on_time sp_new_time sp_delete_time
  in \<open>auto simp: result_simps\<close>)

lemma sp_calls_time:
  assumes "foldE (sp_call g) cs a = Inr a'" and "sp_time a" and "sp_ok a" and "\<not> inParallelMode g"
  shows "sp_time a' \<and> sp_tick a' = sp_tick a"
  using assms(1-3)
proof (induction cs arbitrary: a)
  case (Cons c cs)
  then obtain b where b: "sp_call g c a = Inr b" "foldE (sp_call g) cs b = Inr a'" by (auto simp: result_simps)
  have "sp_time b \<and> sp_tick b = sp_tick a" using sp_call_time [OF b(1)] Cons.prems assms(4) by blast
  then show ?case using Cons.IH [OF b(2)] sp_call_ok [OF b(1)] Cons.prems(3) by simp
qed simp

text \<open>The head is an event of the least key.\<close>

lemma refines_min:
  assumes "refines q a" and "sp_order a = p # ps" and "x \<in> set (sp_order a)"
  shows "kof (eq_events q) p \<le> kof (eq_events q) x"
proof -
  obtain bs where bs: "bins_at (eq_events q) (eq_head q) bs" "sorted_bins (kof (eq_events q)) bs" "concat bs = sp_order a"
    using assms(1) by (rule refinesE)
  obtain b ds where ds: "bs = b # ds" using bs(3) assms(2) by (cases bs) auto
  note D = sorted_bins_ConsD [OF bs(2) [unfolded ds]]
  have p: "p = hd b" using bs(3) D(1) assms(2) by (cases b) (auto simp: ds)
  from assms(3) consider "x \<in> set b" | c where "c \<in> set ds" "x \<in> set c" unfolding bs(3) [symmetric] ds by auto
  then show ?thesis
  proof cases
    case 1
    then show ?thesis using D(2) p by simp
  next
    case 2
    then have "kof (eq_events q) x = kof (eq_events q) (hd c)" using D(4) unfolding sorted_bins_def by (metis hd_in_set)
    then show ?thesis using D(3) [OF 2(1)] p by simp
  qed
qed

lemma ekey_when: "ekey u \<le> ekey v \<Longrightarrow> ev_when u \<le> ev_when v"
  by (auto simp: ekey_def less_eq_prod_def)

lemma service_time:
  assumes R: "refines q a" and ok: "sp_ok a" and t: "sp_time a" and par: "\<not> inParallelMode g"
    and s: "sp_service g process w a = Inr (r, w', a')"
  shows "sp_time a' \<and> sp_tick a \<le> sp_tick a'"
proof -
  obtain p ps where o: "sp_order a = p # ps" using s by (cases "sp_order a") (auto simp: sp_service_def)
  obtain d where d: "sp_events a p = Some d" using sp_okD [OF ok, of p] o by (auto simp: on_queue_def)
  have le: "sp_tick a \<le> ev_when d" using t o d by (auto simp: sp_time_def)
  have min: "ev_when d \<le> ev_when d'" if "x \<in> set ps" "sp_events a x = Some d'" for x d'
    using refines_min [OF R o, of x] that d o R by (auto simp: refines_def intro!: ekey_when)
  have np: "p \<notin> set ps" using ok o by (simp add: sp_ok_def)
  let ?a1 = "a\<lparr>sp_order := ps, sp_events := (sp_events a)(p \<mapsto> clearFlag Scheduled d)\<rparr>"
  have t1: "sp_time ?a1" using t o np by (intro sp_time_upd) auto
  have ok1: "sp_ok ?a1" using sp_take_ok [OF ok, of p] o by simp
  show ?thesis
  proof (cases "isSet Squashed d")
    case True
    then obtain a2 where "sp_on p (clearFlag Squashed) ?a1 = Inr a2" "sp_release p a2 = Inr a'"
      using s o d by (auto simp: sp_service_def result_simps)
    then show ?thesis using sp_on_time [OF _ t1] sp_release_time by fastforce
  next
    case False
    let ?a2 = "?a1\<lparr>sp_tick := ev_when d\<rparr>"
    have t2: "sp_time ?a2" using t min np by (auto simp: sp_time_def)
    have ok2: "sp_ok ?a2" using ok1 by (simp add: sp_ok_def)
    obtain calls a3 where c: "foldE (sp_call g) calls ?a2 = Inr a3" and "sp_release p a3 = Inr a' \<or> a' = a3"
      using s o d False by (auto simp: sp_service_def Let_def result_simps split: prod.splits if_splits)
    moreover have "sp_time a3 \<and> sp_tick a3 = ev_when d" using sp_calls_time [OF c t2 ok2 par] by simp
    ultimately show ?thesis using sp_release_time le by fastforce
  qed
qed

lemma action_time:
  assumes "run_rel s t" and "sp_time (snd t)" and "\<not> inParallelMode g" and "sp_action g process x t = Inr t'"
  shows "sp_time (snd t') \<and> sp_tick (snd t) \<le> sp_tick (snd t')"
proof (cases x)
  case (Call c)
  then show ?thesis using assms sp_call_time [of g c "snd t"] by (auto simp: run_rel_def result_simps)
next
  case ServiceOne
  then show ?thesis using assms service_time [of "snd s" "snd t" g process "fst t"] by (auto simp: run_rel_def result_simps)
qed

lemma run_time:
  assumes "run_rel s t" and "sp_time (snd t)" and par: "\<not> inParallelMode g" and "eq_run g process xs s = Some (Inr s')"
  shows "\<exists>t'. run_rel s' t' \<and> sp_time (snd t')"
  using assms(1,2,4)
proof (induction xs arbitrary: s t)
  case (Cons x xs)
  obtain s1 where s1: "eq_action g process x s = Some (Inr s1)" "eq_run g process xs s1 = Some (Inr s')"
    using Cons.prems(3) by (auto simp: bindL_def split: option.splits sum.splits)
  then obtain t1 where t1: "sp_action g process x t = Inr t1" "run_rel s1 t1"
    using action_sim [OF Cons.prems(1), of g process x] by (auto simp: sim_def split: sum.splits)
  then show ?case using Cons.IH [OF t1(2) _ s1(2)] action_time [OF Cons.prems(1,2) par t1(1)] by blast
next
  case Nil
  then show ?case by (intro exI [of _ t]) simp
qed

text \<open>
  C17. Without parallel simulation, after every run of calls and services on a new queue: the
  event at the head is not in the past, so that the check of the simulation loop against events
  scheduled in the past holds; no event scheduled on the queue precedes it in time and priority;
  and serving it never moves the time of the queue backwards.
\<close>

theorem events_served_in_order:
  assumes par: "\<not> inParallelMode g"
    and run: "eq_run g process acts (w0, EventQueue_new self) = Some (Inr (w, q))"
    and head: "eq_head q = Some p"
  shows "\<exists>ev. eq_events q p = Some ev \<and> nextTick q = Inr (ev_when ev) \<and> eq_curTick q \<le> ev_when ev \<and>
    (\<forall>x v. eq_events q x = Some v \<and> isSet Scheduled v \<and> ev_queue v = Some (eq_self q) \<longrightarrow> ev_le ev v) \<and>
    (\<forall>r w' q'. serviceOne g process w q = Some (Inr (r, w', q')) \<longrightarrow> eq_curTick q \<le> eq_curTick q')"
proof -
  have "sp_time (QSpec_new self)" by (simp add: sp_time_def QSpec_new_def)
  then obtain a where R: "refines q a" and ok: "sp_ok a" and t: "sp_time a"
    using run_time [OF run_rel_new _ par run] by (auto simp: run_rel_def)
  obtain ps where o: "sp_order a = p # ps" using refines_head [OF R] head by (cases "sp_order a") auto
  obtain ev where ev: "eq_events q p = Some ev" and d: "sp_events a p = Some (EventData.truncate ev)"
    using sp_okD [OF ok, of p] o R by (auto simp: on_queue_def refines_def)
  have f: "sp_self a = eq_self q" "sp_tick a = eq_curTick q" using R by (auto simp: refines_def)
  have "sp_tick a \<le> ev_when (EventData.truncate ev)" using t o d unfolding sp_time_def by (metis list.set_intros(1))
  then have "eq_curTick q \<le> ev_when ev" using f by simp
  moreover have "nextTick q = Inr (ev_when ev)" using head ev by (simp add: nextTick_def)
  moreover have "ev_le ev v" if v: "eq_events q x = Some v" "isSet Scheduled v" "ev_queue v = Some (eq_self q)" for x v
  proof -
    have "on_queue a x" using v f R by (auto simp: on_queue_def refines_def)
    then have "x \<in> set (sp_order a)" using sp_okD [OF ok, of x] t by (simp add: sp_time_def)
    from refines_min [OF R o this] show ?thesis using v ev by (simp add: key_simps)
  qed
  moreover have "eq_curTick q \<le> eq_curTick q'" if s: "serviceOne g process w q = Some (Inr (r, w', q'))" for r w' q'
  proof -
    obtain a' where "sp_service g process w a = Inr (r, w', a')" "refines q' a'"
      using service_sim [OF R ok, of g process w] s by (auto simp: sim_def served_def split: sum.splits)
    then show ?thesis using service_time [OF R ok t par] f by (fastforce simp: refines_def)
  qed
  ultimately show ?thesis using ev by blast
qed

definition two_events :: "Action list" where
  "two_events = [Call (NewEvent 1 0 0), Call (NewEvent 2 0 0), Call (Schedule 1 20 False), Call (Schedule 2 10 False)]"

definition idle_handler :: "unit handler" where
  "idle_handler p w v = ([], w)"

definition serial :: Globals where
  "serial = \<lparr>inParallelMode = False, curEventQueue = Some 0\<rparr>"

theorem events_served_in_order_witness:
  "\<exists>w q ev. eq_run serial idle_handler two_events ((), EventQueue_new 0) = Some (Inr (w, q)) \<and>
    eq_head q = Some 2 \<and> eq_events q 2 = Some ev \<and> nextTick q = Inr (ev_when ev) \<and> eq_curTick q \<le> ev_when ev"
proof -
  let ?r = "eq_run serial idle_handler two_events ((), EventQueue_new 0)"
  have "(case ?r of Some (Inr s) \<Rightarrow> eq_head (snd s) | _ \<Rightarrow> None) = Some 2" by code_simp
  then obtain w q where r: "?r = Some (Inr (w, q))" "eq_head q = Some 2"
    by (auto split: option.splits sum.splits)
  have "\<not> inParallelMode serial" by (simp add: serial_def)
  from events_served_in_order [OF this r] r show ?thesis by blast
qed

end
