(* ===== verification/EventCheckpoint.thy ===== *)
theory EventCheckpoint
  imports EventService
begin

text \<open>
  Restoring an event from a checkpoint, and the consistency check \<open>debugVerify\<close> of the event queue.
\<close>

subsection \<open>Checkpoints\<close>

definition ev_unserialize :: "Tick \<Rightarrow> 8 word \<Rightarrow> 16 word \<Rightarrow> Event \<Rightarrow> Event result" where
  "ev_unserialize w p f e = checked (\<not> isSet Scheduled e) AssertFailed (checked (initialized e) AssertFailed
    (let e1 = setFlag Initialized (e\<lparr>ev_when := w, ev_priority := p, ev_flags := f\<rparr>) in
     Inr (if isSet Scheduled e1 \<and> \<not> isSet Squashed e1 then clearFlag (Squashed OR Scheduled) e1 else e1)))"

definition checkpointReschedule :: "nat \<Rightarrow> EventQueue \<Rightarrow> EventQueue result option" where
  "checkpointReschedule e q = bindL (Some (deref e (eq_events q))) (\<lambda>v.
    if isSet Scheduled v then eq_insert e q else Some (Inr q))"

definition replaceHead :: "nat option \<Rightarrow> EventQueue \<Rightarrow> nat option \<times> EventQueue" where
  "replaceHead s q = (eq_head q, q\<lparr>eq_head := s\<rparr>)"

lemma unserialize_flags:
  assumes "ev_unserialize w p f e = Inr e'"
  shows "isSet Scheduled e' \<longleftrightarrow> bit f 1 \<and> bit f 0"
proof -
  have sq: "isSet Squashed d \<longleftrightarrow> bit (ev_flags d) 0" for d :: Event
    using and_exp_eq_0_iff_not_bit [of "ev_flags d" 0] by (simp add: isSet_def Squashed_def)
  show ?thesis using assms unfolding ev_unserialize_def checked_Inr Let_def isSet_Scheduled sq
    by (auto simp: setFlag_def clearFlag_def bit_simps flag_defs split: if_splits)
qed

text \<open>
  C38. An event that was scheduled and not squashed when the checkpoint was taken is not put back:
  restoring it clears the flag that \<open>checkpointReschedule\<close> tests, and the queue stays as it is. A
  squashed event that was scheduled keeps the flag and is inserted again.
\<close>

theorem checkpoint_drops_live_events:
  assumes "ev_unserialize w p f e = Inr e'" and "eq_events q x = Some e'" and "bit f 1"
  shows "checkpointReschedule x q = (if bit f 0 then eq_insert x q else Some (Inr q))"
  using assms unserialize_flags [OF assms(1)] by (simp add: checkpointReschedule_def)

definition timer_event :: Event where
  "timer_event = \<lparr>ev_when = 0, ev_priority = 0, ev_flags = Initialized, ev_queue = None, nextBin = None, nextInBin = None\<rparr>"

theorem checkpoint_drops_live_events_witness:
  "\<exists>e'. ev_unserialize 500 0 2 timer_event = Inr e' \<and> ev_when e' = 500 \<and>
    checkpointReschedule 7 ((EventQueue_new 0)\<lparr>eq_events := [7 \<mapsto> e']\<rparr>) =
      Some (Inr ((EventQueue_new 0)\<lparr>eq_events := [7 \<mapsto> e']\<rparr>))"
proof -
  have "(case ev_unserialize 500 0 2 timer_event of Inr e' \<Rightarrow> ev_when e' = 500 | Inl err \<Rightarrow> False)" by code_simp
  then obtain e' where e': "ev_unserialize 500 0 2 timer_event = Inr e'" "ev_when e' = 500" by (auto split: sum.splits)
  have "checkpointReschedule 7 ((EventQueue_new 0)\<lparr>eq_events := [7 \<mapsto> e']\<rparr>) =
      (if bit (2 :: 16 word) 0 then eq_insert 7 ((EventQueue_new 0)\<lparr>eq_events := [7 \<mapsto> e']\<rparr>)
       else Some (Inr ((EventQueue_new 0)\<lparr>eq_events := [7 \<mapsto> e']\<rparr>)))"
    by (rule checkpoint_drops_live_events [OF e'(1)]) (simp_all add: bit_numeral_rec)
  then show ?thesis using e' by simp
qed

subsection \<open>The consistency check\<close>

partial_function (option) verify_bin ::
  "event_store \<Rightarrow> nat option \<Rightarrow> Tick \<times> int \<times> nat list \<Rightarrow> (Tick \<times> int \<times> nat list) option result option" where
  "verify_bin h nextIn st = (case nextIn of
      None \<Rightarrow> Some (Inr (Some st))
    | Some c \<Rightarrow> (case deref c h of
        Inl err \<Rightarrow> Some (Inl err)
      | Inr v \<Rightarrow>
        if ev_when v < fst st then Some (Inr None)
        else if ev_when v = fst st \<and> sint (ev_priority v) < fst (snd st) then Some (Inr None)
        else if c \<in> set (snd (snd st)) then Some (Inr None)
        else verify_bin h (nextInBin v) (ev_when v, sint (ev_priority v), c # snd (snd st))))"

declare verify_bin.simps [code]

partial_function (option) verify_bins ::
  "event_store \<Rightarrow> nat option \<Rightarrow> Tick \<times> int \<times> nat list \<Rightarrow> bool result option" where
  "verify_bins h nextB st = (case nextB of
      None \<Rightarrow> Some (Inr True)
    | Some b \<Rightarrow> (case verify_bin h nextB st of
        None \<Rightarrow> None
      | Some r \<Rightarrow> (case r of
          Inl err \<Rightarrow> Some (Inl err)
        | Inr sto \<Rightarrow> (case sto of
            None \<Rightarrow> Some (Inr False)
          | Some st' \<Rightarrow> (case deref b h of
              Inl err \<Rightarrow> Some (Inl err)
            | Inr v \<Rightarrow> verify_bins h (nextBin v) st')))))"

declare verify_bins.simps [code]

definition debugVerify :: "EventQueue \<Rightarrow> bool result option" where
  "debugVerify q = verify_bins (eq_events q) (eq_head q) (0, 0, [])"

lemma verify_bin_ok:
  assumes "lseg nextInBin h p xs None" and "\<And>x. x \<in> set xs \<Longrightarrow> kof h x = (t', pr')"
    and "(t, pr) \<le> (t', pr')" and "distinct xs" and "set xs \<inter> set seen = {}"
  shows "verify_bin h p (t, pr, seen) = Some (Inr (Some (if xs = [] then (t, pr, seen) else (t', pr', rev xs @ seen))))"
  using assms
proof (induction xs arbitrary: p t pr seen)
  case Nil
  then show ?case by (subst verify_bin.simps) simp
next
  case (Cons x xs)
  then obtain v where v: "p = Some x" "h x = Some v" "lseg nextInBin h (nextInBin v) xs None" by auto
  have k: "ev_when v = t'" "sint (ev_priority v) = pr'" using Cons.prems(2) [of x] v(2) by (auto simp: ekey_def)
  have "verify_bin h (nextInBin v) (t', pr', x # seen) =
      Some (Inr (Some (if xs = [] then (t', pr', x # seen) else (t', pr', rev xs @ x # seen))))"
    by (rule Cons.IH [OF v(3)]) (use Cons.prems in auto)
  moreover have "\<not> t' < t" "\<not> (t' = t \<and> pr' < pr)" using Cons.prems(3) by auto
  ultimately show ?case using v Cons.prems(5) by (subst verify_bin.simps) (auto simp: k)
qed

lemma verify_bins_ok:
  assumes "bins_at h p bs" and "sorted_bins (kof h) bs" and "distinct (concat bs)"
    and "set (concat bs) \<inter> set seen = {}" and "\<And>b. b \<in> set bs \<Longrightarrow> (t, pr) \<le> kof h (hd b)"
  shows "verify_bins h p (t, pr, seen) = Some (Inr True)"
  using assms
proof (induction bs arbitrary: p t pr seen)
  case Nil
  then show ?case by (subst verify_bins.simps) simp
next
  case (Cons b bs)
  note D = sorted_bins_ConsD [OF Cons.prems(2)]
  obtain v where v: "p = Some (hd b)" "b \<noteq> []" "lseg nextInBin h p b None" "h (hd b) = Some v" "bins_at h (nextBin v) bs"
    using Cons.prems(1) by (auto simp: bins_at_Cons)
  obtain t' pr' where k: "kof h (hd b) = (t', pr')" by (cases "kof h (hd b)") blast
  have "verify_bin h p (t, pr, seen) = Some (Inr (Some (if b = [] then (t, pr, seen) else (t', pr', rev b @ seen))))"
  proof (rule verify_bin_ok [OF v(3)])
    show "kof h x = (t', pr')" if "x \<in> set b" for x using D(2) [OF that] k by simp
    show "(t, pr) \<le> (t', pr')" using Cons.prems(5) [of b] unfolding k by simp
  qed (use Cons.prems(3,4) in auto)
  moreover have "verify_bins h (nextBin v) (t', pr', rev b @ seen) = Some (Inr True)"
  proof (rule Cons.IH [OF v(5) D(4)])
    show "(t', pr') \<le> kof h (hd c)" if "c \<in> set bs" for c using D(3) [OF that] unfolding k by (rule less_imp_le)
  qed (use Cons.prems(3,4) in auto)
  ultimately show ?case using v by (subst verify_bins.simps) simp
qed

text \<open>
  C39. After every run of calls and services on a new queue the links are consistent, and
  \<open>debugVerify\<close> says so unless the first event is at time 0 with a negative priority: the check
  starts from time 0 and priority 0 and then reports an inverted priority that is not there.
\<close>

theorem debugVerify_exact:
  assumes run: "eq_run g process acts (w0, EventQueue_new self) = Some (Inr (w, q))"
  shows "debugVerify q = Some (Inr (case eq_head q of None \<Rightarrow> True
    | Some p \<Rightarrow> \<not> (\<exists>v. eq_events q p = Some v \<and> ev_when v = 0 \<and> sint (ev_priority v) < 0)))"
proof -
  obtain a where R: "refines q a"
    using run_sim [OF run_rel_new [of w0 self], of g process acts] run by (auto simp: sim_def run_rel_def split: sum.splits)
  obtain bs where bs: "bins_at (eq_events q) (eq_head q) bs" "sorted_bins (kof (eq_events q)) bs" "distinct (concat bs)"
    using R by (rule refinesE)
  show ?thesis
  proof (cases bs)
    case Nil
    then show ?thesis using bs(1) unfolding debugVerify_def by (subst verify_bins.simps) simp
  next
    case (Cons b ds)
    then obtain v where v: "eq_head q = Some (hd b)" "eq_events q (hd b) = Some v" using bs(1) by (auto simp: bins_at_Cons)
    show ?thesis
    proof (cases "ev_when v = 0 \<and> sint (ev_priority v) < 0")
      case True
      then have "verify_bin (eq_events q) (eq_head q) (0, 0, []) = Some (Inr None)"
        using v by (subst verify_bin.simps) simp
      then show ?thesis using v True unfolding debugVerify_def by (subst verify_bins.simps) simp
    next
      case False
      have k: "kof (eq_events q) (hd b) = (ev_when v, sint (ev_priority v))" using v(2) by (simp add: ekey_def)
      have b: "(0, 0) \<le> kof (eq_events q) (hd b)"
        unfolding k using False by (cases "ev_when v = 0") (simp_all add: word_gt_0)
      have "(0, 0) \<le> kof (eq_events q) (hd c)" if "c \<in> set bs" for c
      proof (cases "c = b")
        case False
        then have "kof (eq_events q) (hd b) < kof (eq_events q) (hd c)"
          using that sorted_bins_ConsD(3) [OF bs(2) [unfolded Cons], of c] Cons by simp
        then show ?thesis using b by (rule order_trans [OF _ less_imp_le, rotated])
      qed (use b in simp)
      then have "debugVerify q = Some (Inr True)" unfolding debugVerify_def by (intro verify_bins_ok [OF bs]) simp_all
      then show ?thesis using v False by auto
    qed
  qed
qed

definition early_event :: "Action list" where
  "early_event = [Call (NewEvent 1 (- 1) 0), Call (Schedule 1 0 False)]"

theorem debugVerify_exact_witness:
  "\<exists>w q v. eq_run serial idle_handler early_event ((), EventQueue_new 0) = Some (Inr (w, q)) \<and> eq_head q = Some 1 \<and>
    eq_events q 1 = Some v \<and> ev_when v = 0 \<and> sint (ev_priority v) < 0 \<and> debugVerify q = Some (Inr False)"
proof -
  let ?r = "eq_run serial idle_handler early_event ((), EventQueue_new 0)"
  have "(case ?r of Some (Inr s) \<Rightarrow> eq_head (snd s) = Some 1 \<and> (case eq_events (snd s) 1 of Some v \<Rightarrow>
      ev_when v = 0 \<and> sint (ev_priority v) < 0 | None \<Rightarrow> False) | _ \<Rightarrow> False)" by code_simp
  then obtain w q v where r: "?r = Some (Inr (w, q))" "eq_head q = Some 1" "eq_events q 1 = Some v" "ev_when v = 0" "sint (ev_priority v) < 0"
    by (auto split: option.splits sum.splits)
  from debugVerify_exact [OF r(1)] r show ?thesis by simp
qed

end
