(* ===== verification/AddrRange.thy ===== *)
theory AddrRange
  imports BitField
begin

unbundle bit_operations_syntax

text \<open>
  Address ranges (\<^verbatim>\<open>src/base/addr_range.hh\<close>): plain and interleaved ranges, their tests, the
  removal and insertion of interleaving bits, and exclusion of lists of ranges. The C++ types are
  kept where they matter: the selector is an \<open>int\<close>, and so are the combined mask of
  \<open>granularity\<close> and the shifted one of \<open>addIntlvBits\<close>; a shift beyond the width is undefined.
\<close>

record AddrRange =
  ar_start :: Addr
  ar_end :: Addr
  ar_masks :: "Addr list"
  intlvMatch :: "8 word"

definition shl1 :: "nat \<Rightarrow> uint64 result" where
  "shl1 n = checked (n < 64) UndefinedBehaviour (Inr (push_bit n 1))"

definition AddrRange_plain :: "Addr \<Rightarrow> Addr \<Rightarrow> AddrRange" where
  "AddrRange_plain s e = \<lparr>ar_start = s, ar_end = e, ar_masks = [], intlvMatch = 0\<rparr>"

definition AddrRange_default :: AddrRange where
  "AddrRange_default = AddrRange_plain 1 0"

definition AddrRange_masks :: "Addr \<Rightarrow> Addr \<Rightarrow> Addr list \<Rightarrow> 8 word \<Rightarrow> AddrRange result" where
  "AddrRange_masks s e ms m =
    bindE (if ms = [] then Inr True else bindE (shl1 (length ms)) (\<lambda>n. Inr (ucast m < n))) (\<lambda>fits.
      checked fits Fatal (Inr \<lparr>ar_start = s, ar_end = e, ar_masks = ms, intlvMatch = m\<rparr>))"

text \<open>The legacy constructor: one interleaving bit and possibly one XOR bit for each mask.\<close>

definition legacy_mask :: "8 word \<Rightarrow> 8 word \<Rightarrow> nat \<Rightarrow> Addr result" where
  "legacy_mask intlv_high xor_high i = bindE (shl1 (unat (intlv_high - of_nat i))) (\<lambda>m.
    if xor_high \<noteq> 0 then bindE (shl1 (unat (xor_high - of_nat i))) (\<lambda>x. Inr (m OR x)) else Inr m)"

fun legacy_masks :: "8 word \<Rightarrow> 8 word \<Rightarrow> nat \<Rightarrow> nat \<Rightarrow> Addr list \<Rightarrow> Addr list result" where
  "legacy_masks intlv_high xor_high n 0 ms = Inr ms"
| "legacy_masks intlv_high xor_high n (Suc k) ms =
    bindE (legacy_mask intlv_high xor_high (n - Suc k)) (\<lambda>m. legacy_masks intlv_high xor_high n k (ms[k := m]))"

definition AddrRange_legacy :: "Addr \<Rightarrow> Addr \<Rightarrow> 8 word \<Rightarrow> 8 word \<Rightarrow> 8 word \<Rightarrow> 8 word \<Rightarrow> AddrRange result" where
  "AddrRange_legacy s e intlv_high xor_high bits_n m =
    bindE (if bits_n = 0 then Inr True else bindE (shl1 (unat bits_n)) (\<lambda>n. Inr (ucast m < n))) (\<lambda>fits.
    checked fits Fatal
    (checked (bits_n \<noteq> 0 \<and> xor_high \<noteq> 0 \<longrightarrow> xor_high \<noteq> intlv_high \<and>
        \<bar>int (unat xor_high) - int (unat intlv_high)\<bar> \<ge> int (unat bits_n)) Fatal
    (bindE (legacy_masks intlv_high xor_high (unat bits_n) (unat bits_n) (replicate (unat bits_n) 0)) (\<lambda>ms.
      Inr \<lparr>ar_start = s, ar_end = e, ar_masks = ms, intlvMatch = m\<rparr>))))"

subsection \<open>Tests\<close>

definition interleaved :: "AddrRange \<Rightarrow> bool" where
  "interleaved r \<longleftrightarrow> length (ar_masks r) > 0"

definition ar_size :: "AddrRange \<Rightarrow> Addr result" where
  "ar_size r = checked (length (ar_masks r) < 64) UndefinedBehaviour
    (Inr (drop_bit (length (ar_masks r)) (ar_end r - ar_start r)))"

definition combined_mask :: "AddrRange \<Rightarrow> 32 word" where
  "combined_mask r = fold (\<lambda>m c. ucast (scast c OR m :: uint64)) (ar_masks r) 0"

definition granularity :: "AddrRange \<Rightarrow> uint64 result" where
  "granularity r = (if interleaved r then shl1 (nat (ctz64 (scast (combined_mask r)))) else ar_size r)"

definition stripes :: "AddrRange \<Rightarrow> 32 word result" where
  "stripes r = bindE (shl1 (length (ar_masks r))) (\<lambda>n. Inr (ucast n))"

definition ar_valid :: "AddrRange \<Rightarrow> bool" where
  "ar_valid r \<longleftrightarrow> ar_start r \<le> ar_end r"

definition mergesWith :: "AddrRange \<Rightarrow> AddrRange \<Rightarrow> bool" where
  "mergesWith t r \<longleftrightarrow> ar_start r = ar_start t \<and> ar_end r = ar_end t \<and> ar_masks r = ar_masks t"

text \<open>The selector: bit \<open>i\<close> is the parity of the bits under mask \<open>i\<close>.\<close>

fun sel_loop :: "Addr \<Rightarrow> nat \<Rightarrow> Addr list \<Rightarrow> 32 word \<Rightarrow> 32 word result" where
  "sel_loop a i [] sel = Inr sel"
| "sel_loop a i (m # ms) sel = checked (i < 32) UndefinedBehaviour
    (sel_loop a (Suc i) ms (sel OR push_bit i (word_of_int (popCount (a AND m) mod 2))))"

definition ar_contains :: "AddrRange \<Rightarrow> Addr \<Rightarrow> bool result" where
  "ar_contains r a =
    (if a \<ge> ar_start r \<and> a < ar_end r
     then bindE (sel_loop a 0 (ar_masks r) 0) (\<lambda>sel. Inr (sel = ucast (intlvMatch r)))
     else Inr False)"

definition intersects :: "AddrRange \<Rightarrow> AddrRange \<Rightarrow> bool result" where
  "intersects t r =
    (if ar_start t \<ge> ar_end r \<or> ar_end t \<le> ar_start r then Inr False
     else if \<not> interleaved t \<and> \<not> interleaved r then Inr True
     else bindE (ar_size r) (\<lambda>n.
       if n = 1 then ar_contains t (ar_start r)
       else if mergesWith t r then Inr (intlvMatch t = intlvMatch r)
       else Inl Panic))"

definition isSubset :: "AddrRange \<Rightarrow> AddrRange \<Rightarrow> bool result" where
  "isSubset t r = checked (\<not> interleaved t) Panic
    (if interleaved r
     then bindE (ar_contains r (ar_start t)) (\<lambda>c1. if \<not> c1 then Inr False else
       bindE (ar_contains r (ar_end t - 1)) (\<lambda>c2. if \<not> c2 then Inr False else
       bindE (ar_size t) (\<lambda>n. bindE (granularity r) (\<lambda>g. Inr (n \<le> g)))))
     else Inr (ar_start t \<ge> ar_start r \<and> ar_end t \<le> ar_end r))"

definition ar_less :: "AddrRange \<Rightarrow> AddrRange \<Rightarrow> bool" where
  "ar_less t r =
    (if ar_start t \<noteq> ar_start r then ar_start t < ar_start r
     else if interleaved t \<and> interleaved r then intlvMatch t < intlvMatch r
     else interleaved t)"

definition ar_intersection :: "AddrRange \<Rightarrow> AddrRange \<Rightarrow> AddrRange result" where
  "ar_intersection t r = checked (\<not> (interleaved t \<or> interleaved r)) Panic
    (let s = max (ar_start t) (ar_start r); e = min (ar_end t) (ar_end r) in
     Inr (if e \<le> s then AddrRange_plain 0 0 else AddrRange_plain s e))"

subsection \<open>Merging interleaved ranges\<close>

fun merge_loop :: "AddrRange \<Rightarrow> 8 word \<Rightarrow> AddrRange list \<Rightarrow> unit result" where
  "merge_loop t match [] = Inr ()"
| "merge_loop t match (r # rs) = checked (mergesWith t r) Fatal
    (checked (intlvMatch r = match) Fatal (merge_loop t (match + 1) rs))"

definition AddrRange_merge :: "AddrRange list \<Rightarrow> AddrRange result" where
  "AddrRange_merge rs = (let t = (case rs of [] \<Rightarrow> AddrRange_default | r # _ \<Rightarrow> r) in
    if length rs > 1
    then bindE (shl1 (length (ar_masks t))) (\<lambda>n.
      checked (length rs = unat n) Fatal
      (bindE (merge_loop t 0 rs) (\<lambda>_. Inr (t\<lparr>ar_masks := [], intlvMatch := 0\<rparr>))))
    else Inr t)"

subsection \<open>Interleaving bits\<close>

definition masks_lsb :: "AddrRange \<Rightarrow> nat list" where
  "masks_lsb r = sort (map (\<lambda>m. nat (ctz64 m)) (ar_masks r))"

fun remove_loop :: "nat \<Rightarrow> nat list \<Rightarrow> Addr \<Rightarrow> Addr result" where
  "remove_loop i [] a = Inr a"
| "remove_loop i (b # bs) a =
    bindE (if b > 0 then insertBits (drop_bit 1 a) (of_nat b - of_nat i - 1) 0 a else Inr (drop_bit 1 a))
      (remove_loop (Suc i) bs)"

definition removeIntlvBits :: "AddrRange \<Rightarrow> Addr \<Rightarrow> Addr result" where
  "removeIntlvBits r a = (if \<not> interleaved r then Inr a else remove_loop 0 (masks_lsb r) a)"

fun add_loop :: "nat list \<Rightarrow> Addr \<Rightarrow> Addr result" where
  "add_loop [] a = Inr a"
| "add_loop (b # bs) a =
    bindE (if b > 0 then insertBits (push_bit 1 a) (of_nat b - 1) 0 a else Inr (push_bit 1 a)) (add_loop bs)"

text \<open>The second loop of \<open>addIntlvBits\<close>: the lowest bit of each mask is set to what selects the range.\<close>

definition not_lsb :: "nat \<Rightarrow> uint64" where
  "not_lsb lsb = scast (NOT (push_bit lsb (1 :: 32 word)))"

fun fix_loop :: "8 word \<Rightarrow> nat \<Rightarrow> Addr list \<Rightarrow> Addr \<Rightarrow> Addr result" where
  "fix_loop match i [] a = Inr a"
| "fix_loop match i (m # ms) a = (let lsb = nat (ctz64 m) in
    checked (i < 32 \<and> lsb < 32) UndefinedBehaviour
    (bindE (bits1 (ucast match) (of_nat i)) (\<lambda>intlv_bit.
     bindE (insertBits1 a (of_nat lsb) (intlv_bit XOR word_of_int (popCount (a AND m AND not_lsb lsb))))
       (fix_loop match (Suc i) ms))))"

definition addIntlvBits :: "AddrRange \<Rightarrow> Addr \<Rightarrow> Addr result" where
  "addIntlvBits r a = (if \<not> interleaved r then Inr a
    else bindE (add_loop (masks_lsb r) a) (fix_loop (intlvMatch r) 0 (ar_masks r)))"

definition getOffset :: "AddrRange \<Rightarrow> Addr \<Rightarrow> Addr result" where
  "getOffset r a =
    (if \<not> (a \<ge> ar_start r \<and> a < ar_end r) then Inr (- 1)
     else if interleaved r then bindE (removeIntlvBits r a) (\<lambda>x. bindE (removeIntlvBits r (ar_start r)) (\<lambda>y. Inr (x - y)))
     else Inr (a - ar_start r))"

subsection \<open>Exclusion\<close>

text \<open>\<open>std::list::sort\<close> is stable; the comparison is a strict weak order.\<close>

fun ar_insort :: "AddrRange \<Rightarrow> AddrRange list \<Rightarrow> AddrRange list" where
  "ar_insort x [] = [x]"
| "ar_insort x (y # ys) = (if ar_less y x then y # ar_insort x ys else x # y # ys)"

definition ar_sort :: "AddrRange list \<Rightarrow> AddrRange list" where
  "ar_sort rs = foldr ar_insort rs []"

fun exclude_loop :: "AddrRange \<Rightarrow> AddrRange list \<Rightarrow> Addr \<Rightarrow> AddrRange list \<Rightarrow> AddrRange list result" where
  "exclude_loop t [] next_start ranges =
    Inr (if next_start < ar_end t then ranges @ [AddrRange_plain next_start (ar_end t)] else ranges)"
| "exclude_loop t (e # es) next_start ranges = checked (\<not> interleaved e) AssertFailed
    (bindE (intersects t e) (\<lambda>i.
      if \<not> i then exclude_loop t es next_start ranges
      else if ar_start e \<le> next_start
      then if ar_end e < ar_end t
        then exclude_loop t es (if next_start < ar_end e then ar_end e else next_start) ranges
        else Inr ranges
      else let ranges' = ranges @ [AddrRange_plain next_start (ar_start e)] in
        if ar_end e < ar_end t then exclude_loop t es (ar_end e) ranges' else Inr ranges'))"

definition ar_exclude :: "AddrRange \<Rightarrow> AddrRange list \<Rightarrow> AddrRange list result" where
  "ar_exclude t es = checked (\<not> interleaved t) AssertFailed (exclude_loop t (ar_sort es) (ar_start t) [])"

fun exclude_all :: "AddrRange list \<Rightarrow> AddrRange list \<Rightarrow> AddrRange list result" where
  "exclude_all [] es = Inr []"
| "exclude_all (t # ts) es = bindE (ar_exclude t es) (\<lambda>rs. bindE (exclude_all ts es) (\<lambda>rest. Inr (rs @ rest)))"

definition exclude_lists :: "AddrRange list \<Rightarrow> AddrRange list \<Rightarrow> AddrRange list result" where
  "exclude_lists base to_exclude = exclude_all base (ar_sort to_exclude)"

definition RangeIn :: "Addr \<Rightarrow> Addr \<Rightarrow> AddrRange" where
  "RangeIn s e = AddrRange_plain s (e + 1)"

definition RangeSize :: "Addr \<Rightarrow> Addr \<Rightarrow> AddrRange" where
  "RangeSize s n = AddrRange_plain s (s + n)"

end
