(* ===== verification/AddrRangeProps.thy ===== *)
theory AddrRangeProps
  imports AddrRange
begin

text \<open>
  Correctness of address ranges: exclusion computes the set difference, merging interleaved ranges
  covers what its parts cover, and a range reported as a subset lies inside the other one.
\<close>

subsection \<open>Sorting\<close>

lemma set_ar_insort [simp]: "set (ar_insort x ys) = insert x (set ys)"
  by (induction ys) auto

lemma set_ar_sort [simp]: "set (ar_sort rs) = set rs"
  by (induction rs) (auto simp: ar_sort_def)

lemma ar_less_start: "ar_less t r \<Longrightarrow> ar_start t \<le> ar_start r" "\<not> ar_less t r \<Longrightarrow> ar_start r \<le> ar_start t"
  by (auto simp: ar_less_def split: if_splits)

lemma sorted_ar_insort:
  "sorted (map ar_start ys) \<Longrightarrow> sorted (map ar_start (ar_insort x ys))"
proof (induction ys)
  case (Cons y ys)
  show ?case
  proof (cases "ar_less y x")
    case True
    then show ?thesis using Cons ar_less_start(1) [OF True] by auto
  next
    case False
    then show ?thesis using Cons.prems ar_less_start(2) [OF False] by auto
  qed
qed simp

lemma sorted_ar_sort: "sorted (map ar_start (ar_sort rs))"
  by (induction rs) (auto simp: ar_sort_def sorted_ar_insort)

subsection \<open>Exclusion is set difference\<close>

text \<open>The addresses between the bounds of a range.\<close>

definition span :: "AddrRange \<Rightarrow> Addr set" where
  "span r = {a. ar_start r \<le> a \<and> a < ar_end r}"

definition plain :: "AddrRange \<Rightarrow> bool" where
  "plain r \<longleftrightarrow> ar_masks r = [] \<and> intlvMatch r = 0"

lemma plain_simps [simp]: "plain (AddrRange_plain s e)" "span (AddrRange_plain s e) = {a. s \<le> a \<and> a < e}"
  "ar_start (AddrRange_plain s e) = s" "ar_end (AddrRange_plain s e) = e"
  by (simp_all add: plain_def span_def AddrRange_plain_def)

lemma plain_contains: "plain r \<Longrightarrow> ar_contains r a = Inr (a \<in> span r)"
  by (auto simp: plain_def span_def ar_contains_def)

lemma plain_intersects: "plain t \<Longrightarrow> plain r \<Longrightarrow>
  intersects t r = Inr (ar_start t < ar_end r \<and> ar_start r < ar_end t)"
  by (auto simp: plain_def intersects_def interleaved_def)

definition ordered_ranges :: "AddrRange list \<Rightarrow> Addr \<Rightarrow> bool" where
  "ordered_ranges rs n \<longleftrightarrow> (\<forall>r\<in>set rs. plain r \<and> ar_start r < ar_end r \<and> ar_end r \<le> n) \<and>
    sorted_wrt (\<lambda>x y. ar_end x \<le> ar_start y) rs"

lemma ordered_snoc:
  "ordered_ranges rs n \<Longrightarrow> n < m \<Longrightarrow> ordered_ranges (rs @ [AddrRange_plain n m]) m"
  by (fastforce simp: ordered_ranges_def sorted_wrt_append)

lemma ordered_mono: "ordered_ranges rs n \<Longrightarrow> n \<le> m \<Longrightarrow> ordered_ranges rs m"
  by (fastforce simp: ordered_ranges_def)

text \<open>What is left of a range from \<open>n\<close> on, and how one exclusion changes it.\<close>

definition remaining :: "AddrRange \<Rightarrow> Addr \<Rightarrow> AddrRange list \<Rightarrow> Addr set" where
  "remaining t n es = {a. n \<le> a \<and> a < ar_end t} - (\<Union>e\<in>set es. span e)"

lemma in_remaining_Cons:
  "a \<in> remaining t n (e # es) \<longleftrightarrow> \<not> (ar_start e \<le> a \<and> a < ar_end e) \<and> a \<in> remaining t n es"
  by (auto simp: remaining_def span_def)

lemma remaining_mono: "n \<le> m \<Longrightarrow> a \<in> remaining t m es \<longleftrightarrow> m \<le> a \<and> a \<in> remaining t n es"
  by (auto simp: remaining_def)

lemma remainingD: "a \<in> remaining t n es \<Longrightarrow> n \<le> a \<and> a < ar_end t"
  by (simp add: remaining_def)

lemma remaining_apart:
  assumes "ar_start t \<le> n" and "\<not> (ar_start t < ar_end e \<and> ar_start e < ar_end t)"
  shows "remaining t n (e # es) = remaining t n es"
proof (rule set_eqI)
  fix a
  have "\<not> (ar_start e \<le> a \<and> a < ar_end e)" if "a \<in> remaining t n es"
    using remainingD [OF that] assms by auto
  then show "a \<in> remaining t n (e # es) \<longleftrightarrow> a \<in> remaining t n es" unfolding in_remaining_Cons by blast
qed

lemma remaining_left:
  assumes "ar_start e \<le> n"
  shows "remaining t n (e # es) = remaining t (if n < ar_end e then ar_end e else n) es"
proof (rule set_eqI)
  fix a
  let ?m = "if n < ar_end e then ar_end e else n"
  have "n \<le> ?m" by (simp add: less_imp_le)
  moreover have "\<not> (ar_start e \<le> a \<and> a < ar_end e) \<longleftrightarrow> ?m \<le> a" if "a \<in> remaining t n es"
    using remainingD [OF that] assms by auto
  ultimately show "a \<in> remaining t n (e # es) \<longleftrightarrow> a \<in> remaining t ?m es"
    unfolding in_remaining_Cons remaining_mono [of n ?m a t es, OF \<open>n \<le> ?m\<close>] by blast
qed

lemma remaining_left_all:
  assumes "ar_start e \<le> n" and "\<not> ar_end e < ar_end t"
  shows "remaining t n (e # es) = {}"
proof -
  have "ar_start e \<le> a \<and> a < ar_end e" if "a \<in> remaining t n es" for a
    using remainingD [OF that] assms by auto
  then show ?thesis using in_remaining_Cons by blast
qed

lemma remaining_mid:
  assumes "n < ar_start e" and "ar_start e < ar_end t" and "ar_start e \<le> ar_end e"
    and later: "\<And>x. x \<in> set es \<Longrightarrow> ar_start e \<le> ar_start x"
  shows "remaining t n (e # es) = {a. n \<le> a \<and> a < ar_start e} \<union> remaining t (ar_end e) es"
proof (rule set_eqI)
  fix a
  have le: "n \<le> ar_end e" using assms(1,3) by auto
  have low: "a \<in> remaining t n es" if a: "n \<le> a" "a < ar_start e"
  proof -
    have "a \<notin> span x" if "x \<in> set es" for x
    proof
      assume "a \<in> span x"
      then have "ar_start x \<le> a" by (simp add: span_def)
      with later [OF that] a(2) show False by auto
    qed
    moreover have "a < ar_end t" using a(2) assms(2) by auto
    ultimately show ?thesis using a(1) by (auto simp: remaining_def)
  qed
  have "\<not> (ar_start e \<le> a \<and> a < ar_end e) \<longleftrightarrow> a < ar_start e \<or> ar_end e \<le> a" by auto
  moreover have "a \<in> remaining t n es \<Longrightarrow> n \<le> a" using remainingD by blast
  ultimately show "a \<in> remaining t n (e # es) \<longleftrightarrow> a \<in> {a. n \<le> a \<and> a < ar_start e} \<union> remaining t (ar_end e) es"
    unfolding in_remaining_Cons using remaining_mono [OF le, of a t es] low by blast
qed

lemma remaining_out: "\<not> n < ar_end t \<Longrightarrow> remaining t n es = {}"
  by (auto simp: remaining_def)

lemma exclude_loop_exact:
  assumes t: "plain t" and "\<forall>e\<in>set es. plain e \<and> ar_valid e" and "sorted (map ar_start es)"
    and "ar_start t \<le> n" and "ordered_ranges acc n"
  shows "\<exists>rs m. exclude_loop t es n acc = Inr rs \<and> ordered_ranges rs m \<and>
    (\<Union>r\<in>set rs. span r) = (\<Union>r\<in>set acc. span r) \<union> remaining t n es"
  using assms(2-5)
proof (induction es arbitrary: n acc)
  case Nil
  show ?case
  proof (cases "n < ar_end t")
    case True
    then show ?thesis using ordered_snoc [OF Nil.prems(4) True] by (auto simp: remaining_def)
  next
    case False
    then show ?thesis using Nil.prems(4) by (auto simp: remaining_out)
  qed
next
  case (Cons e es)
  have e: "plain e" "ar_start e \<le> ar_end e" "\<not> interleaved e"
    using Cons.prems(1) by (auto simp: ar_valid_def plain_def interleaved_def)
  have later: "ar_start e \<le> ar_start x" if "x \<in> set es" for x using Cons.prems(2) that by auto
  note IH = Cons.IH [of "n'" "acc'" for n' acc']
  have pre: "\<forall>e\<in>set es. plain e \<and> ar_valid e" "sorted (map ar_start es)" using Cons.prems(1,2) by auto
  note i = plain_intersects [OF t e(1)]
  consider (apart) "\<not> (ar_start t < ar_end e \<and> ar_start e < ar_end t)"
    | (left) "ar_start t < ar_end e \<and> ar_start e < ar_end t" "ar_start e \<le> n"
    | (mid) "ar_start t < ar_end e \<and> ar_start e < ar_end t" "n < ar_start e" by fastforce
  then show ?case
  proof cases
    case apart
    then show ?thesis using IH [OF pre Cons.prems(3,4)] e(3) i remaining_apart [OF Cons.prems(3) apart] by simp
  next
    case left
    show ?thesis
    proof (cases "ar_end e < ar_end t")
      case True
      let ?n = "if n < ar_end e then ar_end e else n"
      have "ar_start t \<le> ?n" "ordered_ranges acc ?n" using Cons.prems(3) ordered_mono [OF Cons.prems(4), of ?n] by auto
      from IH [OF pre this] show ?thesis using True left e(3) i remaining_left [OF left(2)] by simp
    next
      case False
      then show ?thesis using left e(3) i Cons.prems(4) by (auto simp: remaining_left_all)
    qed
  next
    case mid
    let ?acc = "acc @ [AddrRange_plain n (ar_start e)]"
    have acc: "ordered_ranges ?acc (ar_start e)" by (rule ordered_snoc [OF Cons.prems(4) mid(2)])
    have rem: "(\<Union>r\<in>set acc. span r) \<union> remaining t n (e # es) = (\<Union>r\<in>set ?acc. span r) \<union> remaining t (ar_end e) es"
      using remaining_mid [OF mid(2) _ e(2) later] mid(1) by auto
    have ns: "\<not> ar_start e \<le> n" using mid(2) by simp
    show ?thesis
    proof (cases "ar_end e < ar_end t")
      case True
      have "ar_start t \<le> ar_end e" "ordered_ranges ?acc (ar_end e)" using mid(1) ordered_mono [OF acc e(2)] by auto
      from IH [OF pre this] show ?thesis unfolding rem using True mid ns e(3) i by simp
    next
      case False
      then show ?thesis unfolding rem using mid ns e(3) i acc by (auto simp: remaining_out)
    qed
  qed
qed

text \<open>
  C16. Exclusion computes the set difference: for a range and exclusions that are not interleaved
  and whose bounds are in order, in any order and overlapping or not, it returns a list of
  non-empty ranges in increasing order, none overlapping another, that contain exactly the
  addresses of the range that no exclusion contains.
\<close>

theorem exclude_exact:
  assumes "plain t" and "\<forall>e\<in>set es. plain e \<and> ar_valid e"
  shows "\<exists>rs. ar_exclude t es = Inr rs \<and>
    sorted_wrt (\<lambda>x y. ar_end x \<le> ar_start y) rs \<and> (\<forall>r\<in>set rs. plain r \<and> ar_start r < ar_end r) \<and>
    (\<forall>a. (\<exists>r\<in>set rs. ar_contains r a = Inr True) \<longleftrightarrow>
      ar_contains t a = Inr True \<and> \<not> (\<exists>e\<in>set es. ar_contains e a = Inr True))"
proof -
  have "\<forall>e\<in>set (ar_sort es). plain e \<and> ar_valid e" "ordered_ranges [] (ar_start t)" using assms(2) by (simp_all add: ordered_ranges_def)
  then obtain rs m where rs: "exclude_loop t (ar_sort es) (ar_start t) [] = Inr rs" "ordered_ranges rs m"
    "(\<Union>r\<in>set rs. span r) = remaining t (ar_start t) (ar_sort es)"
    using exclude_loop_exact [OF assms(1) _ sorted_ar_sort [of es], of "ar_start t" "[]"] by auto
  have pl: "\<forall>r\<in>set rs. plain r \<and> ar_start r < ar_end r" "sorted_wrt (\<lambda>x y. ar_end x \<le> ar_start y) rs"
    using rs(2) by (auto simp: ordered_ranges_def)
  have "(\<exists>r\<in>set rs. ar_contains r a = Inr True) \<longleftrightarrow> a \<in> (\<Union>r\<in>set rs. span r)" for a
    using pl(1) by (auto simp: plain_contains)
  moreover have "a \<in> remaining t (ar_start t) (ar_sort es) \<longleftrightarrow> ar_contains t a = Inr True \<and> \<not> (\<exists>e\<in>set es. ar_contains e a = Inr True)" for a
    using assms by (auto simp: remaining_def plain_contains span_def)
  moreover have "\<not> interleaved t" using assms(1) by (simp add: plain_def interleaved_def)
  ultimately show ?thesis using rs(1,3) pl by (auto simp: ar_exclude_def)
qed

definition two_holes :: "AddrRange list" where
  "two_holes = [AddrRange_plain 0x180 0x1c0, AddrRange_plain 0x100 0x140]"

theorem exclude_exact_witness:
  "\<exists>rs. ar_exclude (AddrRange_plain 0x100 0x200) two_holes = Inr rs \<and>
    sorted_wrt (\<lambda>x y. ar_end x \<le> ar_start y) rs \<and> ar_contains (rs ! 0) 0x140 = Inr True"
proof -
  have "\<forall>e\<in>set two_holes. plain e \<and> ar_valid e" by (simp add: two_holes_def ar_valid_def)
  from exclude_exact [OF plain_simps(1) [of "0x100" "0x200"] this] obtain rs
    where rs: "ar_exclude (AddrRange_plain 0x100 0x200) two_holes = Inr rs" "sorted_wrt (\<lambda>x y. ar_end x \<le> ar_start y) rs" by blast
  have "ar_exclude (AddrRange_plain 0x100 0x200) two_holes = Inr [AddrRange_plain 0x140 0x180, AddrRange_plain 0x1c0 0x200]"
    by code_simp
  then show ?thesis using rs by (auto simp: plain_contains)
qed

subsection \<open>Interleaved ranges\<close>

text \<open>The selector has a bit for each mask and no other.\<close>

lemma sel_loop_bits:
  assumes "\<And>j. i \<le> j \<Longrightarrow> \<not> bit sel j" and "i + length ms \<le> 32"
  shows "\<exists>s. sel_loop a i ms sel = Inr s \<and> (\<forall>j. i + length ms \<le> j \<longrightarrow> \<not> bit s j)"
  using assms
proof (induction ms arbitrary: i sel)
  case (Cons m ms)
  let ?b = "word_of_int (popCount (a AND m) mod 2) :: 32 word"
  have "popCount (a AND m) mod 2 = 0 \<or> popCount (a AND m) mod 2 = 1" by auto
  then have b: "bit ?b j \<Longrightarrow> j = 0" for j by (elim disjE) (simp_all add: bit_1_iff)
  have "\<not> bit (sel OR push_bit i ?b) j" if "Suc i \<le> j" for j
    using Cons.prems(1) [of j] b [of "j - i"] that by (auto simp: bit_or_iff bit_push_bit_iff)
  from Cons.IH [of "Suc i" "sel OR push_bit i ?b", OF this] Cons.prems(2) show ?case by simp
qed auto

lemma sel_bound:
  assumes "length ms \<le> 32"
  obtains s where "sel_loop a 0 ms 0 = Inr s" and "unat s < 2 ^ length ms"
proof -
  obtain s where s: "sel_loop a 0 ms 0 = Inr s" "\<And>j. length ms \<le> j \<Longrightarrow> \<not> bit s j"
    using sel_loop_bits [of 0 0 ms a] assms by auto
  have "s = take_bit (length ms) s"
    by (rule bit_eqI) (use s(2) leI in \<open>auto simp: bit_take_bit_iff\<close>)
  then have "unat s = take_bit (length ms) (unat s)" by (metis unsigned_take_bit_eq)
  then have "unat s < 2 ^ length ms" by (metis take_bit_nat_less_exp)
  then show thesis using that s(1) by blast
qed

lemma merge_loop_nth:
  "merge_loop t m rs = Inr () \<Longrightarrow> i < length rs \<Longrightarrow> mergesWith t (rs ! i) \<and> intlvMatch (rs ! i) = m + of_nat i"
proof (induction rs arbitrary: m i)
  case (Cons r rs)
  then show ?case by (cases i) (auto simp: result_simps)
qed simp

lemma contains_sel:
  assumes "length (ar_masks r) \<le> 8" and "sel_loop a 0 (ar_masks r) 0 = Inr s" and "intlvMatch r = of_nat i" and "i < 256"
  shows "ar_contains r a = Inr (a \<in> span r \<and> i = unat s)"
proof -
  have "unat (ucast (of_nat i :: 8 word) :: 32 word) = i"
    using assms(4) by (simp add: unsigned_ucast_eq unsigned_of_nat take_bit_nat_eq_self)
  then have "s = ucast (intlvMatch r) \<longleftrightarrow> i = unat s" unfolding assms(3) by (metis word_unat_eq_iff)
  then show ?thesis using assms(2) by (auto simp: ar_contains_def span_def)
qed

text \<open>
  C18. Merging is exact: when a list of two or more interleaved ranges with at most eight
  interleaving bits merges, the merged range contains exactly the addresses that one of the
  ranges contains, and no two ranges of the list contain the same address.
\<close>

theorem merge_exact:
  assumes m: "AddrRange_merge rs = Inr t" and len: "1 < length rs" and le8: "length (ar_masks (hd rs)) \<le> 8"
  shows "ar_contains t a = Inr (\<exists>r\<in>set rs. ar_contains r a = Inr True) \<and>
    (\<forall>i j. i < length rs \<and> j < length rs \<and> ar_contains (rs ! i) a = Inr True \<and> ar_contains (rs ! j) a = Inr True \<longrightarrow> i = j)"
proof -
  obtain r0 rest where rs: "rs = r0 # rest" using len by (cases rs) auto
  let ?n = "length (ar_masks r0)"
  have n8: "?n \<le> 8" using le8 rs by simp
  have shl: "shl1 ?n = Inr (push_bit ?n 1)" using n8 by (simp add: shl1_def)
  have un: "unat (push_bit ?n 1 :: uint64) = 2 ^ ?n" using n8 unat_power_2 [of ?n, where 'a = 64] by (simp add: push_bit_eq_mult)
  have l: "length rs = 2 ^ ?n" and ml: "merge_loop r0 0 rs = Inr ()" and t: "t = r0\<lparr>ar_masks := [], intlvMatch := 0\<rparr>"
    using m len shl un unfolding AddrRange_merge_def by (auto simp: rs result_simps)
  obtain s where s: "sel_loop a 0 (ar_masks r0) 0 = Inr s" "unat s < 2 ^ ?n" using sel_bound [of "ar_masks r0" a] n8 by auto
  have "(2 :: nat) ^ ?n \<le> 2 ^ 8" using n8 by (rule power_increasing) simp
  then have l256: "length rs \<le> 256" using l by simp
  have c: "ar_contains (rs ! i) a = Inr (a \<in> span r0 \<and> i = unat s)" if i: "i < length rs" for i
  proof -
    have w: "mergesWith r0 (rs ! i)" "intlvMatch (rs ! i) = of_nat i" using merge_loop_nth [OF ml i] by auto
    then have "ar_masks (rs ! i) = ar_masks r0" "span (rs ! i) = span r0" by (simp_all add: mergesWith_def span_def)
    then show ?thesis using contains_sel [of "rs ! i" a s i] n8 s(1) w(2) i l256 by simp
  qed
  have "ar_contains t a = Inr (a \<in> span r0)" using plain_contains [of t a] by (simp add: t plain_def span_def)
  moreover have "(\<exists>r\<in>set rs. ar_contains r a = Inr True) \<longleftrightarrow> a \<in> span r0"
  proof
    assume "a \<in> span r0"
    then have "ar_contains (rs ! unat s) a = Inr True" using c [of "unat s"] s(2) l by simp
    then show "\<exists>r\<in>set rs. ar_contains r a = Inr True" using s(2) l by (metis nth_mem)
  next
    assume "\<exists>r\<in>set rs. ar_contains r a = Inr True"
    then obtain i where "i < length rs" "ar_contains (rs ! i) a = Inr True" by (metis in_set_conv_nth)
    then show "a \<in> span r0" using c by simp
  qed
  moreover have "i = j" if "i < length rs" "j < length rs" "ar_contains (rs ! i) a = Inr True" "ar_contains (rs ! j) a = Inr True" for i j
    using that c by simp
  ultimately show ?thesis by (intro conjI allI impI) (simp, blast)
qed

definition two_banks :: "AddrRange list" where
  "two_banks = [\<lparr>ar_start = 0, ar_end = 0x1000, ar_masks = [0x40], intlvMatch = 0\<rparr>,
    \<lparr>ar_start = 0, ar_end = 0x1000, ar_masks = [0x40], intlvMatch = 1\<rparr>]"

theorem merge_exact_witness:
  "AddrRange_merge two_banks = Inr (AddrRange_plain 0 0x1000) \<and>
    ar_contains (AddrRange_plain 0 0x1000) 0x7c = Inr (\<exists>r\<in>set two_banks. ar_contains r 0x7c = Inr True)"
proof -
  have m: "AddrRange_merge two_banks = Inr (AddrRange_plain 0 0x1000)" by code_simp
  have "1 < length two_banks" "length (ar_masks (hd two_banks)) \<le> 8" by (simp_all add: two_banks_def)
  from merge_exact [OF m this, of "0x7c"] m show ?thesis by blast
qed

text \<open>
  C40. The granularity of an interleaved range whose masks have no bit below 32 is undefined: the
  masks are combined in an \<open>int\<close>, which is then 0, and the shift is by 64.
\<close>

theorem granularity_truncates:
  assumes "ar_masks r \<noteq> []" and "\<forall>m\<in>set (ar_masks r). take_bit 32 m = 0"
  shows "granularity r = Inl UndefinedBehaviour"
proof -
  have "fold (\<lambda>m c. ucast (scast c OR m :: uint64)) ms (0 :: 32 word) = 0" if "\<forall>m\<in>set ms. take_bit 32 m = 0" for ms
    using that
  proof (induction ms)
    case (Cons m ms)
    have "(ucast m :: 32 word) = 0" using Cons.prems by (intro word_unat_eq_iff [THEN iffD2]) (simp add: unsigned_ucast_eq unsigned_take_bit_eq [symmetric])
    then show ?case using Cons by simp
  qed simp
  then have "combined_mask r = 0" using assms(2) by (simp add: combined_mask_def)
  then show ?thesis using assms(1) by (simp add: granularity_def interleaved_def ctz64_def shl1_def)
qed

theorem granularity_truncates_witness:
  "granularity \<lparr>ar_start = 0, ar_end = 0x400000000, ar_masks = [0x100000000], intlvMatch = 0\<rparr> = Inl UndefinedBehaviour"
  by (rule granularity_truncates) (simp_all add: take_bit_eq_mod)

text \<open>
  In \<open>addIntlvBits\<close> the lowest bit of a mask is cleared with an \<open>int\<close>: for bit 31 the complement is
  positive, and the conversion to 64 bits clears the upper half of the address as well.
\<close>

lemma not_lsb_31: "not_lsb 31 = 0x7fffffff"
  by code_simp

end
