(* ===== verification/Spec2Isabelle.thy ===== *)
theory Spec2Isabelle
  imports AdaptiveWitnesses Activity IntMath SatCounter CircularQueue RenameWitnesses CommitArbiter
    StoreSetProps FunctionUnits BPredSquash EventCheckpoint AddrRangeProps
begin

text \<open>
  Verification of the gem5 simulator with the stall-adaptive controller of its out-of-order (O3)
  CPU. Paths are relative to \<^verbatim>\<open>src/src\<close>.

  \<^bold>\<open>The program.\<close> The event loop (\<^verbatim>\<open>sim\<close>) serves events in the order of time and priority; one of
  them is the tick of the O3 CPU (\<^verbatim>\<open>cpu/o3\<close>). In a tick the stages fetch, decode, rename, issue
  and commit instructions and pass them on through time buffers. Fetch asks the branch prediction
  unit (\<^verbatim>\<open>cpu/pred\<close>), rename maps architectural to physical registers, issue asks the store sets
  for memory dependences and the functional unit pool for units, and commit retires from the
  reorder buffer. The adaptive controller in \<^verbatim>\<open>cpu/o3/cpu.cc\<close> samples the stages every cycle,
  classifies each window of cycles and narrows the stages when it expects a stall.

  \<^bold>\<open>Conventions\<close> (\<open>Prelude\<close>). A C++ integer is a word of its width, an \<open>int\<close> a HOL \<open>int\<close> unless its
  width matters. Asserts, panics, fatal errors and undefined behaviour are values of \<open>cpp_error\<close>; an
  operation that can abort returns a \<open>result\<close>. A loop that may not end is a
  \<open>partial_function (option)\<close> with \<open>None\<close> for not returning; where it returns, a theorem says so.
  Definitions keep the names of the code, with a prefix where several classes share a name.

  \<^bold>\<open>Adaptive controller\<close> (\<^verbatim>\<open>cpu/o3/cpu.cc\<close>, \<^verbatim>\<open>cpu.hh\<close>).
  \<^item> \<open>Doubles\<close>: the double arithmetic of the ratios. \<open>AdaptiveLimits\<close>: configuration, caps and widths.
    \<open>AdaptiveWindow\<close>: sampling, classification, mode switching, window log and window size.
  \<^item> \<open>AdaptiveProps\<close>: the log respects the hysteresis and the hold time; a switch caused by serialized
    memory is permanent. \<open>AdaptiveBounds\<close>: bounds of widths and window size, the throttle, the length
    of windows, the documented decision table, inertness when disabled. \<open>AdaptiveWitnesses\<close>: concrete runs.

  \<^bold>\<open>Infrastructure of the pipeline.\<close>
  \<^item> \<open>TimeBuffer\<close> (\<^verbatim>\<open>cpu/timebuf.hh\<close>): what is written into the future arrives after that many advances.
    \<open>Activity\<close> (\<^verbatim>\<open>cpu/activity.cc\<close>): the activity count is exact, and the CPU idles after the latency.
  \<^item> \<open>BitField\<close>, \<open>IntMath\<close> (\<^verbatim>\<open>base/bitfield.hh\<close>, \<^verbatim>\<open>intmath.hh\<close>): every function by the bits or the integer it
    returns. \<open>SatCounter\<close>, \<open>CircularQueue\<close> (\<^verbatim>\<open>base\<close>): clamped arithmetic; the ring refines a bounded list.

  \<^bold>\<open>Registers and renaming.\<close>
  \<^item> \<open>RegClass\<close>, \<open>RegFile\<close> (\<^verbatim>\<open>cpu/reg_class.hh\<close>, \<^verbatim>\<open>regfile.hh\<close>), \<open>PhysRegFile\<close> (\<^verbatim>\<open>cpu/o3/regfile.cc\<close>): register
    ids as keys, values read back, and the counts for which the constructor returns.
  \<^item> \<open>RenameMap\<close>, \<open>RenameHistory\<close>, \<open>RenameInit\<close> (\<^verbatim>\<open>rename_map.cc\<close>, \<^verbatim>\<open>free_list.hh\<close>, \<^verbatim>\<open>scoreboard.hh\<close>, \<^verbatim>\<open>rename.cc\<close>): the
    operations. \<open>RenameProps\<close>: no register is lost or duplicated, a squash undoes renaming, and the
    check before renaming suffices. \<open>RenameWitnesses\<close>: a concrete machine.

  \<^bold>\<open>Commit.\<close> \<open>ReorderBuffer\<close>, \<open>ReorderBufferInv\<close> (\<^verbatim>\<open>rob.cc\<close>): squashing marks exactly the younger instructions
  and ends, counters are exact, the head is the oldest. \<open>CommitArbiter\<close> (\<^verbatim>\<open>commit.cc\<close>): round robin is
  fair, oldest ready is exact below \<open>2 ^ 32\<close> instructions and not beyond. A squash
  handles a bounded number of instructions in each cycle; it is complete after as many cycles as the
  younger instructions need.

  \<^bold>\<open>Issue.\<close> \<open>StoreSets\<close>, \<open>StoreSetProps\<close> (\<^verbatim>\<open>store_set.cc\<close>): no run aborts, a violation is predicted afterwards, and
  when the squash loop returns. \<open>FunctionUnits\<close> (\<^verbatim>\<open>fu_pool.cc\<close>, \<^verbatim>\<open>cpu/func_unit.cc\<close>): the pool hands out a free
  capable unit exactly when there is one, and the search ends after one round of the queue.

  \<^bold>\<open>Branch prediction\<close> (\<^verbatim>\<open>cpu/pred\<close>). \<open>ReturnStack\<close>, \<open>BranchTargets\<close>, \<open>DirectionPredictors\<close> (local, bi-mode,
  tournament) and \<open>IndirectTargets\<close> model the tables, \<open>BPredUnit\<close> the unit. The locale \<open>direction_predictor\<close> of
  \<open>BPredProps\<close> is the contract between the unit and a direction predictor; it is interpreted for all
  three. \<open>BPredSquash\<close>: squashing undoes predictions, whatever the predictor.

  \<^bold>\<open>Event queue\<close> (\<^verbatim>\<open>sim/eventq.hh\<close>, \<^verbatim>\<open>eventq.cc\<close>, \<^verbatim>\<open>simulate.cc\<close>). \<open>EventQueue\<close> models events and queue over a
  store of events with their links; the effect of a handler is a parameter, the calls it makes.
  \<open>SortedBins\<close> holds lists of bins, \<open>EventBins\<close> the linked segments in the store and what insertion and
  removal do to them. \<open>EventSpec\<close> is the specification, one sorted list; \<open>EventRefine\<close> and \<open>EventService\<close> show that
  the pointer structure simulates it, aborts included, that its searches return, and that events are
  served in order. \<open>EventCheckpoint\<close>: restoring from a checkpoint, and \<open>debugVerify\<close>.

  \<^bold>\<open>Address ranges\<close> (\<^verbatim>\<open>base/addr_range.hh\<close>). \<open>AddrRange\<close> models plain and interleaved ranges; \<open>AddrRangeProps\<close>
  shows that exclusion is set difference and that merging interleaved ranges is exact.

  \<^bold>\<open>Not modelled.\<close> The fetch, decode and execute stages, the instruction queue and the load/store queues:
  they interleave cache and translation requests, generated decoders and callbacks on shared
  dynamic instructions. TAGE, perceptron and loop predictors: their contract is the locale above,
  their tables are not modelled. The other CPU models, the memory system, the instruction sets, the
  GPU, devices and kernels: separate systems that the modelled parts do not call. Mutexes and the
  migration of queues between threads: the event queue is modelled for one thread, with the
  asynchronous list that other threads fill. Statistics, tracing, printing and Python
  configuration: they do not feed back into the modelled state. Of the double arithmetic only what
  the ratios and their comparisons use is modelled.
\<close>

end
